(* ===== verification/Kod_Prelude.thy ===== *)
theory Kod_Prelude
  imports Main "HOL-Library.Word" "HOL-Library.Monad_Syntax"
begin

text \<open>
  What the theories of the Kod runtime share.

  \<^item> Machine integers. A C \<open>int64_t\<close> is an \<open>int\<close> whose range is checked: \<open>chk64\<close> gives
    \<open>None\<close> when a signed computation leaves the 64-bit range, which is undefined behaviour
    in C. Throughout the heap-level theories \<open>None\<close> reads ``the C program has no defined
    behaviour from here'' (signed overflow, an access outside an object, a write through NULL).
  \<^item> Memory. Memory is a function from addresses to bytes; \<open>rd\<close> and \<open>wr\<close> read and write a
    run of bytes, \<open>i64_bytes\<close> and \<open>i64_val\<close> are the little-endian two's complement image of
    an \<open>int64_t\<close> or a pointer on AArch64.
  \<^item> The named collections \<open>mem_simps\<close> (reads over writes) and \<open>range_simps\<close>.
\<close>

unbundle bit_operations_syntax

named_theorems mem_simps \<open>reads over writes of memory\<close>
named_theorems range_simps \<open>64-bit ranges, unfolded\<close>

section \<open>Signed 64-bit integers\<close>

type_synonym byte = "8 word"
type_synonym addr = int
type_synonym memory = "addr \<Rightarrow> byte"

definition INT64_MAX :: int where
  "INT64_MAX = 9223372036854775807"

definition INT64_MIN :: int where
  "INT64_MIN = - 9223372036854775808"

definition in64 :: "int \<Rightarrow> bool" where
  "in64 v \<longleftrightarrow> INT64_MIN \<le> v \<and> v \<le> INT64_MAX"

definition chk64 :: "int \<Rightarrow> int option" where
  "chk64 v = (if in64 v then Some v else None)"

lemmas in64_unfold [range_simps] = in64_def INT64_MIN_def INT64_MAX_def

lemma chk64_Some [simp]: "in64 v \<Longrightarrow> chk64 v = Some v"
  by (simp add: chk64_def)

lemma chk64_eq_Some [simp]: "chk64 v = Some w \<longleftrightarrow> in64 v \<and> w = v"
  by (auto simp: chk64_def)

lemma chk64_eq_None [simp]: "chk64 v = None \<longleftrightarrow> \<not> in64 v"
  by (simp add: chk64_def)

text \<open>The largest 64-bit value is the usual power of two; the constants are spelled as in C.\<close>

lemma INT64_MAX_power: "INT64_MAX = 2 ^ 63 - 1"
  by (simp add: INT64_MAX_def)

section \<open>Little-endian images\<close>

fun le_bytes :: "nat \<Rightarrow> int \<Rightarrow> byte list" where
  "le_bytes 0 v = []"
| "le_bytes (Suc n) v = word_of_int v # le_bytes n (v div 256)"

fun le_val :: "byte list \<Rightarrow> int" where
  "le_val [] = 0"
| "le_val (b # bs) = uint b + 256 * le_val bs"

definition i64_bytes :: "int \<Rightarrow> byte list" where
  "i64_bytes v = le_bytes 8 v"

definition i64_val :: "byte list \<Rightarrow> int" where
  "i64_val bs = (let u = le_val bs in if u < 9223372036854775808 then u else u - 18446744073709551616)"

lemma length_le_bytes [simp]: "length (le_bytes n v) = n"
  by (induction n arbitrary: v) auto

lemma length_i64_bytes [simp]: "length (i64_bytes v) = 8"
  by (simp add: i64_bytes_def)

lemma le_val_le_bytes: "le_val (le_bytes n v) = v mod 256 ^ n"
proof (induction n arbitrary: v)
  case 0
  then show ?case by simp
next
  case (Suc n)
  have "v mod (256 * 256 ^ n) = 256 * (v div 256 mod 256 ^ n) + v mod 256"
    by (rule zmod_zmult2_eq) simp
  then show ?case
    using Suc.IH [of "v div 256"] by (simp add: uint_word_of_int)
qed

lemma i64_val_bytes [simp]: "in64 v \<Longrightarrow> i64_val (i64_bytes v) = v"
proof -
  assume v: "in64 v"
  have e: "le_val (i64_bytes v) = v mod 18446744073709551616"
    using le_val_le_bytes [of 8 v] by (simp add: i64_bytes_def)
  show ?thesis
  proof (cases "0 \<le> v")
    case True
    with v e show ?thesis by (simp add: i64_val_def range_simps)
  next
    case False
    have "v mod 18446744073709551616 = (v + 18446744073709551616) mod 18446744073709551616"
      by simp
    also have "\<dots> = v + 18446744073709551616"
      using False v by (intro mod_pos_pos_trivial) (auto simp: range_simps)
    finally show ?thesis
      using False v e by (simp add: i64_val_def range_simps)
  qed
qed

section \<open>Runs of bytes in memory\<close>

definition rd :: "memory \<Rightarrow> addr \<Rightarrow> nat \<Rightarrow> byte list" where
  "rd m a n = map (\<lambda>i. m (a + int i)) [0..<n]"

definition wr :: "memory \<Rightarrow> addr \<Rightarrow> byte list \<Rightarrow> memory" where
  "wr m a bs = (\<lambda>x. if a \<le> x \<and> x < a + int (length bs) then bs ! nat (x - a) else m x)"

definition ld64 :: "memory \<Rightarrow> addr \<Rightarrow> int" where
  "ld64 m a = i64_val (rd m a 8)"

definition st64 :: "memory \<Rightarrow> addr \<Rightarrow> int \<Rightarrow> memory" where
  "st64 m a v = wr m a (i64_bytes v)"

lemma length_rd [simp]: "length (rd m a n) = n"
  by (simp add: rd_def)

lemma rd_0 [simp]: "rd m a 0 = []"
  by (simp add: rd_def)

lemma nth_rd [simp]: "i < n \<Longrightarrow> rd m a n ! i = m (a + int i)"
  by (simp add: rd_def)

lemma wr_Nil [simp]: "wr m a [] = m"
  by (auto simp: wr_def fun_eq_iff)

lemma rd_cong: "(\<And>x. a \<le> x \<Longrightarrow> x < a + int n \<Longrightarrow> m x = m' x) \<Longrightarrow> rd m a n = rd m' a n"
  by (simp add: rd_def)

lemma ld64_cong: "(\<And>x. a \<le> x \<Longrightarrow> x < a + 8 \<Longrightarrow> m x = m' x) \<Longrightarrow> ld64 m a = ld64 m' a"
  unfolding ld64_def by (rule arg_cong [where f = i64_val], rule rd_cong) simp

lemma wr_outside [mem_simps]: "x < a \<or> a + int (length bs) \<le> x \<Longrightarrow> wr m a bs x = m x"
  by (auto simp: wr_def)

lemma wr_inside [mem_simps]:
  "a \<le> x \<Longrightarrow> x < a + int (length bs) \<Longrightarrow> wr m a bs x = bs ! nat (x - a)"
  by (simp add: wr_def)

lemma rd_wr_same [mem_simps]: "n = length bs \<Longrightarrow> rd (wr m a bs) a n = bs"
  by (rule nth_equalityI) (auto simp: wr_def)

lemma rd_wr_other [mem_simps]:
  "a + int n \<le> b \<or> b + int (length bs) \<le> a \<Longrightarrow> rd (wr m b bs) a n = rd m a n"
  by (rule rd_cong) (auto simp: wr_def)

lemma ld64_wr_other [mem_simps]:
  "a + 8 \<le> b \<or> b + int (length bs) \<le> a \<Longrightarrow> ld64 (wr m b bs) a = ld64 m a"
  by (rule ld64_cong) (auto simp: wr_def)

lemma ld64_st64_same [mem_simps]: "in64 v \<Longrightarrow> ld64 (st64 m a v) a = v"
  by (simp add: ld64_def st64_def rd_wr_same)

lemma ld64_st64_other [mem_simps]: "a + 8 \<le> b \<or> b + 8 \<le> a \<Longrightarrow> ld64 (st64 m b v) a = ld64 m a"
  unfolding st64_def by (rule ld64_wr_other) simp

lemma rd_st64_other [mem_simps]: "a + int n \<le> b \<or> b + 8 \<le> a \<Longrightarrow> rd (st64 m b v) a n = rd m a n"
  unfolding st64_def by (rule rd_wr_other) simp

lemma st64_outside [mem_simps]: "x < a \<or> a + 8 \<le> x \<Longrightarrow> st64 m a v x = m x"
  unfolding st64_def by (rule wr_outside) simp

lemma rd_append: "rd m a (k + n) = rd m a k @ rd m (a + int k) n"
  by (rule nth_equalityI) (auto simp: nth_append)

lemma rd_take: "k \<le> n \<Longrightarrow> take k (rd m a n) = rd m a k"
  by (rule nth_equalityI) auto

lemma rd_sub: "k + j \<le> n \<Longrightarrow> take j (drop k (rd m a n)) = rd m (a + int k) j"
  by (rule nth_equalityI) (auto simp: algebra_simps)

lemma rd_wr_extend: "rd m a k = xs \<Longrightarrow> rd (wr m (a + int k) ys) a (k + length ys) = xs @ ys"
  by (simp add: rd_append rd_wr_same rd_wr_other)

lemma wr_wr_append: "wr (wr m a xs) (a + int (length xs)) ys = wr m a (xs @ ys)"
proof
  fix x
  have "nat (x - (a + int (length xs))) = nat (x - a) - length xs" by simp
  then show "wr (wr m a xs) (a + int (length xs)) ys x = wr m a (xs @ ys) x"
    by (auto simp: wr_def nth_append)
qed

section \<open>Slots\<close>

text \<open>The 8-byte slots a run of bytes is made of, and that a slot carries all of its bytes.\<close>

fun slots_of :: "byte list \<Rightarrow> int list" where
  "slots_of (a # b # c # d # e # f # g # h # bs) = i64_val [a, b, c, d, e, f, g, h] # slots_of bs"
| "slots_of _ = []"

lemma le_val_bounds: "0 \<le> le_val bs \<and> le_val bs < 256 ^ length bs"
proof (induction bs)
  case Nil
  then show ?case by simp
next
  case (Cons b bs)
  have "uint b < 256" using uint_bounded [of b] by simp
  moreover have "0 \<le> uint b" by simp
  ultimately show ?case using Cons.IH by simp
qed

lemma le_bytes_le_val: "le_bytes (length bs) (le_val bs + 256 ^ length bs * k) = bs"
proof (induction bs)
  case Nil
  then show ?case by simp
next
  case (Cons b bs)
  have b: "0 \<le> uint b" "uint b < 256" using uint_bounded [of b] by simp_all
  have w: "(word_of_int (uint b + 256 * z) :: byte) = b" for z
    using b by (simp only: word_uint_eq_iff uint_word_of_int) simp
  have d: "(uint b + 256 * z) div 256 = z" for z
    using b by simp
  have "le_val (b # bs) + 256 ^ length (b # bs) * k = uint b + 256 * (le_val bs + 256 ^ length bs * k)"
    by (simp add: algebra_simps)
  then show ?case using w d Cons.IH by (simp only: length_Cons le_bytes.simps)
qed

lemma i64_val_in64: "length bs = 8 \<Longrightarrow> in64 (i64_val bs)"
  using le_val_bounds [of bs] by (auto simp: i64_val_def Let_def range_simps)

lemma i64_bytes_val: "length bs = 8 \<Longrightarrow> i64_bytes (i64_val bs) = bs"
  using le_bytes_le_val [of bs 0] le_bytes_le_val [of bs "-1"]
  by (auto simp: i64_bytes_def i64_val_def Let_def)

lemma ld64_in64 [simp]: "in64 (ld64 m a)"
  by (simp add: ld64_def i64_val_in64)

lemma st64_ld64: "st64 m d (ld64 m' s) = wr m d (rd m' s 8)"
  by (simp add: st64_def ld64_def i64_bytes_val)

lemma slots_of_Cons8: "length xs = 8 \<Longrightarrow> slots_of (xs @ ys) = i64_val xs # slots_of ys"
  by (auto simp: length_Suc_conv eval_nat_numeral)

lemma bytes8_cases:
  assumes "length xs = 8 * Suc n"
  obtains us vs where "xs = us @ vs" "length us = 8" "length vs = 8 * n"
  using assms that [of "take 8 xs" "drop 8 xs"] by simp

lemma slots_of_append: "length xs = 8 * n \<Longrightarrow> slots_of (xs @ ys) = slots_of xs @ slots_of ys"
proof (induction n arbitrary: xs)
  case 0
  then show ?case by simp
next
  case (Suc n)
  obtain us vs where "xs = us @ vs" "length us = 8" "length vs = 8 * n"
    using Suc.prems by (rule bytes8_cases)
  then show ?case using Suc.IH by (simp add: slots_of_Cons8)
qed

lemma length_slots_of: "length xs = 8 * n \<Longrightarrow> length (slots_of xs) = n"
proof (induction n arbitrary: xs)
  case 0
  then show ?case by simp
next
  case (Suc n)
  obtain us vs where "xs = us @ vs" "length us = 8" "length vs = 8 * n"
    using Suc.prems by (rule bytes8_cases)
  then show ?case using Suc.IH by (simp add: slots_of_Cons8)
qed

lemma slots_of_part:
  assumes "length xs = 8 * n" and "k + j \<le> n"
  shows "slots_of (take (8 * j) (drop (8 * k) xs)) = take j (drop k (slots_of xs))"
proof -
  define a b c where "a = take (8 * k) xs" and "b = take (8 * j) (drop (8 * k) xs)"
    and "c = drop (8 * j) (drop (8 * k) xs)"
  have l: "length a = 8 * k" "length b = 8 * j" using assms by (auto simp: a_def b_def)
  have "b @ c = drop (8 * k) xs" unfolding b_def c_def by (rule append_take_drop_id)
  then have "xs = a @ b @ c" by (simp add: a_def)
  then have "slots_of xs = slots_of a @ slots_of b @ slots_of c"
    using l by (simp add: slots_of_append)
  then show ?thesis
    using length_slots_of [OF l(1)] length_slots_of [OF l(2)] by (simp add: b_def)
qed

section \<open>Doubling a capacity\<close>

text \<open>
  The loop \<open>while (new_cap < need) new_cap *= 2\<close> of the growable buffers of runtime.c
  (\<open>kod_sb_reserve\<close>, \<open>append_to_buf\<close>, \<open>kod_array_concat\<close>). \<open>None\<close>: the loop doubles
  past the 64-bit range (undefined behaviour) or never ends (a capacity of zero).
\<close>

partial_function (option) double_until :: "int \<Rightarrow> int \<Rightarrow> int option" where
  "double_until new_cap need =
     (if new_cap < need
      then do { c \<leftarrow> chk64 (new_cap * 2); double_until c need }
      else Some new_cap)"

lemma double_until_done [simp]: "need \<le> cap \<Longrightarrow> double_until cap need = Some cap"
  by (subst double_until.simps) simp

lemma double_until_step:
  "cap < need \<Longrightarrow> in64 (cap * 2) \<Longrightarrow> double_until cap need = double_until (cap * 2) need"
  by (subst double_until.simps) simp

text \<open>
  The loop returns for a positive capacity while twice the need stays in range: the result
  covers the need, and it is the old capacity or less than twice the need.
\<close>

lemma double_until_returns:
  assumes "0 < cap" and "2 * need \<le> INT64_MAX" and "cap \<le> INT64_MAX"
  shows "\<exists>c. double_until cap need = Some c \<and> cap \<le> c \<and> need \<le> c \<and> (c = cap \<or> c < 2 * need)"
  using assms
proof (induction "nat (need - cap)" arbitrary: cap rule: less_induct)
  case less
  show ?case
  proof (cases "cap < need")
    case False
    then show ?thesis by simp
  next
    case True
    have r: "in64 (cap * 2)" using True less.prems by (simp add: range_simps)
    have s: "double_until cap need = double_until (cap * 2) need"
      using True r by (rule double_until_step)
    have "nat (need - cap * 2) < nat (need - cap)" using True less.prems by simp
    from less.hyps [OF this] less.prems r
    obtain c where "double_until (cap * 2) need = Some c" "cap * 2 \<le> c" "need \<le> c"
      "c = cap * 2 \<or> c < 2 * need"
      by (auto simp: range_simps)
    then show ?thesis using s True less.prems by auto
  qed
qed

text \<open>The result is a power of two times the start.\<close>

lemma double_until_power: "double_until cap need = Some c \<Longrightarrow> \<exists>k. c = cap * 2 ^ k"
proof (induct cap need c rule: double_until.raw_induct [rotated 1, consumes 1, case_names 1])
  case (1 loop cap need c)
  show ?case
  proof (cases "cap < need")
    case True
    then obtain k where "c = cap * 2 * 2 ^ k" using 1 by (fastforce split: Option.bind_splits)
    then have "c = cap * 2 ^ Suc k" by simp
    then show ?thesis by blast
  next
    case False
    then have "c = cap * 2 ^ 0" using 1(2) by simp
    then show ?thesis by blast
  qed
qed

section \<open>C strings and C integers\<close>

text \<open>What the C library reads of a buffer it takes for a string: the bytes before the first NUL.\<close>

definition c_str :: "byte list \<Rightarrow> byte list" where
  "c_str cstr = takeWhile (\<lambda>b. b \<noteq> 0) cstr"

definition bytes_of :: "string \<Rightarrow> byte list" where
  "bytes_of s = map of_char s"

text \<open>The conversion of an \<open>int64_t\<close> to \<open>int\<close>.\<close>

definition c_int :: "int \<Rightarrow> int" where
  "c_int v = (v + 2147483648) mod 4294967296 - 2147483648"

lemma c_int_id: "- 2147483648 \<le> v \<Longrightarrow> v < 2147483648 \<Longrightarrow> c_int v = v"
  by (simp add: c_int_def)

lemma c_str_no_NUL [simp]: "0 \<notin> set s \<Longrightarrow> c_str s = s"
  by (induction s) (auto simp: c_str_def)

lemma c_str_Nil [simp]: "c_str [] = []"
  by (simp add: c_str_def)

text \<open>The \<open>/\<close> and \<open>%\<close> of C truncate towards zero.\<close>

definition c_quot :: "int \<Rightarrow> int \<Rightarrow> int" where
  "c_quot a b = sgn a * sgn b * (\<bar>a\<bar> div \<bar>b\<bar>)"

definition c_rem :: "int \<Rightarrow> int \<Rightarrow> int" where
  "c_rem a b = a - b * c_quot a b"

section \<open>Decimal numbers\<close>

fun dec_digits :: "nat \<Rightarrow> nat \<Rightarrow> byte list" where
  "dec_digits 0 n = []"
| "dec_digits (Suc fuel) n =
     (if n < 10 then [of_nat (48 + n)] else dec_digits fuel (n div 10) @ [of_nat (48 + n mod 10)])"

definition dec_nat :: "nat \<Rightarrow> byte list" where
  "dec_nat n = dec_digits (Suc n) n"

text \<open>\<open>%d\<close> and \<open>%lld\<close>.\<close>

definition dec_int :: "int \<Rightarrow> byte list" where
  "dec_int i = (if i < 0 then 45 # dec_nat (nat (- i)) else dec_nat (nat i))"

definition dec_val :: "byte list \<Rightarrow> nat" where
  "dec_val ds = foldl (\<lambda>v d. 10 * v + (unat d - 48)) 0 ds"

lemma dec_digits_val: "n < fuel \<Longrightarrow> dec_val (dec_digits fuel n) = n"
proof (induction fuel arbitrary: n)
  case (Suc fuel)
  have d: "unat (of_nat (48 + k) :: byte) - 48 = k" if "k < 10" for k
    using that by (simp add: unat_of_nat del: of_nat_add)
  show ?case
  proof (cases "n < 10")
    case True
    then show ?thesis using d by (simp add: dec_val_def del: of_nat_add)
  next
    case False
    then have "dec_val (dec_digits fuel (n div 10)) = n div 10" using Suc by (intro Suc.IH) auto
    moreover have "unat (of_nat (48 + n mod 10) :: byte) - 48 = n mod 10" by (rule d) simp
    ultimately show ?thesis using False by (simp add: dec_val_def del: of_nat_add)
  qed
qed simp

lemma dec_nat_val [simp]: "dec_val (dec_nat n) = n"
  by (simp add: dec_nat_def dec_digits_val del: dec_digits.simps)

lemma dec_nat_digit: "n < 10 \<Longrightarrow> dec_nat n = [of_nat (48 + n)]"
  by (simp add: dec_nat_def)

section \<open>Simulation\<close>

text \<open>
  The contract by which a stateful component implements its specification: from a state that
  represents \<open>v\<close> every operation has defined behaviour and ends in a state that represents what
  the specification makes of \<open>v\<close>. \<open>env\<close> is what the component assumes of its environment,
  \<open>allowed\<close> of the single operation.
\<close>

fun run_ops :: "('o \<Rightarrow> 's \<Rightarrow> 's option) \<Rightarrow> 'o list \<Rightarrow> 's \<Rightarrow> 's option" where
  "run_ops f [] s = Some s"
| "run_ops f (x # xs) s = do { s \<leftarrow> f x s; run_ops f xs s }"

lemma run_ops_append: "run_ops f (xs @ ys) s = do { s \<leftarrow> run_ops f xs s; run_ops f ys s }"
  by (induction xs arbitrary: s) (auto split: Option.bind_splits)

locale simulation =
  fixes stp :: "'o \<Rightarrow> 's \<Rightarrow> 's option" and represents :: "'s \<Rightarrow> 'v \<Rightarrow> bool" and spec :: "'o \<Rightarrow> 'v \<Rightarrow> 'v"
    and env :: bool and allowed :: "'o \<Rightarrow> bool"
  assumes step_refines: "env \<Longrightarrow> allowed x \<Longrightarrow> represents s v \<Longrightarrow>
    \<exists>s'. stp x s = Some s' \<and> represents s' (spec x v)"
begin

lemma run_refines:
  "env \<Longrightarrow> list_all allowed xs \<Longrightarrow> represents s v \<Longrightarrow>
   \<exists>s'. run_ops stp xs s = Some s' \<and> represents s' (fold spec xs v)"
proof (induction xs arbitrary: s v)
  case (Cons x xs)
  then obtain s' where "stp x s = Some s'" "represents s' (spec x v)"
    using step_refines [of x s v] by auto
  with Cons show ?case by simp
qed simp

end

text \<open>The same where a step may stop: then everything before it is done, and \<open>stops\<close> says why it did.\<close>

locale partial_simulation =
  fixes stp :: "'o \<Rightarrow> 's \<Rightarrow> 's option" and represents :: "'s \<Rightarrow> 'v \<Rightarrow> bool" and spec :: "'o \<Rightarrow> 'v \<Rightarrow> 'v"
    and env :: bool and stops :: "'o \<Rightarrow> 's \<Rightarrow> bool"
  assumes step_or_stops: "env \<Longrightarrow> represents s v \<Longrightarrow>
    (\<exists>s'. stp x s = Some s' \<and> represents s' (spec x v)) \<or> stp x s = None \<and> stops x s"
begin

lemma run_or_stops:
  "env \<Longrightarrow> represents s v \<Longrightarrow>
   (\<exists>s'. run_ops stp xs s = Some s' \<and> represents s' (fold spec xs v)) \<or>
   run_ops stp xs s = None \<and> (\<exists>ys x zs s'. xs = ys @ x # zs \<and> run_ops stp ys s = Some s' \<and> stops x s')"
proof (induction xs arbitrary: s v)
  case (Cons x xs)
  show ?case
  proof (cases "stp x s")
    case None
    then have "stops x s" using step_or_stops [OF Cons.prems, of x] by simp
    moreover have "run_ops stp (x # xs) s = None" "run_ops stp [] s = Some s" using None by simp_all
    ultimately show ?thesis by blast
  next
    case (Some s1)
    then have "represents s1 (spec x v)" using step_or_stops [OF Cons.prems, of x] by auto
    note ih = Cons.IH [OF Cons.prems(1) this]
    have run: "run_ops stp (x # ys) s = run_ops stp ys s1" for ys using Some by simp
    from ih show ?thesis
    proof (elim disjE exE conjE)
      fix ys y zs s'
      assume "run_ops stp xs s1 = None" "xs = ys @ y # zs" "run_ops stp ys s1 = Some s'" "stops y s'"
      then show ?thesis using run by (metis append_Cons)
    qed (use run in simp)
  qed
qed simp

end

end
