(* ===== verification/Kod_Arena.thy ===== *)
theory Kod_Arena
  imports Kod_Prelude
begin

text \<open>
  The arena of stdlib/arena.c: a bump allocator over a chain of malloc'd blocks.

  \<open>heap\<close> is the memory of the runtime, the blocks \<open>malloc\<close> has given out and not taken
  back (\<open>live\<close>), and the static \<open>current_block\<close>. The chain through \<open>Block.next\<close> is a list
  whose head is \<open>current_block\<close>; NULL is the empty list. \<open>malloc\<close> is a parameter \<open>M\<close>:
  it answers an address for the heap and the size, 0 for NULL; \<open>malloc_ok\<close> says what the C
  standard promises of it.

  The allocator's contract is the locale \<open>allocator\<close>, interpreted on \<open>arena_alloc\<close>.
\<close>

section \<open>State\<close>

record Block =
  blk :: addr       \<comment> \<open>where the block was malloc'd: the address of the struct\<close>
  current :: addr
  block_end :: addr

record heap =
  mem :: memory
  live :: "(addr \<times> int) list"
  current_block :: "Block list"

type_synonym malloc_fn = "heap \<Rightarrow> int \<Rightarrow> addr"

definition BLOCK_SIZE :: int where
  "BLOCK_SIZE = 4 * 1024 * 1024"

definition sizeof_Block :: int where
  "sizeof_Block = 24"

section \<open>Operations\<close>

definition new_block :: "malloc_fn \<Rightarrow> int \<Rightarrow> heap \<Rightarrow> (Block \<times> heap) option" where
  "new_block M min_size h =
     (let size = (if BLOCK_SIZE > min_size then BLOCK_SIZE else min_size);
          b = M h (sizeof_Block + size)
      in if b = 0 then None
         else Some (\<lparr>blk = b, current = b + sizeof_Block, block_end = b + sizeof_Block + size\<rparr>,
                    h\<lparr>live := (b, sizeof_Block + size) # live h\<rparr>))"

definition round8 :: "int \<Rightarrow> int" where
  "round8 n = (n + 7) AND NOT 7"

text \<open>
  Addresses are compared as the machine does: for the test whether a block has room, \<open>current + size\<close> may lie past its end. A
  pointer that is kept never leaves its block: a negative size that would move \<open>current\<close> below the block is \<open>None\<close>.
\<close>

definition arena_alloc :: "malloc_fn \<Rightarrow> int \<Rightarrow> heap \<Rightarrow> (addr \<times> heap) option" where
  "arena_alloc M n h = do {
     _ \<leftarrow> chk64 (n + 7);
     let size = round8 n;
     h \<leftarrow> (if current_block h = [] \<or>
              current (hd (current_block h)) + size > block_end (hd (current_block h))
           then do {
             (b, h) \<leftarrow> new_block M size h;
             Some (h\<lparr>current_block := b # current_block h\<rparr>)
           }
           else Some h);
     let B = hd (current_block h);
     let ptr = current B;
     if ptr + size < blk B then None
     else Some (ptr, h\<lparr>current_block := B\<lparr>current := current B + size\<rparr> # tl (current_block h)\<rparr>)
   }"

text \<open>\<open>free\<close>: undefined on an address \<open>malloc\<close> has not given out or has taken back.\<close>

definition free_block :: "addr \<Rightarrow> heap \<Rightarrow> heap option" where
  "free_block b h =
     (if b \<in> fst ` set (live h) then Some (h\<lparr>live := filter (\<lambda>r. fst r \<noteq> b) (live h)\<rparr>)
      else None)"

fun free_chain :: "Block list \<Rightarrow> heap \<Rightarrow> heap option" where
  "free_chain [] h = Some h"
| "free_chain (b # next) h = do { h \<leftarrow> free_block (blk b) h; free_chain next h }"

definition arena_reset :: "heap \<Rightarrow> heap option" where
  "arena_reset h = do {
     h \<leftarrow> free_chain (current_block h) h;
     Some (h\<lparr>current_block := []\<rparr>)
   }"

section \<open>Objects the arena has handed out\<close>

definition block_obj :: "Block \<Rightarrow> addr \<Rightarrow> int \<Rightarrow> bool" where
  "block_obj B a n \<longleftrightarrow> blk B + sizeof_Block \<le> a \<and> a + n \<le> current B"

text \<open>The \<open>n\<close> bytes at \<open>a\<close> lie in what one block has handed out.\<close>

definition obj :: "heap \<Rightarrow> addr \<Rightarrow> int \<Rightarrow> bool" where
  "obj h a n \<longleftrightarrow> list_ex (\<lambda>B. block_obj B a n) (current_block h)"

definition handed :: "heap \<Rightarrow> addr set" where
  "handed h = {x. obj h x 1}"

text \<open>\<open>h'\<close> is a later heap: every object is still there and its bytes are unchanged.\<close>

definition extends :: "heap \<Rightarrow> heap \<Rightarrow> bool" where
  "extends h h' \<longleftrightarrow>
     (\<forall>a n. obj h a n \<longrightarrow> obj h' a n) \<and> (\<forall>x \<in> handed h. mem h' x = mem h x)"

section \<open>Checked accesses\<close>

definition load64 :: "addr \<Rightarrow> heap \<Rightarrow> int option" where
  "load64 a h = (if obj h a 8 then Some (ld64 (mem h) a) else None)"

definition store64 :: "addr \<Rightarrow> int \<Rightarrow> heap \<Rightarrow> heap option" where
  "store64 a v h = (if obj h a 8 then Some (h\<lparr>mem := st64 (mem h) a v\<rparr>) else None)"

definition load_bytes :: "addr \<Rightarrow> int \<Rightarrow> heap \<Rightarrow> byte list option" where
  "load_bytes a n h = (if n = 0 then Some []
     else if 0 < n \<and> obj h a n then Some (rd (mem h) a (nat n)) else None)"

definition store_bytes :: "addr \<Rightarrow> byte list \<Rightarrow> heap \<Rightarrow> heap option" where
  "store_bytes a bs h = (if bs = [] then Some h
     else if obj h a (int (length bs)) then Some (h\<lparr>mem := wr (mem h) a bs\<rparr>) else None)"

section \<open>Invariant and the assumption on malloc\<close>

definition rng :: "Block \<Rightarrow> addr \<times> int" where
  "rng B = (blk B, block_end B - blk B)"

definition apart :: "addr \<times> int \<Rightarrow> addr \<times> int \<Rightarrow> bool" where
  "apart r q \<longleftrightarrow> fst r + snd r \<le> fst q \<or> fst q + snd q \<le> fst r"

definition block_ok :: "Block \<Rightarrow> bool" where
  "block_ok B \<longleftrightarrow> 0 < blk B \<and> 8 dvd blk B \<and> 8 dvd current B \<and>
     blk B + sizeof_Block \<le> current B \<and> current B \<le> block_end B \<and> block_end B \<le> INT64_MAX"

definition arena_inv :: "heap \<Rightarrow> bool" where
  "arena_inv h \<longleftrightarrow>
     (\<forall>B \<in> set (current_block h). block_ok B \<and> rng B \<in> set (live h)) \<and>
     sorted_wrt apart (map rng (current_block h)) \<and>
     (\<forall>r \<in> set (live h). 0 < snd r) \<and> sorted_wrt apart (live h)"

text \<open>
  \<open>malloc\<close> returns NULL or a suitably aligned address of so many bytes, inside the address
  space and apart from every block that is still live.
\<close>

definition malloc_ok :: "malloc_fn \<Rightarrow> bool" where
  "malloc_ok M \<longleftrightarrow> (\<forall>h n. 0 < n \<longrightarrow> M h n \<noteq> 0 \<longrightarrow>
     0 < M h n \<and> 16 dvd M h n \<and> M h n + n \<le> INT64_MAX \<and>
     (\<forall>r \<in> set (live h). apart (M h n, n) r))"

section \<open>Rounding\<close>

lemma and_not_7: "(x::int) AND NOT 7 = 8 * (x div 8)"
proof -
  have e: "(7::int) = mask 3" by (simp add: mask_eq_exp_minus_1)
  have "x AND NOT (mask 3) = push_bit 3 (drop_bit 3 x)"
    by (simp add: bit_eq_iff bit_simps) auto
  also have "\<dots> = 8 * (x div 8)"
    by (simp add: push_bit_eq_mult drop_bit_eq_div)
  finally show ?thesis by (simp only: e)
qed

lemma round8_eq: "round8 n = 8 * ((n + 7) div 8)"
  by (simp only: round8_def and_not_7)

lemma round8_bounds: "n \<le> round8 n" "round8 n \<le> n + 7"
  by (simp_all add: round8_eq)

lemma round8_dvd: "8 dvd round8 n"
  by (simp add: round8_eq)

lemma round8_nonneg: "0 \<le> n \<Longrightarrow> 0 \<le> round8 n"
  using round8_bounds(1) [of n] by simp

section \<open>Objects and later heaps\<close>

lemma obj_iff: "obj h a n \<longleftrightarrow> (\<exists>B \<in> set (current_block h). block_obj B a n)"
  by (simp add: obj_def list_ex_iff)

lemma obj_sub: "obj h a n \<Longrightarrow> a \<le> b \<Longrightarrow> b + k \<le> a + n \<Longrightarrow> obj h b k"
  by (force simp: obj_iff block_obj_def)

lemma obj_handed: "obj h a n \<Longrightarrow> a \<le> x \<Longrightarrow> x < a + n \<Longrightarrow> x \<in> handed h"
  unfolding handed_def by (auto elim: obj_sub)

lemma extends_refl [simp]: "extends h h"
  by (simp add: extends_def)

lemma extends_trans [trans]: "extends h h' \<Longrightarrow> extends h' h'' \<Longrightarrow> extends h h''"
  unfolding extends_def handed_def by simp

lemma extends_obj: "extends h h' \<Longrightarrow> obj h a n \<Longrightarrow> obj h' a n"
  by (simp add: extends_def)

lemma extends_mem: "extends h h' \<Longrightarrow> obj h a n \<Longrightarrow> a \<le> x \<Longrightarrow> x < a + n \<Longrightarrow> mem h' x = mem h x"
  using obj_handed by (auto simp: extends_def)

lemma extends_rd: "extends h h' \<Longrightarrow> obj h a (int n) \<Longrightarrow> rd (mem h') a n = rd (mem h) a n"
  by (rule rd_cong) (rule extends_mem)

lemma extends_ld64: "extends h h' \<Longrightarrow> obj h a 8 \<Longrightarrow> ld64 (mem h') a = ld64 (mem h) a"
  by (rule ld64_cong) (rule extends_mem)

lemma obj_mem_update [simp]: "obj (h\<lparr>mem := m\<rparr>) a n = obj h a n"
  by (simp add: obj_def)

lemma handed_mem_update [simp]: "handed (h\<lparr>mem := m\<rparr>) = handed h"
  by (simp add: handed_def)

lemma arena_inv_mem_update [simp]: "arena_inv (h\<lparr>mem := m\<rparr>) = arena_inv h"
  by (simp add: arena_inv_def)

text \<open>A write that stays off the objects of an earlier heap keeps it an earlier heap.\<close>

lemma extends_mem_update:
  "extends h h' \<Longrightarrow> (\<And>x. x \<in> handed h \<Longrightarrow> m x = mem h' x) \<Longrightarrow> extends h (h'\<lparr>mem := m\<rparr>)"
  by (simp add: extends_def)

text \<open>
  A step that changes old bytes inside \<open>F\<close> only: the frame of an operation that updates an
  object in place.
\<close>

definition changes_only :: "addr set \<Rightarrow> heap \<Rightarrow> heap \<Rightarrow> bool" where
  "changes_only F h h' \<longleftrightarrow>
     (\<forall>a n. obj h a n \<longrightarrow> obj h' a n) \<and> (\<forall>x \<in> handed h - F. mem h' x = mem h x)"

lemma changes_only_extends: "changes_only {} h h' = extends h h'"
  by (simp add: changes_only_def extends_def)

lemma changes_only_mono: "changes_only F h h' \<Longrightarrow> F \<subseteq> G \<Longrightarrow> changes_only G h h'"
  by (auto simp: changes_only_def)

lemma extends_changes: "extends h h' \<Longrightarrow> changes_only F h h'"
  by (simp add: extends_def changes_only_def)

lemma changes_only_trans:
  assumes "changes_only F h h1" and "changes_only G h1 h2" and "G \<inter> handed h \<subseteq> F"
  shows "changes_only F h h2"
  unfolding changes_only_def
proof (intro conjI allI impI ballI)
  show "obj h2 a n" if "obj h a n" for a n
    using that assms(1,2) by (simp add: changes_only_def)
  fix x assume x: "x \<in> handed h - F"
  then have "x \<in> handed h1" "x \<notin> G"
    using assms by (auto simp: changes_only_def handed_def)
  then show "mem h2 x = mem h x" using x assms(1,2) by (simp add: changes_only_def)
qed

lemma changes_only_update:
  "(\<And>x. x \<notin> F \<Longrightarrow> m x = mem h x) \<Longrightarrow> changes_only F h (h\<lparr>mem := m\<rparr>)"
  by (simp add: changes_only_def)

lemma changes_only_mem:
  "changes_only F h h' \<Longrightarrow> obj h a n \<Longrightarrow> {a..<a + n} \<inter> F = {} \<Longrightarrow> a \<le> x \<Longrightarrow> x < a + n \<Longrightarrow>
    mem h' x = mem h x"
  using obj_handed [of h a n x] by (auto simp: changes_only_def)

lemma changes_only_rd:
  "changes_only F h h' \<Longrightarrow> obj h a (int n) \<Longrightarrow> {a..<a + int n} \<inter> F = {} \<Longrightarrow>
    rd (mem h') a n = rd (mem h) a n"
  by (rule rd_cong) (rule changes_only_mem)

lemma changes_only_ld64:
  "changes_only F h h' \<Longrightarrow> obj h a 8 \<Longrightarrow> {a..<a + 8} \<inter> F = {} \<Longrightarrow> ld64 (mem h') a = ld64 (mem h) a"
  by (rule ld64_cong) (rule changes_only_mem)

lemma changes_only_obj: "changes_only F h h' \<Longrightarrow> obj h a n \<Longrightarrow> obj h' a n"
  by (simp add: changes_only_def)

lemma obj_bounds:
  assumes "arena_inv h" and "obj h a n"
  shows "24 < a" and "a + n \<le> INT64_MAX"
proof -
  from assms(2) obtain B where "B \<in> set (current_block h)" "block_obj B a n"
    by (auto simp: obj_iff)
  with assms(1) show "24 < a" "a + n \<le> INT64_MAX"
    by (auto simp: arena_inv_def block_ok_def block_obj_def sizeof_Block_def)
qed

lemma load64_Some [simp]: "obj h a 8 \<Longrightarrow> load64 a h = Some (ld64 (mem h) a)"
  by (simp add: load64_def)

lemma store64_Some [simp]: "obj h a 8 \<Longrightarrow> store64 a v h = Some (h\<lparr>mem := st64 (mem h) a v\<rparr>)"
  by (simp add: store64_def)

lemma load_bytes_Some [simp]:
  "0 \<le> n \<Longrightarrow> obj h a n \<Longrightarrow> load_bytes a n h = Some (rd (mem h) a (nat n))"
  by (auto simp: load_bytes_def)

lemma load_bytes_0 [simp]: "load_bytes a 0 h = Some []"
  by (simp add: load_bytes_def)

lemma store_bytes_Some [simp]:
  "obj h a (int (length bs)) \<Longrightarrow> store_bytes a bs h = Some (h\<lparr>mem := wr (mem h) a bs\<rparr>)"
  by (simp add: store_bytes_def)

lemma store_bytes_Nil [simp]: "store_bytes a [] h = Some h"
  by (simp add: store_bytes_def)

text \<open>Two ranges of bytes, perhaps empty, with no byte in common.\<close>

definition no_overlap :: "addr \<times> int \<Rightarrow> addr \<times> int \<Rightarrow> bool" where
  "no_overlap r q \<longleftrightarrow> snd r \<le> 0 \<or> snd q \<le> 0 \<or> apart r q"

lemma no_overlap_iff:
  "no_overlap r q \<longleftrightarrow> {fst r..<fst r + snd r} \<inter> {fst q..<fst q + snd q} = {}"
proof
  assume d: "{fst r..<fst r + snd r} \<inter> {fst q..<fst q + snd q} = {}"
  then have "fst r \<notin> {fst q..<fst q + snd q} \<or> fst r \<notin> {fst r..<fst r + snd r}"
    and "fst q \<notin> {fst r..<fst r + snd r} \<or> fst q \<notin> {fst q..<fst q + snd q}"
    by blast+
  then show "no_overlap r q" by (auto simp: no_overlap_def apart_def)
qed (auto simp: no_overlap_def apart_def)

section \<open>What an allocation gives\<close>

text \<open>
  The contract every client of the arena relies on: an allocation keeps the invariant, the
  memory and every object, and returns an aligned object off all the objects handed out
  before.
\<close>

definition fresh_obj :: "heap \<Rightarrow> heap \<Rightarrow> addr \<Rightarrow> int \<Rightarrow> bool" where
  "fresh_obj h h' p n \<longleftrightarrow> obj h' p n \<and> {p..<p + n} \<inter> handed h = {}"

text \<open>A sequence of allocations: the addresses, in order, and the last heap.\<close>

fun alloc_all :: "(int \<Rightarrow> heap \<Rightarrow> (addr \<times> heap) option) \<Rightarrow> int list \<Rightarrow> heap \<Rightarrow> (addr list \<times> heap) option"
where
  "alloc_all alloc [] h = Some ([], h)"
| "alloc_all alloc (n # ns) h = do {
     (p, h) \<leftarrow> alloc n h;
     (ps, h) \<leftarrow> alloc_all alloc ns h;
     Some (p # ps, h)
   }"

locale allocator =
  fixes alloc :: "int \<Rightarrow> heap \<Rightarrow> (addr \<times> heap) option"
    and inv :: "heap \<Rightarrow> bool"
  assumes alloc_inv: "inv h \<Longrightarrow> 0 \<le> n \<Longrightarrow> alloc n h = Some (p, h') \<Longrightarrow> inv h'"
    and alloc_extends: "inv h \<Longrightarrow> 0 \<le> n \<Longrightarrow> alloc n h = Some (p, h') \<Longrightarrow> extends h h'"
    and alloc_fresh: "inv h \<Longrightarrow> 0 \<le> n \<Longrightarrow> alloc n h = Some (p, h') \<Longrightarrow> fresh_obj h h' p n"
    and alloc_mem: "inv h \<Longrightarrow> 0 \<le> n \<Longrightarrow> alloc n h = Some (p, h') \<Longrightarrow> mem h' = mem h"
    and alloc_aligned: "inv h \<Longrightarrow> 0 \<le> n \<Longrightarrow> alloc n h = Some (p, h') \<Longrightarrow> 8 dvd p"
begin

lemmas alloc_laws = alloc_inv alloc_extends alloc_fresh alloc_mem alloc_aligned

text \<open>A second allocation is off the first one.\<close>

lemma alloc_alloc_apart:
  assumes inv: "inv h" and n: "0 \<le> n" and k: "0 \<le> k"
    and a1: "alloc n h = Some (p, h1)" and a2: "alloc k h1 = Some (q, h2)"
  shows "{p..<p + n} \<inter> {q..<q + k} = {}"
proof -
  have "obj h1 p n" using alloc_fresh [OF inv n a1] by (simp add: fresh_obj_def)
  then have "{p..<p + n} \<subseteq> handed h1" by (auto intro: obj_handed)
  moreover have "{q..<q + k} \<inter> handed h1 = {}"
    using alloc_fresh [OF alloc_inv [OF inv n a1] k a2] by (simp add: fresh_obj_def)
  ultimately show ?thesis by blast
qed

text \<open>
  Any number of allocations: the last heap is later than the first, all objects are off the
  old ones and off each other.
\<close>

lemma alloc_all_spec:
  assumes "inv h" and "\<forall>n \<in> set ns. 0 \<le> n" and "alloc_all alloc ns h = Some (ps, h')"
  shows "inv h' \<and> extends h h' \<and> length ps = length ns \<and>
    (\<forall>r \<in> set (zip ps ns). fresh_obj h h' (fst r) (snd r)) \<and> sorted_wrt no_overlap (zip ps ns)"
  using assms
proof (induction ns arbitrary: h ps)
  case Nil
  then show ?case by simp
next
  case (Cons n ns)
  from Cons.prems(3) obtain p h1 qs where a: "alloc n h = Some (p, h1)"
    and r: "alloc_all alloc ns h1 = Some (qs, h')" and ps: "ps = p # qs"
    by (auto split: Option.bind_splits)
  have n: "0 \<le> n" using Cons.prems(2) by simp
  note l = alloc_laws [OF Cons.prems(1) n a]
  from Cons.IH [OF l(1) _ r] Cons.prems(2)
  have ih: "inv h'" "extends h1 h'" "length qs = length ns"
    "\<forall>r \<in> set (zip qs ns). fresh_obj h1 h' (fst r) (snd r)" "sorted_wrt no_overlap (zip qs ns)"
    by auto
  have old: "handed h \<subseteq> handed h1" using l(2) by (auto simp: extends_def handed_def)
  have head: "fresh_obj h h' p n"
    using l(3) ih(2) by (auto simp: fresh_obj_def extends_def)
  have tail: "\<forall>r \<in> set (zip qs ns). fresh_obj h h' (fst r) (snd r)"
    using ih(4) old by (fastforce simp: fresh_obj_def)
  have "{p..<p + n} \<subseteq> handed h1" using l(3) by (auto simp: fresh_obj_def intro: obj_handed)
  then have off: "\<forall>r \<in> set (zip qs ns). {p..<p + n} \<inter> {fst r..<fst r + snd r} = {}"
    using ih(4) by (fastforce simp: fresh_obj_def)
  then have "\<forall>r \<in> set (zip qs ns). no_overlap (p, n) r" by (simp add: no_overlap_iff)
  then show ?case using ih head tail extends_trans [OF l(2) ih(2)] by (simp add: ps)
qed

end

section \<open>The arena is such an allocator\<close>

text \<open>A new block enters the chain with nothing handed out of it.\<close>

lemma new_block_chain:
  assumes inv: "arena_inv h" and ok: "malloc_ok M" and k: "0 \<le> k" "8 dvd k"
    and nb: "new_block M k h = Some (b, h1)"
    and g: "g = h1\<lparr>current_block := b # current_block h1\<rparr>"
  shows "arena_inv g" and "handed g = handed h" and "extends h g" and "mem g = mem h"
    and "current b + k \<le> block_end b"
proof -
  define sz where "sz = (if BLOCK_SIZE > k then BLOCK_SIZE else k)"
  define a where "a = M h (sizeof_Block + sz)"
  have sz: "0 < sizeof_Block + sz" "k \<le> sz" "0 < sz" "8 dvd sz"
    using k by (auto simp: sz_def BLOCK_SIZE_def sizeof_Block_def)
  from nb have b: "b = \<lparr>blk = a, current = a + sizeof_Block, block_end = a + sizeof_Block + sz\<rparr>"
    and h1: "h1 = h\<lparr>live := (a, sizeof_Block + sz) # live h\<rparr>" and a0: "a \<noteq> 0"
    by (auto simp: new_block_def Let_def a_def sz_def split: if_splits)
  from ok sz a0 have a: "0 < a" "16 dvd a" "a + (sizeof_Block + sz) \<le> INT64_MAX"
    "\<forall>r \<in> set (live h). apart (a, sizeof_Block + sz) r"
    by (auto simp: malloc_ok_def a_def)
  have "8 dvd a" using a(2) by (rule dvd_trans [rotated]) simp
  then have bok: "block_ok b"
    using a sz by (auto simp: block_ok_def b sizeof_Block_def)
  have rb: "rng b = (a, sizeof_Block + sz)" by (simp add: rng_def b)
  show "arena_inv g"
    using inv bok a sz rb by (auto simp: arena_inv_def g h1)
  show "handed g = handed h"
    by (auto simp: handed_def obj_iff g h1 b block_obj_def)
  then show "extends h g"
    by (auto simp: extends_def g h1 obj_iff)
  show "mem g = mem h" by (simp add: g h1)
  show "current b + k \<le> block_end b" using sz by (simp add: b)
qed

text \<open>Moving \<open>current\<close> of the first block hands out what lay between.\<close>

lemma bump_chain:
  assumes inv: "arena_inv h" and k: "0 \<le> k" "8 dvd k"
    and bs: "current_block h = B # Bs" and fits: "current B + k \<le> block_end B"
    and g: "g = h\<lparr>current_block := B\<lparr>current := current B + k\<rparr> # Bs\<rparr>"
  shows "arena_inv g" and "extends h g" and "fresh_obj h g (current B) k" and "8 dvd current B"
proof -
  have B: "block_ok B" using inv bs by (simp add: arena_inv_def)
  have "block_ok (B\<lparr>current := current B + k\<rparr>)"
    using B k fits by (auto simp: block_ok_def)
  then show "arena_inv g"
    using inv bs by (auto simp: arena_inv_def g rng_def)
  show "extends h g"
    using k by (force simp: extends_def g obj_iff bs block_obj_def)
  show "8 dvd current B" using B by (simp add: block_ok_def)
  have "x \<notin> handed h" if x: "current B \<le> x" "x < current B + k" for x
  proof
    assume "x \<in> handed h"
    then obtain C where C: "C \<in> set (B # Bs)" "block_obj C x 1"
      by (auto simp: handed_def obj_iff bs)
    with x have "C \<in> set Bs" by (auto simp: block_obj_def)
    then have "apart (rng B) (rng C)" "block_ok C"
      using inv bs by (auto simp: arena_inv_def)
    then show False
      using x C(2) B fits by (auto simp: apart_def rng_def block_obj_def block_ok_def sizeof_Block_def)
  qed
  moreover have "obj g (current B) k"
    using B by (auto simp: g obj_iff block_obj_def block_ok_def)
  ultimately show "fresh_obj h g (current B) k" by (auto simp: fresh_obj_def)
qed

lemma fresh_obj_shrink: "fresh_obj h g p k \<Longrightarrow> n \<le> k \<Longrightarrow> fresh_obj h g p n"
  unfolding fresh_obj_def using obj_sub [of g p k p n] by fastforce

lemma arena_alloc_spec:
  assumes inv: "arena_inv h" and ok: "malloc_ok M" and n: "0 \<le> n"
    and al: "arena_alloc M n h = Some (p, h')"
  shows "arena_inv h'" and "extends h h'" and "fresh_obj h h' p (round8 n)" and "mem h' = mem h"
    and "8 dvd p"
proof -
  let ?k = "round8 n"
  have k: "0 \<le> ?k" "8 dvd ?k" using n by (simp_all add: round8_nonneg round8_dvd)
  have "\<exists>g B Bs. arena_inv g \<and> handed g = handed h \<and> extends h g \<and> mem g = mem h \<and>
      current_block g = B # Bs \<and> current B + ?k \<le> block_end B \<and> p = current B \<and>
      h' = g\<lparr>current_block := B\<lparr>current := current B + ?k\<rparr> # Bs\<rparr>"
  proof (cases "current_block h = [] \<or>
      current (hd (current_block h)) + ?k > block_end (hd (current_block h))")
    case True
    with al obtain b h1 where nb: "new_block M ?k h = Some (b, h1)"
      and r: "p = current b" "h' = h1\<lparr>current_block := b\<lparr>current := current b + ?k\<rparr> # current_block h1\<rparr>"
      by (auto simp: arena_alloc_def Let_def simp flip: not_le split: Option.bind_splits if_splits)
    define g where "g = h1\<lparr>current_block := b # current_block h1\<rparr>"
    note c = new_block_chain [OF inv ok k nb g_def]
    have "current_block g = b # current_block h1" by (simp add: g_def)
    moreover have "h' = g\<lparr>current_block := b\<lparr>current := current b + ?k\<rparr> # current_block h1\<rparr>"
      by (simp add: g_def r)
    ultimately show ?thesis using c r(1) by blast
  next
    case False
    then obtain B Bs where bs: "current_block h = B # Bs" by (cases "current_block h") auto
    with False al inv show ?thesis
      by (auto simp: arena_alloc_def Let_def split: Option.bind_splits if_splits intro!: exI [of _ h])
  qed
  then obtain g B Bs where g: "arena_inv g" "handed g = handed h" "extends h g" "mem g = mem h"
    "current_block g = B # Bs" "current B + ?k \<le> block_end B" and p: "p = current B"
    and h': "h' = g\<lparr>current_block := B\<lparr>current := current B + ?k\<rparr> # Bs\<rparr>"
    by blast
  note b = bump_chain [OF g(1) k g(5,6) h']
  show "arena_inv h'" "8 dvd p" using b p by simp_all
  show "extends h h'" using g(3) b(2) by (rule extends_trans)
  show "mem h' = mem h" by (simp add: h' g(4))
  show "fresh_obj h h' p ?k" using b(3) g(2) by (simp add: fresh_obj_def p)
qed

interpretation arena: allocator "arena_alloc M" "\<lambda>h. arena_inv h \<and> malloc_ok M" for M
proof unfold_locales
  fix n :: int and h p h'
  assume a: "arena_inv h \<and> malloc_ok M" "0 \<le> n" "arena_alloc M n h = Some (p, h')"
  note s = arena_alloc_spec [OF a(1) [THEN conjunct1] a(1) [THEN conjunct2] a(2,3)]
  show "arena_inv h' \<and> malloc_ok M" "extends h h'" "mem h' = mem h" "8 dvd p"
    using s a by simp_all
  show "fresh_obj h h' p n" using s(3) round8_bounds(1) by (rule fresh_obj_shrink)
qed

section \<open>Success and reset\<close>

definition fits :: "int \<Rightarrow> heap \<Rightarrow> bool" where
  "fits n h \<longleftrightarrow> current_block h \<noteq> [] \<and>
     current (hd (current_block h)) + n \<le> block_end (hd (current_block h))"

text \<open>\<open>malloc\<close> returns NULL for the new block that an allocation of \<open>n\<close> bytes needs.\<close>

definition malloc_refuses :: "malloc_fn \<Rightarrow> int \<Rightarrow> heap \<Rightarrow> bool" where
  "malloc_refuses M n h \<longleftrightarrow> \<not> fits (round8 n) h \<and> M h (sizeof_Block + max BLOCK_SIZE (round8 n)) = 0"

lemma arena_alloc_eq_None:
  assumes "arena_inv h" and "0 \<le> n"
  shows "arena_alloc M n h = None \<longleftrightarrow> \<not> in64 (n + 7) \<or> malloc_refuses M n h"
proof -
  have "\<not> (\<exists>B. current_block h = B # tl (current_block h) \<and> current B + round8 n < blk B)"
    using assms round8_nonneg [of n] by (cases "current_block h") (auto simp: arena_inv_def block_ok_def sizeof_Block_def)
  then show ?thesis
    using assms(2) round8_nonneg [of n]
    by (cases "current_block h")
      (auto simp: arena_alloc_def new_block_def malloc_refuses_def fits_def Let_def max_def not_less sizeof_Block_def
        split: Option.bind_splits if_splits)
qed

lemma distinct_map_iff_sorted_neq: "distinct (map f xs) \<longleftrightarrow> sorted_wrt (\<lambda>x y. f x \<noteq> f y) xs"
  by (induction xs) auto

lemma apart_pos_neq: "apart r q \<Longrightarrow> 0 < snd r \<Longrightarrow> 0 < snd q \<Longrightarrow> fst r \<noteq> fst q"
  by (auto simp: apart_def)

lemma arena_inv_distinct:
  assumes "arena_inv h"
  shows "distinct (map blk (current_block h))"
proof -
  have "sorted_wrt (\<lambda>B C. blk B \<noteq> blk C) (current_block h)"
  proof (rule sorted_wrt_mono_rel [of _ "\<lambda>B C. apart (rng B) (rng C)"])
    show "sorted_wrt (\<lambda>B C. apart (rng B) (rng C)) (current_block h)"
      using assms by (simp add: arena_inv_def sorted_wrt_map)
    fix B C assume bc: "B \<in> set (current_block h)" "C \<in> set (current_block h)"
      and ap: "apart (rng B) (rng C)"
    from bc assms have "rng B \<in> set (live h)" "rng C \<in> set (live h)" by (simp_all add: arena_inv_def)
    then have "0 < snd (rng B)" "0 < snd (rng C)" using assms unfolding arena_inv_def by blast+
    then show "blk B \<noteq> blk C" using apart_pos_neq [OF ap] by (simp add: rng_def)
  qed
  then show ?thesis by (simp add: distinct_map_iff_sorted_neq)
qed

lemma free_chain_live:
  assumes "distinct (map blk bs)" and "blk ` set bs \<subseteq> fst ` set (live h)"
  shows "free_chain bs h = Some (h\<lparr>live := filter (\<lambda>r. fst r \<notin> blk ` set bs) (live h)\<rparr>)"
  using assms
proof (induction bs arbitrary: h)
  case Nil
  then show ?case by simp
next
  case (Cons b bs)
  let ?h = "h\<lparr>live := filter (\<lambda>r. fst r \<noteq> blk b) (live h)\<rparr>"
  have f: "free_block (blk b) h = Some ?h" using Cons.prems by (simp add: free_block_def)
  have "fst ` set (live ?h) = fst ` set (live h) - {blk b}" by auto
  then have "blk ` set bs \<subseteq> fst ` set (live ?h)"
    using Cons.prems by (simp add: subset_Diff_insert)
  with Cons.IH [of ?h] Cons.prems(1) have "free_chain bs ?h =
      Some (?h\<lparr>live := filter (\<lambda>r. fst r \<notin> blk ` set bs) (live ?h)\<rparr>)" by simp
  then show ?case using f by (simp add: conj_commute)
qed

lemma arena_reset_eq:
  assumes "arena_inv h"
  shows "arena_reset h = Some (h\<lparr>live := filter (\<lambda>r. fst r \<notin> blk ` set (current_block h)) (live h),
     current_block := []\<rparr>)"
proof -
  have "blk ` set (current_block h) \<subseteq> fst ` set (live h)"
    using assms by (force simp: arena_inv_def rng_def image_iff)
  then show ?thesis
    using free_chain_live [OF arena_inv_distinct [OF assms]] by (simp add: arena_reset_def)
qed

lemma arena_reset_inv: "arena_inv h \<Longrightarrow> arena_reset h = Some h' \<Longrightarrow> arena_inv h'"
  by (auto simp: arena_reset_eq arena_inv_def sorted_wrt_filter)

section \<open>A malloc, for the witnesses\<close>

text \<open>An allocator that puts a block above every live one, NULL when the address space ends.\<close>

definition bump_malloc :: malloc_fn where
  "bump_malloc h n =
     (let a = 16 * (fold max (map (\<lambda>r. fst r + snd r) (live h)) 0 div 16 + 1)
      in if a + n \<le> INT64_MAX then a else 0)"

definition empty_heap :: heap where
  "empty_heap = \<lparr>mem = (\<lambda>_. 0), live = [], current_block = []\<rparr>"

lemma fold_max_upper: "x \<in> set (y # xs) \<Longrightarrow> x \<le> fold max xs (y :: int)"
  by (metis List.finite_set Max.set_eq_fold Max_ge)

lemma bump_malloc_ok: "malloc_ok bump_malloc"
proof -
  have "0 < 16 * (fold max (map (\<lambda>r. fst r + snd r) (live h)) 0 div 16 + 1)" for h :: heap
    using fold_max_upper [of 0 0 "map (\<lambda>r. fst r + snd r) (live h)"] by (simp add: pos_imp_zdiv_nonneg_iff)
  moreover have "fst r + snd r \<le> 16 * (fold max (map (\<lambda>r. fst r + snd r) (live h)) 0 div 16 + 1)"
    if "r \<in> set (live h)" for r and h :: heap
    using that fold_max_upper [of "fst r + snd r" 0 "map (\<lambda>r. fst r + snd r) (live h)"] by fastforce
  ultimately show ?thesis
    unfolding malloc_ok_def bump_malloc_def Let_def by (auto simp: apart_def)
qed

lemma empty_heap_inv: "arena_inv empty_heap"
  by (simp add: empty_heap_def arena_inv_def)

lemmas arena_eval = arena_alloc_def new_block_def round8_def bump_malloc_def empty_heap_def
  BLOCK_SIZE_def sizeof_Block_def Let_def range_simps

section \<open>The life of an arena\<close>

text \<open>
  What can happen to the heap of a running program: an allocation, a store into an object, a
  reset, and \<open>malloc\<close> and \<open>free\<close> calls of other code, which frees only what is not a block of
  the arena.
\<close>

inductive arena_step :: "malloc_fn \<Rightarrow> heap \<Rightarrow> heap \<Rightarrow> bool" for M where
  alloc: "0 \<le> n \<Longrightarrow> arena_alloc M n h = Some (p, h') \<Longrightarrow> arena_step M h h'"
| store: "store_bytes a bs h = Some h' \<Longrightarrow> arena_step M h h'"
| reset: "arena_reset h = Some h' \<Longrightarrow> arena_step M h h'"
| other_malloc: "0 < n \<Longrightarrow> M h n \<noteq> 0 \<Longrightarrow> arena_step M h (h\<lparr>live := (M h n, n) # live h\<rparr>)"
| other_free: "b \<notin> blk ` set (current_block h) \<Longrightarrow> free_block b h = Some h' \<Longrightarrow> arena_step M h h'"

inductive arena_reachable :: "malloc_fn \<Rightarrow> heap \<Rightarrow> bool" for M where
  start: "arena_reachable M empty_heap"
| step: "arena_reachable M h \<Longrightarrow> arena_step M h h' \<Longrightarrow> arena_reachable M h'"

lemma store_bytes_inv: "store_bytes a bs h = Some h' \<Longrightarrow> arena_inv h' = arena_inv h"
  by (auto simp: store_bytes_def split: if_splits)

lemma other_free_inv:
  assumes "arena_inv h" and "b \<notin> blk ` set (current_block h)" and "free_block b h = Some h'"
  shows "arena_inv h'"
proof -
  have "h' = h\<lparr>live := filter (\<lambda>r. fst r \<noteq> b) (live h)\<rparr>"
    using assms(3) by (simp add: free_block_def split: if_splits)
  then show ?thesis
    using assms(1,2) by (auto simp: arena_inv_def sorted_wrt_filter rng_def)
qed

lemma arena_step_inv:
  assumes "arena_step M h h'" and "arena_inv h" and "malloc_ok M"
  shows "arena_inv h'"
  using assms
proof (cases rule: arena_step.cases)
  case (alloc n p)
  then show ?thesis using arena_alloc_spec(1) [OF assms(2,3)] by blast
next
  case (store a bs)
  then show ?thesis using store_bytes_inv assms(2) by blast
next
  case reset
  then show ?thesis using arena_reset_inv assms(2) by blast
next
  case (other_malloc n)
  then show ?thesis using assms(2,3) by (simp add: arena_inv_def malloc_ok_def)
next
  case (other_free b)
  then show ?thesis using other_free_inv assms(2) by blast
qed

section \<open>Properties of the arena\<close>

text \<open>
  C1. An allocation returns an 8-aligned object of the requested size that shares no byte with
  any object handed out before; the invariant of the block chain, the memory and every earlier
  object survive it.
\<close>

theorem arena_alloc_fresh:
  assumes "arena_inv h" and "malloc_ok M" and "0 \<le> n" and "arena_alloc M n h = Some (p, h')"
  shows "arena_inv h' \<and> 8 dvd p \<and> obj h' p n \<and> {p..<p + n} \<inter> handed h = {} \<and>
    extends h h' \<and> mem h' = mem h"
  using arena.alloc_laws [of h M n p h'] assms by (auto simp: fresh_obj_def)

theorem arena_alloc_fresh_witness:
  "\<exists>h'. arena_alloc bump_malloc 10 empty_heap = Some (40, h') \<and> 8 dvd (40 :: int) \<and> obj h' 40 10"
proof -
  obtain h' where a: "arena_alloc bump_malloc 10 empty_heap = Some (40, h')"
    by (simp add: arena_eval)
  show ?thesis
    using arena_alloc_fresh [OF empty_heap_inv bump_malloc_ok _ a] a by auto
qed

text \<open>
  C2. However many objects are allocated in a row, no two of them share a byte, none shares one
  with what was there before, and all the old objects keep their bytes.
\<close>

theorem arena_allocs_apart:
  assumes "arena_inv h" and "malloc_ok M" and "\<forall>n \<in> set ns. 0 \<le> n"
    and "alloc_all (arena_alloc M) ns h = Some (ps, h')"
  shows "sorted_wrt no_overlap (zip ps ns) \<and> extends h h' \<and>
    (\<forall>r \<in> set (zip ps ns). obj h' (fst r) (snd r) \<and> {fst r..<fst r + snd r} \<inter> handed h = {})"
  using arena.alloc_all_spec [of h M ns ps h'] assms by (auto simp: fresh_obj_def)

theorem arena_allocs_apart_witness:
  "\<exists>h'. alloc_all (arena_alloc bump_malloc) [3, 24, 5000000] empty_heap = Some ([40, 48, 4194376], h') \<and>
    sorted_wrt no_overlap (zip [40, 48, 4194376] [3, 24, 5000000])"
proof -
  obtain h' where a: "alloc_all (arena_alloc bump_malloc) [3, 24, 5000000] empty_heap =
      Some ([40, 48, 4194376], h')"
    by (simp add: arena_eval)
  show ?thesis
    using arena_allocs_apart [OF empty_heap_inv bump_malloc_ok _ a] a by auto
qed

text \<open>
  C4. A reset frees every block of the arena exactly once, frees nothing else, and leaves no
  object behind.
\<close>

theorem arena_reset_frees_all:
  assumes "arena_inv h"
  shows "\<exists>h'. arena_reset h = Some h' \<and> arena_inv h' \<and> handed h' = {} \<and>
    set (live h') = {r \<in> set (live h). fst r \<notin> blk ` set (current_block h)}"
  using arena_reset_eq [OF assms] arena_reset_inv [OF assms]
  by (auto simp: handed_def obj_iff)

theorem arena_reset_frees_all_witness:
  "\<exists>h h'. arena_alloc bump_malloc 10 empty_heap = Some (40, h) \<and> arena_reset h = Some h' \<and>
    handed h' = {}"
proof -
  obtain h where a: "arena_alloc bump_malloc 10 empty_heap = Some (40, h)"
    by (simp add: arena_eval)
  have "arena_inv h" by (rule arena_alloc_spec(1) [OF empty_heap_inv bump_malloc_ok _ a]) simp
  from arena_reset_frees_all [OF this] a show ?thesis by blast
qed

text \<open>
  C5. Whatever a program does with the arena (allocate, store into its objects, reset) and with
  \<open>malloc\<close> beside it, the block chain stays well formed.
\<close>

theorem arena_reachable_inv:
  assumes "arena_reachable M h" and "malloc_ok M"
  shows "arena_inv h"
  using assms(1)
proof (induction rule: arena_reachable.induct)
  case start
  show ?case by (rule empty_heap_inv)
next
  case (step h h')
  then show ?case using arena_step_inv assms(2) by blast
qed

theorem arena_reachable_inv_witness:
  "\<exists>h. arena_reachable bump_malloc h \<and> length (current_block h) = 1 \<and> arena_inv h"
proof -
  obtain h where a: "arena_alloc bump_malloc 10 empty_heap = Some (40, h)"
    by (simp add: arena_eval)
  then have l: "length (current_block h) = 1" by (auto simp: arena_eval)
  have r: "arena_reachable bump_malloc h"
    by (rule arena_reachable.step [OF arena_reachable.start arena_step.alloc [OF _ a]]) simp
  show ?thesis using arena_reachable_inv [OF r bump_malloc_ok] r l by blast
qed

end
