(* ===== verification/Kod_Str.thy ===== *)
theory Kod_Str
  imports Kod_Arena
begin

text \<open>
  Kod strings: \<open>KodStr\<close> of stdlib/kod_rt.h and the string functions of stdlib/runtime.c.

  A \<open>KodStr *\<close> is the address of a 16-byte header in the arena, \<open>buf\<close> at offset 0 and \<open>len\<close>
  at offset 8. \<open>str_at h s bs\<close> says that \<open>s\<close> is a well-formed string of the heap \<open>h\<close> holding
  the bytes \<open>bs\<close>, with its NUL terminator. A C pointer to bytes outside the arena (a literal,
  a stack buffer, an argv entry) is the list of the bytes it points at.

  The contract of the string constructors is the locale \<open>str_maker\<close>: the result holds the
  requested bytes, lies in fresh memory, and no older string changes.
\<close>

section \<open>Operations\<close>

definition sizeof_KodStr :: int where
  "sizeof_KodStr = 16"

definition kod_str_new :: "malloc_fn \<Rightarrow> int \<Rightarrow> heap \<Rightarrow> (addr \<times> heap) option" where
  "kod_str_new M len h = do {
     let header = sizeof_KodStr;
     t \<leftarrow> chk64 (header + len);
     total \<leftarrow> chk64 (t + 1);
     (block, h) \<leftarrow> arena_alloc M total h;
     let s = block;
     h \<leftarrow> store64 s (block + header) h;
     h \<leftarrow> store64 (s + 8) len h;
     buf \<leftarrow> load64 s h;
     h \<leftarrow> store_bytes (buf + len) [0] h;
     Some (s, h)
   }"

definition kod_str_from_bytes :: "malloc_fn \<Rightarrow> byte list \<Rightarrow> heap \<Rightarrow> (addr \<times> heap) option" where
  "kod_str_from_bytes M p h = do {
     (s, h) \<leftarrow> kod_str_new M (int (length p)) h;
     buf \<leftarrow> load64 s h;
     h \<leftarrow> store_bytes buf p h;
     Some (s, h)
   }"

definition kod_str_alloc :: "malloc_fn \<Rightarrow> int \<Rightarrow> heap \<Rightarrow> (addr \<times> heap) option" where
  "kod_str_alloc M len h = kod_str_new M len h"

definition kod_str_from_cstr :: "malloc_fn \<Rightarrow> byte list \<Rightarrow> heap \<Rightarrow> (addr \<times> heap) option" where
  "kod_str_from_cstr M cstr h = do {
     let len = length (c_str cstr);
     (s, h) \<leftarrow> kod_str_alloc M (int len) h;
     buf \<leftarrow> load64 s h;
     h \<leftarrow> store_bytes buf (take len cstr) h;
     Some (s, h)
   }"

definition kod_empty_str :: "malloc_fn \<Rightarrow> heap \<Rightarrow> (addr \<times> heap) option" where
  "kod_empty_str M h = kod_str_alloc M 0 h"

text \<open>\<open>clamp_slice\<close> returns the length and updates \<open>*start\<close>; the model returns both.\<close>

definition clamp_slice :: "int \<Rightarrow> int \<Rightarrow> int \<Rightarrow> int \<times> int" where
  "clamp_slice len start stop =
     (let start = (if start < 0 then 0 else start);
          start = (if start > len then len else start);
          stop = (if stop > len then len else stop)
      in (start, if stop > start then stop - start else 0))"

definition kod_str_slice :: "malloc_fn \<Rightarrow> addr \<Rightarrow> int \<Rightarrow> int \<Rightarrow> heap \<Rightarrow> (addr \<times> heap) option" where
  "kod_str_slice M s start stop h = do {
     slen \<leftarrow> load64 (s + 8) h;
     let (start, len) = clamp_slice slen start stop;
     (out, h) \<leftarrow> kod_str_alloc M len h;
     obuf \<leftarrow> load64 out h;
     sbuf \<leftarrow> load64 s h;
     src \<leftarrow> load_bytes (sbuf + start) len h;
     h \<leftarrow> store_bytes obuf src h;
     Some (out, h)
   }"

definition kod_str_concat :: "malloc_fn \<Rightarrow> addr \<Rightarrow> addr \<Rightarrow> heap \<Rightarrow> (addr \<times> heap) option" where
  "kod_str_concat M a b h = do {
     alen \<leftarrow> load64 (a + 8) h;
     blen \<leftarrow> load64 (b + 8) h;
     n \<leftarrow> chk64 (alen + blen);
     (out, h) \<leftarrow> kod_str_alloc M n h;
     obuf \<leftarrow> load64 out h;
     abuf \<leftarrow> load64 a h;
     src \<leftarrow> load_bytes abuf alen h;
     h \<leftarrow> store_bytes obuf src h;
     obuf \<leftarrow> load64 out h;
     bbuf \<leftarrow> load64 b h;
     src \<leftarrow> load_bytes bbuf blen h;
     h \<leftarrow> store_bytes (obuf + alen) src h;
     Some (out, h)
   }"

text \<open>
  \<open>memcmp\<close> is a parameter: C promises the sign of its answer only (\<open>memcmp_ok\<close>).
\<close>

definition kod_str_cmp :: "(byte list \<Rightarrow> byte list \<Rightarrow> int) \<Rightarrow> addr \<Rightarrow> addr \<Rightarrow> heap \<Rightarrow> int option" where
  "kod_str_cmp memcmp a b h = do {
     alen \<leftarrow> load64 (a + 8) h;
     blen \<leftarrow> load64 (b + 8) h;
     let min_len = (if alen < blen then alen else blen);
     abuf \<leftarrow> load64 a h;
     bbuf \<leftarrow> load64 b h;
     x \<leftarrow> load_bytes abuf min_len h;
     y \<leftarrow> load_bytes bbuf min_len h;
     let rc = memcmp x y;
     if rc \<noteq> 0 then Some rc else chk64 (alen - blen)
   }"

definition kod_str_to_bytes :: "addr \<Rightarrow> addr" where
  "kod_str_to_bytes s = s"

definition kod_bytes_to_str :: "addr \<Rightarrow> addr" where
  "kod_bytes_to_str b = b"

text \<open>\<open>(char)(b & 0xff)\<close>.\<close>

definition low_byte :: "int \<Rightarrow> byte" where
  "low_byte b = word_of_int (b AND 255)"

section \<open>Well-formed strings\<close>

definition str_at :: "heap \<Rightarrow> addr \<Rightarrow> byte list \<Rightarrow> bool" where
  "str_at h s bs \<longleftrightarrow>
     obj h s 16 \<and> ld64 (mem h) (s + 8) = int (length bs) \<and>
     obj h (ld64 (mem h) s) (int (length bs) + 1) \<and>
     rd (mem h) (ld64 (mem h) s) (length bs) = bs \<and>
     mem h (ld64 (mem h) s + int (length bs)) = 0"

lemma str_at_extends:
  assumes "str_at h s bs" and e: "extends h h'"
  shows "str_at h' s bs"
proof -
  let ?b = "ld64 (mem h) s" and ?n = "int (length bs)"
  have o: "obj h s 16" "obj h ?b (?n + 1)" using assms(1) by (simp_all add: str_at_def)
  have h: "ld64 (mem h') s = ?b" "ld64 (mem h') (s + 8) = ld64 (mem h) (s + 8)"
    using e by (auto intro!: extends_ld64 obj_sub [OF o(1)])
  have "rd (mem h') ?b (length bs) = rd (mem h) ?b (length bs)"
    using e by (rule extends_rd) (auto intro: obj_sub [OF o(2)])
  moreover have "mem h' (?b + ?n) = mem h (?b + ?n)"
    using e o(2) by (rule extends_mem) auto
  ultimately show ?thesis
    using assms h extends_obj [OF e] by (simp add: str_at_def)
qed

text \<open>The bytes a string is made of, and strings under steps that stay off them.\<close>

definition str_foot :: "heap \<Rightarrow> addr \<Rightarrow> addr set" where
  "str_foot h s = {s..<s + 16} \<union> {ld64 (mem h) s..<ld64 (mem h) s + (ld64 (mem h) (s + 8) + 1)}"

lemma str_at_foot:
  assumes "str_at h s bs" and c: "changes_only F h h'" and off: "str_foot h s \<inter> F = {}"
  shows "str_at h' s bs" and "str_foot h' s = str_foot h s" and "str_foot h s \<subseteq> handed h"
proof -
  let ?b = "ld64 (mem h) s" and ?n = "int (length bs)"
  have o: "obj h s 16" "obj h ?b (?n + 1)" and l: "ld64 (mem h) (s + 8) = ?n"
    using assms(1) by (simp_all add: str_at_def)
  have d: "{s..<s + 16} \<inter> F = {}" "{?b..<?b + (?n + 1)} \<inter> F = {}"
    using off l by (auto simp: str_foot_def)
  have h: "ld64 (mem h') s = ?b" "ld64 (mem h') (s + 8) = ?n"
    using l c d(1) by (auto simp: changes_only_ld64 obj_sub [OF o(1)] disjoint_iff)
  have "rd (mem h') ?b (length bs) = rd (mem h) ?b (length bs)"
    using c by (rule changes_only_rd) (use d(2) in \<open>auto simp: disjoint_iff intro: obj_sub [OF o(2)]\<close>)
  moreover have "mem h' (?b + ?n) = mem h (?b + ?n)"
    using c o(2) d(2) by (rule changes_only_mem) auto
  ultimately show "str_at h' s bs"
    using assms h changes_only_obj [OF c] by (simp add: str_at_def)
  show "str_foot h' s = str_foot h s" by (simp add: str_foot_def h l)
  show "str_foot h s \<subseteq> handed h" using o l by (auto simp: str_foot_def intro: obj_handed)
qed

lemma str_at_loads:
  assumes "str_at h s bs"
  shows "load64 s h = Some (ld64 (mem h) s)" and "load64 (s + 8) h = Some (int (length bs))"
  using assms obj_sub [of h s 16 s 8] obj_sub [of h s 16 "s + 8" 8] by (auto simp: str_at_def)

lemma str_at_part:
  assumes "str_at h s bs" and "0 \<le> k" and "0 \<le> n" and "k + n \<le> int (length bs)"
  shows "load_bytes (ld64 (mem h) s + k) n h = Some (take (nat n) (drop (nat k) bs))"
proof -
  let ?b = "ld64 (mem h) s"
  have bs: "rd (mem h) ?b (length bs) = bs" using assms(1) by (simp add: str_at_def)
  have "obj h ?b (int (length bs) + 1)" using assms(1) by (simp add: str_at_def)
  then have "obj h (?b + k) n" using assms(2-4) by (auto elim: obj_sub)
  moreover have "take (nat n) (drop (nat k) bs) = rd (mem h) (?b + k) (nat n)"
    using assms(2-4) rd_sub [of "nat k" "nat n" "length bs" "mem h" ?b] bs by simp
  ultimately show ?thesis using assms(3) by simp
qed

lemma str_at_all: "str_at h s bs \<Longrightarrow> load_bytes (ld64 (mem h) s) (int (length bs)) h = Some bs"
  using str_at_part [of h s bs 0 "int (length bs)"] by simp

lemmas str_loads = str_at_loads str_at_part str_at_all

section \<open>A new string\<close>

text \<open>What \<open>kod_str_new\<close> leaves: a header and a terminated buffer of bytes yet to be filled.\<close>

definition new_str :: "heap \<Rightarrow> heap \<Rightarrow> addr \<Rightarrow> int \<Rightarrow> bool" where
  "new_str h h' s n \<longleftrightarrow> arena_inv h' \<and> extends h h' \<and> fresh_obj h h' s (17 + n) \<and>
     ld64 (mem h') s = s + 16 \<and> ld64 (mem h') (s + 8) = n \<and> mem h' (s + 16 + n) = 0"

lemma kod_str_new_spec:
  assumes inv: "arena_inv h" and ok: "malloc_ok M" and n: "0 \<le> n"
    and al: "arena_alloc M (17 + n) h = Some (p, h1)"
  shows "\<exists>h'. kod_str_new M n h = Some (p, h') \<and> new_str h h' p n"
proof -
  have r: "in64 (16 + n)" "in64 (17 + n)"
    using al n by (auto simp: arena_alloc_def range_simps split: Option.bind_splits)
  have iv: "arena_inv h \<and> malloc_ok M" using inv ok by simp
  have n17: "0 \<le> 17 + n" using n by simp
  note l = arena.alloc_laws [OF iv n17 al]
  have o: "obj h1 p (17 + n)" and f: "{p..<p + (17 + n)} \<inter> handed h = {}"
    using l(3) by (simp_all add: fresh_obj_def)
  have objs: "obj h1 p 8" "obj h1 (p + 8) 8" "obj h1 (p + 16 + n) 1"
    using o n by (auto elim: obj_sub)
  have pr: "in64 (p + 16)" "in64 n"
    using obj_bounds [OF l(1) [THEN conjunct1] o] n r by (auto simp: range_simps)
  define m where "m = wr (st64 (st64 (mem h1) p (p + 16)) (p + 8) n) (p + 16 + n) [0]"
  have k: "kod_str_new M n h = Some (p, h1\<lparr>mem := m\<rparr>)"
    using r al objs pr
    by (simp add: kod_str_new_def sizeof_KodStr_def m_def mem_simps Let_def algebra_simps)
  have "m x = mem h1 x" if "x \<in> handed h" for x
  proof -
    have "x < p \<or> p + (17 + n) \<le> x" using f that by (auto simp: disjoint_iff not_less)
    then show ?thesis using n by (auto simp: m_def mem_simps)
  qed
  then have "extends h (h1\<lparr>mem := m\<rparr>)" using l(2) by (intro extends_mem_update) auto
  moreover have "ld64 m p = p + 16" "ld64 m (p + 8) = n" "m (p + 16 + n) = 0"
    using pr n by (simp_all add: m_def mem_simps)
  ultimately have "new_str h (h1\<lparr>mem := m\<rparr>) p n"
    using l(1) o f by (simp add: new_str_def fresh_obj_def)
  with k show ?thesis by blast
qed

text \<open>Filling part of the buffer of a new string keeps it a new string.\<close>

lemma new_str_store:
  assumes ns: "new_str h h' s n" and k: "0 \<le> k" "k + int (length bs) \<le> n"
    and m: "m = wr (mem h') (s + 16 + k) bs"
  shows "store_bytes (s + 16 + k) bs h' = Some (h'\<lparr>mem := m\<rparr>)"
    and "new_str h (h'\<lparr>mem := m\<rparr>) s n"
proof -
  have o: "obj h' s (17 + n)" and f: "{s..<s + (17 + n)} \<inter> handed h = {}"
    using ns by (simp_all add: new_str_def fresh_obj_def)
  have "obj h' (s + 16 + k) (int (length bs))" using o k by (auto elim: obj_sub)
  then show "store_bytes (s + 16 + k) bs h' = Some (h'\<lparr>mem := m\<rparr>)" by (simp add: m)
  have "m x = mem h' x" if "x \<in> handed h" for x
  proof -
    have "x < s \<or> s + (17 + n) \<le> x" using f that by (auto simp: disjoint_iff not_less)
    then show ?thesis using k by (auto simp: m mem_simps)
  qed
  then show "new_str h (h'\<lparr>mem := m\<rparr>) s n"
    using ns k by (simp add: new_str_def fresh_obj_def extends_mem_update m mem_simps)
qed

lemma new_str_loads:
  assumes "new_str h h' s n" and "0 \<le> n"
  shows "load64 s h' = Some (s + 16)" and "load64 (s + 8) h' = Some n"
proof -
  have "obj h' s (17 + n)" using assms(1) by (simp add: new_str_def fresh_obj_def)
  then have "obj h' s 8" "obj h' (s + 8) 8" using assms(2) by (auto elim: obj_sub)
  then show "load64 s h' = Some (s + 16)" "load64 (s + 8) h' = Some n"
    using assms by (simp_all add: new_str_def)
qed

text \<open>A new string whose buffer has been filled is a string of those bytes.\<close>

definition str_made :: "heap \<Rightarrow> heap \<Rightarrow> addr \<Rightarrow> byte list \<Rightarrow> bool" where
  "str_made h h' s bs \<longleftrightarrow> arena_inv h' \<and> extends h h' \<and>
     fresh_obj h h' s (17 + int (length bs)) \<and> str_at h' s bs"

lemma new_str_made:
  assumes ns: "new_str h h' s n" and bs: "rd (mem h') (s + 16) (length bs) = bs"
    and n: "n = int (length bs)"
  shows "str_made h h' s bs"
proof -
  have o: "obj h' s (17 + n)" using ns by (simp add: new_str_def fresh_obj_def)
  have "obj h' s 16" "obj h' (s + 16) (n + 1)" using o n by (auto elim: obj_sub)
  then show ?thesis using ns bs n by (simp add: str_made_def new_str_def str_at_def)
qed

text \<open>The two steps of every constructor: a new string, and its buffer filled with \<open>bs\<close>.\<close>

lemma new_str_fill:
  assumes ns: "new_str h h' s (int (length bs))"
  shows "\<exists>h''. store_bytes (s + 16) bs h' = Some h'' \<and> str_made h h'' s bs"
proof -
  let ?m = "wr (mem h') (s + 16 + 0) bs"
  note s = new_str_store [OF ns _ _ refl, of 0 bs]
  have "str_made h (h'\<lparr>mem := ?m\<rparr>) s bs"
    using s(2) by (intro new_str_made) (simp_all add: mem_simps)
  then show ?thesis using s(1) by auto
qed

section \<open>Constructors\<close>

text \<open>
  The contract of a function that makes a string: when the arena has the room the string
  needs, the call returns and the result is a fresh string of the promised bytes.
\<close>

locale str_maker =
  fixes M :: malloc_fn
    and make :: "heap \<Rightarrow> (addr \<times> heap) option"
    and pre :: "heap \<Rightarrow> bool"
    and bytes :: "heap \<Rightarrow> byte list"
  assumes make_made: "arena_inv h \<Longrightarrow> malloc_ok M \<Longrightarrow> pre h \<Longrightarrow>
      arena_alloc M (17 + int (length (bytes h))) h = Some (s, h1) \<Longrightarrow>
      \<exists>h'. make h = Some (s, h') \<and> str_made h h' s (bytes h)"
begin

text \<open>Strings that were there before are unchanged, and none of them is the result.\<close>

lemma make_keeps_strings:
  assumes "arena_inv h" and "malloc_ok M" and "pre h"
    and al: "arena_alloc M (17 + int (length (bytes h))) h = Some (s, h1)"
    and old: "str_at h t ts"
  shows "\<exists>h'. make h = Some (s, h') \<and> str_at h' s (bytes h) \<and> str_at h' t ts \<and> s \<noteq> t"
proof -
  obtain h' where h': "make h = Some (s, h')" "str_made h h' s (bytes h)"
    using make_made [OF assms(1-3) al] by blast
  have "t \<in> handed h" using old by (auto simp: str_at_def intro: obj_handed)
  moreover have "s \<in> {s..<s + (17 + int (length (bytes h)))}" by simp
  then have "s \<notin> handed h" using h'(2) unfolding str_made_def fresh_obj_def by blast
  ultimately have "s \<noteq> t" by blast
  then show ?thesis
    using h' old by (auto simp: str_made_def intro: str_at_extends)
qed

end

lemma kod_str_from_bytes_made:
  assumes "arena_inv h" and "malloc_ok M" and "arena_alloc M (17 + int (length p)) h = Some (s, h1)"
  shows "\<exists>h'. kod_str_from_bytes M p h = Some (s, h') \<and> str_made h h' s p"
proof -
  from kod_str_new_spec [OF assms(1,2) _ assms(3)] obtain h2
    where n: "kod_str_new M (int (length p)) h = Some (s, h2)" "new_str h h2 s (int (length p))"
    by auto
  from new_str_fill [OF n(2)] new_str_loads [OF n(2)] n(1) show ?thesis
    by (auto simp: kod_str_from_bytes_def)
qed

lemma kod_str_from_cstr_made:
  assumes "arena_inv h" and "malloc_ok M"
    and "arena_alloc M (17 + int (length (c_str cstr))) h = Some (s, h1)"
  shows "\<exists>h'. kod_str_from_cstr M cstr h = Some (s, h') \<and> str_made h h' s (c_str cstr)"
proof -
  have t: "take (length (c_str cstr)) cstr = c_str cstr"
    unfolding c_str_def by (rule takeWhile_eq_take [symmetric])
  from kod_str_new_spec [OF assms(1,2) _ assms(3)] obtain h2
    where n: "kod_str_new M (int (length (c_str cstr))) h = Some (s, h2)"
      "new_str h h2 s (int (length (c_str cstr)))"
    by auto
  obtain h3 where f: "store_bytes (s + 16) (c_str cstr) h2 = Some h3" "str_made h h3 s (c_str cstr)"
    using new_str_fill [OF n(2)] by blast
  have "kod_str_from_cstr M cstr h = Some (s, h3)"
    using new_str_loads [OF n(2)] n(1) f(1)
    by (simp add: kod_str_from_cstr_def kod_str_alloc_def t Let_def)
  with f(2) show ?thesis by blast
qed

lemma kod_empty_str_made:
  assumes "arena_inv h" and "malloc_ok M" and "arena_alloc M 17 h = Some (s, h1)"
  shows "\<exists>h'. kod_empty_str M h = Some (s, h') \<and> str_made h h' s []"
proof -
  from kod_str_new_spec [of h M 0] assms obtain h2
    where n: "kod_str_new M 0 h = Some (s, h2)" "new_str h h2 s 0" by auto
  then show ?thesis
    using new_str_made [OF n(2), of "[]"] by (auto simp: kod_empty_str_def kod_str_alloc_def)
qed

subsection \<open>Slices\<close>

definition slice_of :: "'a list \<Rightarrow> int \<Rightarrow> int \<Rightarrow> 'a list" where
  "slice_of xs start stop = drop (nat start) (take (nat stop) xs)"

lemma clamp_slice_bounds:
  assumes "0 \<le> len" and "clamp_slice len start stop = (k, n)"
  shows "0 \<le> k" and "0 \<le> n" and "k + n \<le> len"
  using assms by (auto simp: clamp_slice_def Let_def split: if_splits)

lemma clamp_slice_slice:
  assumes "clamp_slice (int (length xs)) start stop = (k, n)"
  shows "take (nat n) (drop (nat k) xs) = slice_of xs start stop"
  using assms
  by (auto simp: clamp_slice_def slice_of_def Let_def drop_take split: if_splits intro!: arg_cong2 [of _ _ _ _ take])

lemma clamp_slice_length:
  assumes "clamp_slice (int (length xs)) start stop = (k, n)"
  shows "int (length (slice_of xs start stop)) = n"
proof -
  note b = clamp_slice_bounds [OF _ assms]
  have "int (length (take (nat n) (drop (nat k) xs))) = n" using b by auto
  then show ?thesis by (simp add: clamp_slice_slice [OF assms])
qed

lemma kod_str_slice_made:
  assumes inv: "arena_inv h" "malloc_ok M" and s: "str_at h s xs"
    and al: "arena_alloc M (17 + int (length (slice_of xs start stop))) h = Some (out, h1)"
  shows "\<exists>h'. kod_str_slice M s start stop h = Some (out, h') \<and> str_made h h' out (slice_of xs start stop)"
proof -
  obtain k n where c: "clamp_slice (int (length xs)) start stop = (k, n)" by fastforce
  have n: "n = int (length (slice_of xs start stop))" using clamp_slice_length [OF c] by simp
  from kod_str_new_spec [OF inv _ al] obtain h2
    where ns: "kod_str_new M n h = Some (out, h2)" "new_str h h2 out n" by (auto simp: n)
  have s2: "str_at h2 s xs" using s ns(2) by (auto simp: new_str_def intro: str_at_extends)
  have src: "load_bytes (ld64 (mem h2) s + k) n h2 = Some (slice_of xs start stop)"
    using str_at_part [OF s2 clamp_slice_bounds [OF _ c]] clamp_slice_slice [OF c] by simp
  from new_str_fill [of h h2 out "slice_of xs start stop"] ns(2) obtain h3
    where "store_bytes (out + 16) (slice_of xs start stop) h2 = Some h3"
      "str_made h h3 out (slice_of xs start stop)" by (auto simp: n)
  then show ?thesis
    using ns new_str_loads [OF ns(2)] str_at_loads [OF s] str_at_loads [OF s2] src c n
    by (auto simp: kod_str_slice_def kod_str_alloc_def)
qed

subsection \<open>Concatenation\<close>

lemma kod_str_concat_made:
  assumes inv: "arena_inv h" "malloc_ok M" and a: "str_at h a xs" and b: "str_at h b ys"
    and al: "arena_alloc M (17 + int (length (xs @ ys))) h = Some (out, h1)"
  shows "\<exists>h'. kod_str_concat M a b h = Some (out, h') \<and> str_made h h' out (xs @ ys)"
proof -
  let ?n = "int (length xs) + int (length ys)"
  have r: "in64 ?n" using al by (auto simp: arena_alloc_def range_simps split: Option.bind_splits)
  from kod_str_new_spec [OF inv _ al] obtain h2
    where ns: "kod_str_new M ?n h = Some (out, h2)" "new_str h h2 out ?n" by auto
  have a2: "str_at h2 a xs" using a ns(2) by (auto simp: new_str_def intro: str_at_extends)
  define h3 where "h3 = h2\<lparr>mem := wr (mem h2) (out + 16) xs\<rparr>"
  note s3 = new_str_store [OF ns(2) _ _ refl, of 0 xs, simplified, folded h3_def]
  have b3: "str_at h3 b ys" using b s3(2) by (auto simp: new_str_def intro: str_at_extends)
  define h4 where "h4 = h3\<lparr>mem := wr (mem h3) (out + 16 + int (length xs)) ys\<rparr>"
  note s4 = new_str_store [OF s3(2) _ _ refl, of "int (length xs)" ys, simplified, folded h4_def]
  have "rd (mem h3) (out + 16) (length xs) = xs" by (simp add: h3_def mem_simps)
  then have "rd (mem h4) (out + 16) (length (xs @ ys)) = xs @ ys"
    by (simp add: h4_def rd_wr_extend)
  then have m: "str_made h h4 out (xs @ ys)"
    using s4(2) by (intro new_str_made) simp_all
  have "kod_str_concat M a b h = Some (out, h4)"
    using r ns s3(1) s4(1) new_str_loads [OF ns(2)] new_str_loads [OF s3(2)]
      str_at_loads [OF a] str_at_loads [OF b] str_at_loads [OF a2] str_at_loads [OF b3]
      str_at_all [OF a2] str_at_all [OF b3]
    by (simp add: kod_str_concat_def kod_str_alloc_def)
  with m show ?thesis by blast
qed

interpretation from_bytes: str_maker M "kod_str_from_bytes M bs" "\<lambda>_. True" "\<lambda>_. bs" for M bs
  by unfold_locales (rule kod_str_from_bytes_made)

interpretation from_cstr: str_maker M "kod_str_from_cstr M cs" "\<lambda>_. True" "\<lambda>_. c_str cs" for M cs
  by unfold_locales (rule kod_str_from_cstr_made)

interpretation slice_str: str_maker M "kod_str_slice M s start stop" "\<lambda>h. str_at h s xs"
    "\<lambda>_. slice_of xs start stop" for M s start stop xs
  by unfold_locales (rule kod_str_slice_made)

interpretation concat_str: str_maker M "kod_str_concat M a b" "\<lambda>h. str_at h a xs \<and> str_at h b ys"
    "\<lambda>_. xs @ ys" for M a b xs ys
  by unfold_locales (rule kod_str_concat_made, auto)

section \<open>Comparison\<close>

text \<open>Lexicographic order on byte strings, a prefix before its extensions.\<close>

fun bytes_less :: "byte list \<Rightarrow> byte list \<Rightarrow> bool" where
  "bytes_less xs [] = False"
| "bytes_less [] (y # ys) = True"
| "bytes_less (x # xs) (y # ys) = (x < y \<or> x = y \<and> bytes_less xs ys)"

definition memcmp_ok :: "(byte list \<Rightarrow> byte list \<Rightarrow> int) \<Rightarrow> bool" where
  "memcmp_ok memcmp \<longleftrightarrow> (\<forall>x y. length x = length y \<longrightarrow>
     (memcmp x y < 0 \<longleftrightarrow> bytes_less x y) \<and> (memcmp x y = 0 \<longleftrightarrow> x = y))"

lemma bytes_less_Nil [simp]: "bytes_less [] ys = (ys \<noteq> [])"
  by (cases ys) auto

lemma bytes_less_irrefl [simp]: "\<not> bytes_less xs xs"
  by (induction xs) auto

lemma bytes_less_linear: "bytes_less xs ys \<or> xs = ys \<or> bytes_less ys xs"
  by (induction xs ys rule: bytes_less.induct) auto

lemma bytes_less_trans: "bytes_less xs ys \<Longrightarrow> bytes_less ys zs \<Longrightarrow> bytes_less xs zs"
  by (induction xs ys arbitrary: zs rule: bytes_less.induct) (case_tac zs; auto)+

lemma bytes_less_asym: "bytes_less xs ys \<Longrightarrow> \<not> bytes_less ys xs"
  using bytes_less_trans bytes_less_irrefl by blast

lemma bytes_less_prefix:
  assumes "k = min (length xs) (length ys)"
  shows "bytes_less xs ys \<longleftrightarrow> bytes_less (take k xs) (take k ys) \<or>
    take k xs = take k ys \<and> length xs < length ys"
  using assms by (induction xs ys arbitrary: k rule: bytes_less.induct) auto

lemma take_min_eq:
  assumes "k = min (length xs) (length ys)"
  shows "xs = ys \<longleftrightarrow> take k xs = take k ys \<and> length xs = length ys"
  using assms by auto

lemma kod_str_cmp_eq:
  assumes inv: "arena_inv h" and a: "str_at h a xs" and b: "str_at h b ys"
    and k: "k = min (length xs) (length ys)"
  shows "kod_str_cmp memcmp a b h =
    Some (if memcmp (take k xs) (take k ys) \<noteq> 0 then memcmp (take k xs) (take k ys)
          else int (length xs) - int (length ys))"
proof -
  have len: "int (length bs) + 1 \<le> INT64_MAX" if "str_at h s bs" for s bs
    using that obj_bounds [OF inv, of "ld64 (mem h) s"] by (force simp: str_at_def)
  have r: "in64 (int (length xs) - int (length ys))"
    using len [OF a] len [OF b] by (simp add: range_simps)
  have "load_bytes (ld64 (mem h) a) (int k) h = Some (take k xs)"
    "load_bytes (ld64 (mem h) b) (int k) h = Some (take k ys)"
    using str_at_part [OF a, of 0 "int k"] str_at_part [OF b, of 0 "int k"] k by simp_all
  moreover have "(if int (length xs) < int (length ys) then int (length xs) else int (length ys)) = int k"
    using k by simp
  ultimately show ?thesis
    using str_at_loads [OF a] str_at_loads [OF b] r by (simp add: kod_str_cmp_def Let_def)
qed

section \<open>A heap for the witnesses\<close>

definition demo_heap :: heap where
  "demo_heap = snd (the (kod_str_from_bytes bump_malloc [3]
     (snd (the (kod_str_from_bytes bump_malloc [1, 2] empty_heap)))))"

lemmas str_eval = kod_str_from_bytes_def kod_str_new_def sizeof_KodStr_def store64_def load64_def
  store_bytes_def obj_def block_obj_def mem_simps arena_eval

lemma demo_heap_facts:
  "arena_inv demo_heap \<and> str_at demo_heap 40 [1, 2] \<and> str_at demo_heap 64 [3] \<and>
   current_block demo_heap = [\<lparr>blk = 16, current = 88, block_end = 4194344\<rparr>]"
proof -
  have "arena_alloc bump_malloc 19 empty_heap \<noteq> None"
    by (simp add: arena_eval)
  then obtain p h1 where a1: "arena_alloc bump_malloc 19 empty_heap = Some (p, h1)" by auto
  have p: "p = 40" using a1 by (auto simp: arena_eval)
  obtain h2 where h2: "kod_str_from_bytes bump_malloc [1, 2] empty_heap = Some (p, h2)"
    "str_made empty_heap h2 p [1, 2]"
    using kod_str_from_bytes_made [OF empty_heap_inv bump_malloc_ok, of "[1, 2]"] a1 by auto
  have c2: "current_block h2 = [\<lparr>blk = 16, current = 64, block_end = 4194344\<rparr>]"
    using h2(1) by (auto simp: str_eval)
  have i2: "arena_inv h2" using h2(2) by (simp add: str_made_def)
  have "arena_alloc bump_malloc 18 h2 \<noteq> None"
    using c2 by (simp add: arena_eval)
  then obtain q h3 where a3: "arena_alloc bump_malloc 18 h2 = Some (q, h3)" by auto
  have q: "q = 64" using a3 c2 by (auto simp: arena_eval)
  obtain h4 where h4: "kod_str_from_bytes bump_malloc [3] h2 = Some (q, h4)"
    "str_made h2 h4 q [3]"
    using kod_str_from_bytes_made [OF i2 bump_malloc_ok, of "[3]"] a3 by auto
  have c4: "current_block h4 = [\<lparr>blk = 16, current = 88, block_end = 4194344\<rparr>]"
    using h4(1) c2 by (auto simp: str_eval)
  have "demo_heap = h4" by (simp add: demo_heap_def h2(1) h4(1))
  moreover have "str_at h4 40 [1, 2]"
    using h2(2) h4(2) p by (auto simp: str_made_def intro: str_at_extends)
  ultimately show ?thesis using h4(2) q c4 by (simp add: str_made_def)
qed

lemma demo_heap_alloc: "\<exists>h1. arena_alloc bump_malloc 20 demo_heap = Some (88, h1)"
  using demo_heap_facts by (simp add: arena_eval)

section \<open>Properties of the strings\<close>

text \<open>
  A string made from bytes holds exactly those bytes (NUL bytes included) and a terminator,
  in memory no earlier object uses, and every earlier string is still there unchanged.
\<close>

theorem kod_str_from_bytes_correct:
  assumes "arena_inv h" and "malloc_ok M" and "arena_alloc M (17 + int (length bs)) h = Some (s, h1)"
    and "str_at h t ts"
  shows "\<exists>h'. kod_str_from_bytes M bs h = Some (s, h') \<and> str_at h' s bs \<and> str_at h' t ts \<and> s \<noteq> t"
  using from_bytes.make_keeps_strings [OF assms(1,2) TrueI assms(3,4)] .

theorem kod_str_from_bytes_correct_witness:
  "\<exists>h'. kod_str_from_bytes bump_malloc [7, 0, 9] demo_heap = Some (88, h') \<and> str_at h' 88 [7, 0, 9] \<and>
    str_at h' 40 [1, 2]"
  using kod_str_from_bytes_correct [of demo_heap bump_malloc "[7, 0, 9]" 88 _ 40 "[1, 2]"]
    demo_heap_facts demo_heap_alloc bump_malloc_ok by auto

text \<open>
  C6. Concatenation of two strings (the same one twice included) returns a fresh string of the
  first's bytes followed by the second's, and leaves both, and every other string, unchanged.
\<close>

theorem kod_str_concat_correct:
  assumes "arena_inv h" and "malloc_ok M" and "str_at h a xs" and "str_at h b ys"
    and "arena_alloc M (17 + int (length (xs @ ys))) h = Some (out, h1)" and "str_at h t ts"
  shows "\<exists>h'. kod_str_concat M a b h = Some (out, h') \<and> str_at h' out (xs @ ys) \<and>
    str_at h' t ts \<and> out \<noteq> t"
  using concat_str.make_keeps_strings [OF assms(1,2) conjI [OF assms(3,4)] assms(5,6)] .

theorem kod_str_concat_correct_witness:
  "\<exists>h'. kod_str_concat bump_malloc 40 64 demo_heap = Some (88, h') \<and> str_at h' 88 [1, 2, 3] \<and>
    str_at h' 64 [3]"
  using kod_str_concat_correct [of demo_heap bump_malloc 40 "[1, 2]" 64 "[3]" 88 _ 64 "[3]"]
    demo_heap_facts demo_heap_alloc bump_malloc_ok by auto

text \<open>
  C3. A slice is the bytes from \<open>start\<close> up to \<open>stop\<close>, whatever the two arguments are: bounds
  outside the string are clamped to it and a crossed range is the empty string. It is a new string, and
  every string there was is unchanged.
\<close>

theorem kod_str_slice_correct:
  assumes "arena_inv h" and "malloc_ok M" and "str_at h s xs"
    and "arena_alloc M (17 + int (length (slice_of xs start stop))) h = Some (out, h1)"
    and "str_at h t ts"
  shows "\<exists>h'. kod_str_slice M s start stop h = Some (out, h') \<and>
    str_at h' out (drop (nat start) (take (nat stop) xs)) \<and> str_at h' t ts \<and> out \<noteq> t"
  using slice_str.make_keeps_strings [OF assms] by (simp add: slice_of_def)

theorem kod_str_slice_correct_witness:
  "\<exists>out h'. kod_str_slice bump_malloc 40 1 99 demo_heap = Some (out, h') \<and> str_at h' out [2]"
proof -
  obtain h1 where "arena_alloc bump_malloc (17 + int (length (slice_of [1, 2 :: byte] 1 99))) demo_heap =
      Some (88, h1)"
    using demo_heap_facts by (simp add: arena_eval slice_of_def)
  from kod_str_slice_correct [OF _ bump_malloc_ok _ this, of 40 40 "[1, 2]"] demo_heap_facts
  show ?thesis by auto
qed

text \<open>
  C7. \<open>kod_str_cmp\<close> decides the lexicographic order of the unsigned bytes: its answer is
  negative, zero or positive as the first string is before, equal to or after the second.
\<close>

theorem kod_str_cmp_order:
  assumes "arena_inv h" and "memcmp_ok memcmp" and "str_at h a xs" and "str_at h b ys"
  shows "\<exists>r. kod_str_cmp memcmp a b h = Some r \<and> (r < 0 \<longleftrightarrow> bytes_less xs ys) \<and>
    (r = 0 \<longleftrightarrow> xs = ys) \<and> (0 < r \<longleftrightarrow> bytes_less ys xs)"
proof -
  define k where "k = min (length xs) (length ys)"
  let ?m = "memcmp (take k xs) (take k ys)"
  define r where "r = (if ?m \<noteq> 0 then ?m else int (length xs) - int (length ys))"
  have e: "kod_str_cmp memcmp a b h = Some r"
    using kod_str_cmp_eq [OF assms(1,3,4) k_def] by (simp add: r_def)
  have m: "(?m < 0 \<longleftrightarrow> bytes_less (take k xs) (take k ys)) \<and> (?m = 0 \<longleftrightarrow> take k xs = take k ys)"
    using assms(2) by (simp add: memcmp_ok_def k_def)
  have neg: "r < 0 \<longleftrightarrow> bytes_less xs ys"
    using m bytes_less_prefix [OF k_def] by (auto simp: r_def)
  moreover have zero: "r = 0 \<longleftrightarrow> xs = ys"
    using m take_min_eq [OF k_def] by (auto simp: r_def)
  moreover have "0 < r \<longleftrightarrow> bytes_less ys xs"
    using neg zero bytes_less_linear [of xs ys] bytes_less_asym [of xs ys] by force
  ultimately show ?thesis using e by blast
qed

fun first_diff :: "byte list \<Rightarrow> byte list \<Rightarrow> int" where
  "first_diff (x # xs) (y # ys) = (if x = y then first_diff xs ys else uint x - uint y)"
| "first_diff _ _ = 0"

lemma first_diff_memcmp: "memcmp_ok first_diff"
proof -
  have "length x = length y \<Longrightarrow>
      (first_diff x y < 0 \<longleftrightarrow> bytes_less x y) \<and> (first_diff x y = 0 \<longleftrightarrow> x = y)" for x y
    by (induction x y rule: list_induct2) (auto simp: word_less_def simp flip: word_uint_eq_iff)
  then show ?thesis by (simp add: memcmp_ok_def)
qed

theorem kod_str_cmp_order_witness:
  "\<exists>r. kod_str_cmp first_diff 40 64 demo_heap = Some r \<and> r < 0"
  using kod_str_cmp_order [OF _ first_diff_memcmp, of demo_heap 40 "[1, 2]" 64 "[3]"] demo_heap_facts
  by auto

end
