(* ===== verification/Kod_StrBuilder.thy ===== *)
theory Kod_StrBuilder
  imports Kod_Str
begin

text \<open>
  The string builder of stdlib/runtime.c (\<open>kod_sb_new\<close> to \<open>kod_sb_to_str\<close>), a growable byte
  buffer in the arena. A handle is the address of a \<open>KodStrBuilder\<close>: \<open>buf\<close> at offset 0,
  \<open>len\<close> at 8, \<open>cap\<close> at 16. \<open>sb_at h sb bs cap\<close>: the builder \<open>sb\<close> holds the bytes \<open>bs\<close> in a
  buffer of \<open>cap\<close> bytes. A call that ends in \<open>kod_panic\<close> returns \<open>Inl\<close> of the message
  string and the heap; \<open>None\<close> is undefined behaviour as everywhere.

  The locale \<open>byte_sink\<close> is the contract of the appending operations; sequences of operations
  refine the abstract \<open>sb_spec\<close>.
\<close>

section \<open>Operations\<close>

type_synonym 'a or_panic = "(addr \<times> heap) + 'a"

definition sizeof_KodStrBuilder :: int where
  "sizeof_KodStrBuilder = 24"

definition kod_sb_new :: "malloc_fn \<Rightarrow> heap \<Rightarrow> (addr \<times> heap) option" where
  "kod_sb_new M h = do {
     (sb, h) \<leftarrow> arena_alloc M sizeof_KodStrBuilder h;
     h \<leftarrow> store64 (sb + 16) 32 h;
     h \<leftarrow> store64 (sb + 8) 0 h;
     cap \<leftarrow> load64 (sb + 16) h;
     (buf, h) \<leftarrow> arena_alloc M cap h;
     h \<leftarrow> store64 sb buf h;
     Some (sb, h)
   }"

definition kod_sb_reserve :: "malloc_fn \<Rightarrow> addr \<Rightarrow> int \<Rightarrow> heap \<Rightarrow> heap or_panic option" where
  "kod_sb_reserve M sb extra h = do {
     len \<leftarrow> load64 (sb + 8) h;
     room \<leftarrow> chk64 (INT64_MAX div 4 - len);
     if extra > room then do {
       p \<leftarrow> kod_str_from_cstr M (bytes_of ''string builder is too large'' @ [0]) h;
       Some (Inl p)
     } else do {
       need \<leftarrow> chk64 (len + extra);
       cap \<leftarrow> load64 (sb + 16) h;
       if need \<le> cap then Some (Inr h) else do {
         new_cap \<leftarrow> double_until cap need;
         (new_buf, h) \<leftarrow> arena_alloc M new_cap h;
         buf \<leftarrow> load64 sb h;
         len \<leftarrow> load64 (sb + 8) h;
         src \<leftarrow> load_bytes buf len h;
         h \<leftarrow> store_bytes new_buf src h;
         h \<leftarrow> store64 sb new_buf h;
         h \<leftarrow> store64 (sb + 16) new_cap h;
         Some (Inr h)
       }
     }
   }"

definition kod_sb_append :: "malloc_fn \<Rightarrow> addr \<Rightarrow> addr \<Rightarrow> heap \<Rightarrow> heap or_panic option" where
  "kod_sb_append M sb s h = do {
     slen \<leftarrow> load64 (s + 8) h;
     r \<leftarrow> kod_sb_reserve M sb slen h;
     (case r of Inl p \<Rightarrow> Some (Inl p) | Inr h \<Rightarrow> do {
        buf \<leftarrow> load64 sb h;
        len \<leftarrow> load64 (sb + 8) h;
        sbuf \<leftarrow> load64 s h;
        slen \<leftarrow> load64 (s + 8) h;
        src \<leftarrow> load_bytes sbuf slen h;
        h \<leftarrow> store_bytes (buf + len) src h;
        len \<leftarrow> load64 (sb + 8) h;
        slen \<leftarrow> load64 (s + 8) h;
        n \<leftarrow> chk64 (len + slen);
        h \<leftarrow> store64 (sb + 8) n h;
        Some (Inr h)
      })
   }"

definition kod_sb_append_byte :: "malloc_fn \<Rightarrow> addr \<Rightarrow> int \<Rightarrow> heap \<Rightarrow> heap or_panic option" where
  "kod_sb_append_byte M sb b h = do {
     r \<leftarrow> kod_sb_reserve M sb 1 h;
     (case r of Inl p \<Rightarrow> Some (Inl p) | Inr h \<Rightarrow> do {
        buf \<leftarrow> load64 sb h;
        len \<leftarrow> load64 (sb + 8) h;
        n \<leftarrow> chk64 (len + 1);
        h \<leftarrow> store_bytes (buf + len) [low_byte b] h;
        h \<leftarrow> store64 (sb + 8) n h;
        Some (Inr h)
      })
   }"

definition kod_sb_len :: "addr \<Rightarrow> heap \<Rightarrow> int option" where
  "kod_sb_len sb h = load64 (sb + 8) h"

definition kod_sb_clear :: "addr \<Rightarrow> heap \<Rightarrow> heap option" where
  "kod_sb_clear sb h = store64 (sb + 8) 0 h"

definition kod_sb_to_str :: "malloc_fn \<Rightarrow> addr \<Rightarrow> heap \<Rightarrow> (addr \<times> heap) option" where
  "kod_sb_to_str M sb h = do {
     buf \<leftarrow> load64 sb h;
     len \<leftarrow> load64 (sb + 8) h;
     p \<leftarrow> load_bytes buf len h;
     kod_str_from_bytes M p h
   }"

section \<open>Well-formed builders\<close>

definition sb_at :: "heap \<Rightarrow> addr \<Rightarrow> byte list \<Rightarrow> int \<Rightarrow> bool" where
  "sb_at h sb bs cap \<longleftrightarrow>
     obj h sb 24 \<and> ld64 (mem h) (sb + 8) = int (length bs) \<and> ld64 (mem h) (sb + 16) = cap \<and>
     0 < cap \<and> int (length bs) \<le> cap \<and> obj h (ld64 (mem h) sb) cap \<and>
     (sb + 24 \<le> ld64 (mem h) sb \<or> ld64 (mem h) sb + cap \<le> sb) \<and>
     rd (mem h) (ld64 (mem h) sb) (length bs) = bs"

definition sb_foot :: "heap \<Rightarrow> addr \<Rightarrow> addr set" where
  "sb_foot h sb = {sb..<sb + 24} \<union>
     {ld64 (mem h) sb..<ld64 (mem h) sb + ld64 (mem h) (sb + 16)}"

text \<open>
  What an operation on a builder leaves of the heap: only the bytes of the builder change, and
  the builder afterwards uses its old bytes and fresh ones.
\<close>

definition sb_frame :: "addr \<Rightarrow> heap \<Rightarrow> heap \<Rightarrow> bool" where
  "sb_frame sb h h' \<longleftrightarrow> arena_inv h' \<and> changes_only (sb_foot h sb) h h' \<and>
     sb_foot h' sb \<inter> handed h \<subseteq> sb_foot h sb"

lemma sb_frame_refl: "arena_inv h \<Longrightarrow> sb_frame sb h h"
  by (simp add: sb_frame_def changes_only_def)

lemma sb_frame_trans:
  assumes "sb_frame sb h h1" and "sb_frame sb h1 h2"
  shows "sb_frame sb h h2"
proof -
  have "handed h \<subseteq> handed h1" using assms(1) by (auto simp: sb_frame_def changes_only_def handed_def)
  then show ?thesis
    using assms changes_only_trans [of "sb_foot h sb" h h1 "sb_foot h1 sb" h2]
    by (fastforce simp: sb_frame_def)
qed

text \<open>A string off the builder survives the operation, and stays off the builder.\<close>

lemma sb_frame_str:
  assumes "sb_frame sb h h'" and "str_at h t ts" and "str_foot h t \<inter> sb_foot h sb = {}"
  shows "str_at h' t ts" and "str_foot h' t \<inter> sb_foot h' sb = {}"
proof -
  have c: "changes_only (sb_foot h sb) h h'" and s: "sb_foot h' sb \<inter> handed h \<subseteq> sb_foot h sb"
    using assms(1) by (simp_all add: sb_frame_def)
  note f = str_at_foot [OF assms(2) c assms(3)]
  show "str_at h' t ts" by (rule f(1))
  show "str_foot h' t \<inter> sb_foot h' sb = {}" using f s assms(3) by blast
qed

lemma sb_at_loads:
  assumes "sb_at h sb bs cap"
  shows "load64 sb h = Some (ld64 (mem h) sb)" and "load64 (sb + 8) h = Some (int (length bs))"
    and "load64 (sb + 16) h = Some cap"
    and "load_bytes (ld64 (mem h) sb) (int (length bs)) h = Some bs"
proof -
  have o: "obj h sb 24" "obj h (ld64 (mem h) sb) cap" using assms by (simp_all add: sb_at_def)
  have "obj h sb 8" "obj h (sb + 8) 8" "obj h (sb + 16) 8" "obj h (ld64 (mem h) sb) (int (length bs))"
    using assms by (auto simp: sb_at_def intro: obj_sub [OF o(1)] obj_sub [OF o(2)])
  then show "load64 sb h = Some (ld64 (mem h) sb)" "load64 (sb + 8) h = Some (int (length bs))"
    "load64 (sb + 16) h = Some cap" "load_bytes (ld64 (mem h) sb) (int (length bs)) h = Some bs"
    using assms by (simp_all add: sb_at_def)
qed

lemma sb_at_range:
  assumes "arena_inv h" and "sb_at h sb bs cap"
  shows "cap < INT64_MAX" and "int (length bs) < INT64_MAX" and "0 < ld64 (mem h) sb"
    and "ld64 (mem h) sb \<le> INT64_MAX"
proof -
  have "obj h (ld64 (mem h) sb) cap" using assms(2) by (simp add: sb_at_def)
  from obj_bounds [OF assms(1) this] assms(2)
  show "cap < INT64_MAX" "int (length bs) < INT64_MAX" "0 < ld64 (mem h) sb"
    "ld64 (mem h) sb \<le> INT64_MAX"
    by (auto simp: sb_at_def)
qed

section \<open>Reserving room\<close>

text \<open>Moving the content into a fresh buffer.\<close>

lemma sb_move:
  assumes inv: "arena_inv h1" and at: "sb_at h1 sb bs cap" and f: "fresh_obj h h1 q c"
    and e: "extends h h1" and foot: "sb_foot h1 sb \<subseteq> handed h" and c: "int (length bs) \<le> c" "0 < c"
    and g: "g = h1\<lparr>mem := st64 (st64 (wr (mem h1) q bs) sb q) (sb + 16) c\<rparr>"
  shows "sb_at g sb bs c" and "changes_only (sb_foot h1 sb) h g" and "sb_foot g sb = {sb..<sb + 24} \<union> {q..<q + c}"
proof -
  have o: "obj h1 q c" and d: "{q..<q + c} \<inter> handed h = {}" using f by (simp_all add: fresh_obj_def)
  have hd: "{sb..<sb + 24} \<subseteq> handed h" using foot by (auto simp: sb_foot_def)
  have "q \<in> {q..<q + c}" "sb \<in> {sb..<sb + 24}" using c by auto
  then have "q \<notin> {sb..<sb + 24}" "sb \<notin> {q..<q + c}" using d hd by blast+
  then have ap: "sb + 24 \<le> q \<or> q + c \<le> sb" using c by auto
  have qr: "in64 q" "in64 c" using obj_bounds [OF inv o] c by (auto simp: range_simps)
  have len: "ld64 (mem h1) (sb + 8) = int (length bs)" using at by (simp add: sb_at_def)
  have ld: "ld64 (mem g) sb = q" "ld64 (mem g) (sb + 16) = c" "ld64 (mem g) (sb + 8) = int (length bs)"
    using ap c qr len by (auto simp: g mem_simps)
  moreover have "rd (mem g) q (length bs) = bs"
    using ap c by (auto simp: g mem_simps)
  ultimately show "sb_at g sb bs c"
    using at o c ap by (simp add: sb_at_def g)
  show "sb_foot g sb = {sb..<sb + 24} \<union> {q..<q + c}" using ld by (simp add: sb_foot_def)
  have "changes_only ({sb..<sb + 24} \<union> {q..<q + c}) h1 g"
    unfolding g by (rule changes_only_update) (use c in \<open>auto simp: mem_simps not_le\<close>)
  moreover have "({sb..<sb + 24} \<union> {q..<q + c}) \<inter> handed h \<subseteq> sb_foot h1 sb"
    using d by (auto simp: sb_foot_def)
  ultimately show "changes_only (sb_foot h1 sb) h g"
    using changes_only_trans extends_changes [OF e] by blast
qed

lemma sb_at_extends:
  assumes "sb_at h sb bs cap" and e: "extends h h'"
  shows "sb_at h' sb bs cap" and "sb_foot h' sb = sb_foot h sb" and "sb_foot h sb \<subseteq> handed h"
proof -
  have o: "obj h sb 24" "obj h (ld64 (mem h) sb) cap" and l: "int (length bs) \<le> cap"
    using assms by (simp_all add: sb_at_def)
  have ld: "ld64 (mem h') sb = ld64 (mem h) sb" "ld64 (mem h') (sb + 8) = ld64 (mem h) (sb + 8)"
    "ld64 (mem h') (sb + 16) = ld64 (mem h) (sb + 16)"
    by (auto intro!: extends_ld64 [OF e] obj_sub [OF o(1)])
  moreover have "rd (mem h') (ld64 (mem h) sb) (length bs) = rd (mem h) (ld64 (mem h) sb) (length bs)"
    using l by (auto intro!: extends_rd [OF e] obj_sub [OF o(2)])
  ultimately show "sb_at h' sb bs cap" using assms extends_obj [OF e] by (simp add: sb_at_def)
  show "sb_foot h' sb = sb_foot h sb" by (simp add: sb_foot_def ld)
  show "sb_foot h sb \<subseteq> handed h"
    using assms(1) o by (auto simp: sb_foot_def sb_at_def intro: obj_handed)
qed

text \<open>The room for \<open>extra\<close> more bytes is there, or \<open>arena_alloc\<close> has it.\<close>

definition sb_room :: "malloc_fn \<Rightarrow> heap \<Rightarrow> int \<Rightarrow> int \<Rightarrow> bool" where
  "sb_room M h cap need \<longleftrightarrow> (\<forall>c. cap < need \<longrightarrow> double_until cap need = Some c \<longrightarrow> arena_alloc M c h \<noteq> None)"

text \<open>The capacity afterwards: unchanged when it was enough, else doubled until it is, and so less than twice the need.\<close>

definition grown :: "int \<Rightarrow> int \<Rightarrow> int \<Rightarrow> bool" where
  "grown cap need c \<longleftrightarrow> need \<le> c \<and> (if need \<le> cap then c = cap else c < 2 * need \<and> (\<exists>k. c = cap * 2 ^ k))"

lemma kod_sb_reserve_spec:
  assumes inv: "arena_inv h" "malloc_ok M" and at: "sb_at h sb bs cap" and x: "0 \<le> extra"
    and small: "int (length bs) + extra \<le> INT64_MAX div 4"
    and room: "sb_room M h cap (int (length bs) + extra)"
  shows "\<exists>h' c. kod_sb_reserve M sb extra h = Some (Inr h') \<and> sb_at h' sb bs c \<and>
    grown cap (int (length bs) + extra) c \<and> sb_frame sb h h'"
proof -
  let ?need = "int (length bs) + extra"
  note l = sb_at_loads [OF at]
  note r = sb_at_range [OF inv(1) at]
  have r1: "in64 (INT64_MAX div 4 - int (length bs))" "in64 ?need"
    using small x by (auto simp: range_simps)
  show ?thesis
  proof (cases "?need \<le> cap")
    case True
    then have "kod_sb_reserve M sb extra h = Some (Inr h)"
      using l r1 small by (simp add: kod_sb_reserve_def)
    then show ?thesis using True at sb_frame_refl [OF inv(1)] by (auto simp: grown_def)
  next
    case False
    have "0 < cap" using at by (simp add: sb_at_def)
    moreover have "2 * ?need \<le> INT64_MAX" using small by (simp add: INT64_MAX_def)
    ultimately obtain c where c: "double_until cap ?need = Some c" "?need \<le> c" "c = cap \<or> c < 2 * ?need"
      using double_until_returns [of cap ?need] r by auto
    have cpos: "0 < c" "int (length bs) \<le> c" using c(2) x False \<open>0 < cap\<close> by linarith+
    obtain q h1 where al: "arena_alloc M c h = Some (q, h1)"
      using room c(1) False by (auto simp: sb_room_def)
    have iv: "arena_inv h \<and> malloc_ok M" using inv by simp
    note a = arena.alloc_laws [OF iv less_imp_le [OF cpos(1)] al]
    note at1 = sb_at_extends [OF at a(2)]
    define g where "g = h1\<lparr>mem := st64 (st64 (wr (mem h1) q bs) sb q) (sb + 16) c\<rparr>"
    have ft: "sb_foot h1 sb \<subseteq> handed h" using at1 by simp
    note mv = sb_move [OF a(1) [THEN conjunct1] at1(1) a(3,2) ft cpos(2,1) g_def]
    have o: "obj h1 q (int (length bs))" "obj h1 sb 8" "obj h1 (sb + 16) 8"
      using a(3) at1(1) cpos by (auto simp: fresh_obj_def sb_at_def elim: obj_sub)
    have "kod_sb_reserve M sb extra h = Some (Inr g)"
      using l r1 small False c(1) al sb_at_loads [OF at1(1)] o
      by (simp add: kod_sb_reserve_def g_def)
    moreover have "sb_foot g sb \<inter> handed h \<subseteq> sb_foot h sb"
      using a(3) mv(3) by (auto simp: fresh_obj_def sb_foot_def)
    then have "sb_frame sb h g"
      using mv(2) at1(2) a(1) by (simp add: sb_frame_def g_def)
    moreover have "grown cap ?need c" using c False double_until_power [OF c(1)] by (auto simp: grown_def)
    ultimately show ?thesis using mv(1) by blast
  qed
qed

text \<open>A request that would pass a quarter of the address range panics.\<close>

lemma kod_sb_reserve_panics:
  assumes "arena_inv h" and "malloc_ok M" and at: "sb_at h sb bs cap"
    and big: "INT64_MAX div 4 - int (length bs) < extra"
    and al: "arena_alloc M 44 h = Some (p, h1)"
  shows "\<exists>h'. kod_sb_reserve M sb extra h = Some (Inl (p, h')) \<and>
    str_made h h' p (bytes_of ''string builder is too large'')"
proof -
  let ?m = "bytes_of ''string builder is too large''"
  have m: "c_str (?m @ [0]) = ?m" by (simp add: bytes_of_def c_str_def)
  have len: "17 + int (length ?m) = 44" by (simp add: bytes_of_def)
  obtain h' where h': "kod_str_from_cstr M (?m @ [0]) h = Some (p, h')" "str_made h h' p ?m"
    using kod_str_from_cstr_made [OF assms(1,2), of "?m @ [0]"] al by (auto simp: m len)
  have "in64 (INT64_MAX div 4 - int (length bs))"
    using sb_at_range [OF assms(1) at] by (simp add: range_simps)
  then have "kod_sb_reserve M sb extra h = Some (Inl (p, h'))"
    using sb_at_loads [OF at] big h'(1) by (simp add: kod_sb_reserve_def)
  with h'(2) show ?thesis by blast
qed

section \<open>Appending\<close>

text \<open>Bytes written behind the content, and the length moved over them.\<close>

lemma sb_push:
  assumes inv: "arena_inv h" and at: "sb_at h sb bs c" and fit: "int (length bs) + int (length xs) \<le> c"
    and m: "m = wr (mem h) (ld64 (mem h) sb + int (length bs)) xs"
    and g: "g = h\<lparr>mem := st64 m (sb + 8) (int (length bs) + int (length xs))\<rparr>"
  shows "store_bytes (ld64 (mem h) sb + int (length bs)) xs h = Some (h\<lparr>mem := m\<rparr>)"
    and "changes_only (sb_foot h sb) h (h\<lparr>mem := m\<rparr>)"
    and "load64 (sb + 8) (h\<lparr>mem := m\<rparr>) = Some (int (length bs))"
    and "store64 (sb + 8) (int (length bs) + int (length xs)) (h\<lparr>mem := m\<rparr>) = Some g"
    and "sb_at g sb (bs @ xs) c" and "sb_frame sb h g"
proof -
  let ?b = "ld64 (mem h) sb"
  have o: "obj h sb 24" "obj h ?b c" and ap: "sb + 24 \<le> ?b \<or> ?b + c \<le> sb"
    and l: "ld64 (mem h) (sb + 8) = int (length bs)" "ld64 (mem h) (sb + 16) = c"
    and rdb: "rd (mem h) ?b (length bs) = bs"
    using at by (simp_all add: sb_at_def)
  have o2: "obj h (?b + int (length bs)) (int (length xs))" "obj h (sb + 8) 8"
    using fit by (auto intro: obj_sub [OF o(1)] obj_sub [OF o(2)])
  then show "store_bytes (?b + int (length bs)) xs h = Some (h\<lparr>mem := m\<rparr>)" by (simp add: m)
  show "store64 (sb + 8) (int (length bs) + int (length xs)) (h\<lparr>mem := m\<rparr>) = Some g"
    using o2 by (simp add: g)
  have lm: "ld64 m sb = ?b" "ld64 m (sb + 8) = int (length bs)" "ld64 m (sb + 16) = c"
    using ap fit l by (auto simp: m mem_simps)
  then show "load64 (sb + 8) (h\<lparr>mem := m\<rparr>) = Some (int (length bs))" using o2 by simp
  show "changes_only (sb_foot h sb) h (h\<lparr>mem := m\<rparr>)"
    by (rule changes_only_update) (use fit l in \<open>auto simp: m mem_simps sb_foot_def not_le\<close>)
  have r: "in64 (int (length bs) + int (length xs))"
    using sb_at_range [OF inv at] fit by (auto simp: range_simps)
  have lg: "ld64 (mem g) sb = ?b" "ld64 (mem g) (sb + 8) = int (length bs) + int (length xs)"
    "ld64 (mem g) (sb + 16) = c"
    using lm r by (simp_all add: g mem_simps)
  have "rd m ?b (length bs + length xs) = bs @ xs" using rdb by (simp add: m rd_wr_extend)
  moreover have "rd (mem g) ?b (length bs + length xs) = rd m ?b (length bs + length xs)"
    using ap fit by (auto simp: g intro!: rd_st64_other)
  ultimately show "sb_at g sb (bs @ xs) c"
    using at fit lg by (simp add: sb_at_def g)
  have "changes_only (sb_foot h sb) h g"
    unfolding g by (rule changes_only_update) (use fit l in \<open>auto simp: m mem_simps sb_foot_def not_le\<close>)
  moreover have "sb_foot g sb = sb_foot h sb" using lg l by (simp add: sb_foot_def)
  ultimately show "sb_frame sb h g" using inv by (simp add: sb_frame_def g)
qed

text \<open>
  The contract of an operation that appends \<open>xs\<close> to the builder: it returns when the size is
  within the limit and the arena has the room, the content grows by \<open>xs\<close>, and nothing but the
  builder changes.
\<close>

locale byte_sink =
  fixes M :: malloc_fn
    and op :: "addr \<Rightarrow> heap \<Rightarrow> heap or_panic option"
    and pre :: "addr \<Rightarrow> heap \<Rightarrow> bool"
    and xs :: "byte list"
  assumes op_appends: "arena_inv h \<Longrightarrow> malloc_ok M \<Longrightarrow> sb_at h sb bs cap \<Longrightarrow> pre sb h \<Longrightarrow>
      int (length bs) + int (length xs) \<le> INT64_MAX div 4 \<Longrightarrow>
      sb_room M h cap (int (length bs) + int (length xs)) \<Longrightarrow>
      \<exists>h' c. op sb h = Some (Inr h') \<and> sb_at h' sb (bs @ xs) c \<and>
        grown cap (int (length bs) + int (length xs)) c \<and> sb_frame sb h h'"
begin

text \<open>Within the capacity nothing is allocated, so the operation always returns.\<close>

lemma op_within_capacity:
  assumes "arena_inv h" and "malloc_ok M" and "sb_at h sb bs cap" and "pre sb h"
    and "int (length bs) + int (length xs) \<le> cap" and "cap \<le> INT64_MAX div 4"
  shows "\<exists>h'. op sb h = Some (Inr h') \<and> sb_at h' sb (bs @ xs) cap \<and> sb_frame sb h h'"
  using op_appends [OF assms(1-4)] assms(5,6) by (fastforce simp: sb_room_def grown_def)

text \<open>Strings that share no byte with the builder are unchanged.\<close>

lemma op_keeps_strings:
  assumes "arena_inv h" and "malloc_ok M" and "sb_at h sb bs cap" and "pre sb h"
    and "int (length bs) + int (length xs) \<le> INT64_MAX div 4"
    and "sb_room M h cap (int (length bs) + int (length xs))"
    and t: "str_at h t ts" "str_foot h t \<inter> sb_foot h sb = {}"
  shows "\<exists>h' c. op sb h = Some (Inr h') \<and> sb_at h' sb (bs @ xs) c \<and>
    grown cap (int (length bs) + int (length xs)) c \<and>
    str_at h' t ts \<and> str_foot h' t \<inter> sb_foot h' sb = {}"
  using op_appends [OF assms(1-6)] sb_frame_str [OF _ t] by blast

end

lemma kod_sb_append_appends:
  assumes inv: "arena_inv h" "malloc_ok M" and at: "sb_at h sb bs cap"
    and s: "str_at h s xs" "str_foot h s \<inter> sb_foot h sb = {}"
    and lim: "int (length bs) + int (length xs) \<le> INT64_MAX div 4"
    and room: "sb_room M h cap (int (length bs) + int (length xs))"
  shows "\<exists>h' c. kod_sb_append M sb s h = Some (Inr h') \<and> sb_at h' sb (bs @ xs) c \<and>
    grown cap (int (length bs) + int (length xs)) c \<and> sb_frame sb h h'"
proof -
  obtain h1 c where h1: "kod_sb_reserve M sb (int (length xs)) h = Some (Inr h1)" "sb_at h1 sb bs c"
    "grown cap (int (length bs) + int (length xs)) c" "sb_frame sb h h1"
    using kod_sb_reserve_spec [OF inv at _ lim room] by auto
  have i1: "arena_inv h1" using h1(4) by (simp add: sb_frame_def)
  note s1 = sb_frame_str [OF h1(4) s]
  define m where "m = wr (mem h1) (ld64 (mem h1) sb + int (length bs)) xs"
  define g where "g = h1\<lparr>mem := st64 m (sb + 8) (int (length bs) + int (length xs))\<rparr>"
  have fit: "int (length bs) + int (length xs) \<le> c" using h1(3) by (simp add: grown_def)
  note p = sb_push [OF i1 h1(2) fit m_def g_def]
  note s2 = str_at_foot(1) [OF s1(1) p(2) s1(2)]
  have r: "in64 (int (length bs) + int (length xs))" using lim by (simp add: range_simps)
  have "kod_sb_append M sb s h = Some (Inr g)"
    using h1(1) str_at_loads [OF s(1)] str_at_loads [OF s1(1)] str_at_all [OF s1(1)] sb_at_loads [OF h1(2)]
      str_at_loads(2) [OF s2] p(1,3,4) r
    by (simp add: kod_sb_append_def)
  with p(5,6) h1(3,4) show ?thesis using sb_frame_trans by blast
qed

lemma kod_sb_append_byte_appends:
  assumes inv: "arena_inv h" "malloc_ok M" and at: "sb_at h sb bs cap"
    and lim: "int (length bs) + 1 \<le> INT64_MAX div 4" and room: "sb_room M h cap (int (length bs) + 1)"
  shows "\<exists>h' c. kod_sb_append_byte M sb b h = Some (Inr h') \<and> sb_at h' sb (bs @ [low_byte b]) c \<and>
    grown cap (int (length bs) + 1) c \<and> sb_frame sb h h'"
proof -
  obtain h1 c where h1: "kod_sb_reserve M sb 1 h = Some (Inr h1)" "sb_at h1 sb bs c"
    "grown cap (int (length bs) + 1) c" "sb_frame sb h h1"
    using kod_sb_reserve_spec [OF inv at _ lim room] by auto
  have i1: "arena_inv h1" using h1(4) by (simp add: sb_frame_def)
  have fit: "int (length bs) + int (length [low_byte b]) \<le> c" using h1(3) by (simp add: grown_def)
  define m where "m = wr (mem h1) (ld64 (mem h1) sb + int (length bs)) [low_byte b]"
  define g where "g = h1\<lparr>mem := st64 m (sb + 8) (int (length bs) + int (length [low_byte b]))\<rparr>"
  note p = sb_push [OF i1 h1(2) fit m_def g_def]
  have r: "in64 (int (length bs) + 1)" using lim by (simp add: range_simps)
  have "kod_sb_append_byte M sb b h = Some (Inr g)"
    using h1(1) sb_at_loads [OF h1(2)] p(1,4) r by (simp add: kod_sb_append_byte_def)
  with p(5,6) h1(3,4) show ?thesis using sb_frame_trans by blast
qed

interpretation append_sink: byte_sink M "\<lambda>sb. kod_sb_append M sb s"
    "\<lambda>sb h. str_at h s xs \<and> str_foot h s \<inter> sb_foot h sb = {}" xs for M s xs
  by unfold_locales (rule kod_sb_append_appends, auto)

interpretation byte_append_sink: byte_sink M "\<lambda>sb. kod_sb_append_byte M sb b" "\<lambda>_ _. True"
    "[low_byte b]" for M b
  by unfold_locales (use kod_sb_append_byte_appends in simp)

section \<open>The other operations\<close>

lemma kod_sb_new_spec:
  assumes inv: "arena_inv h" "malloc_ok M"
    and a1: "arena_alloc M 24 h = Some (sb, h1)" and a2: "\<forall>m. arena_alloc M 32 (h1\<lparr>mem := m\<rparr>) \<noteq> None"
  shows "\<exists>h'. kod_sb_new M h = Some (sb, h') \<and> arena_inv h' \<and> extends h h' \<and> sb_at h' sb [] 32 \<and>
    sb_foot h' sb \<inter> handed h = {}"
proof -
  have iv: "arena_inv h \<and> malloc_ok M" using inv by simp
  note l1 = arena.alloc_laws [OF iv _ a1, simplified]
  define g where "g = h1\<lparr>mem := st64 (st64 (mem h1) (sb + 16) 32) (sb + 8) 0\<rparr>"
  obtain buf h2 where al2: "arena_alloc M 32 g = Some (buf, h2)"
    using a2 [THEN spec, of "mem g"] by (auto simp: g_def)
  have ig: "arena_inv g \<and> malloc_ok M" using l1 by (simp add: g_def)
  note l2 = arena.alloc_laws [OF ig _ al2, simplified]
  have o1: "obj h1 sb 24" and d1: "{sb..<sb + 24} \<inter> handed h = {}"
    using l1 by (simp_all add: fresh_obj_def)
  have os: "obj h1 sb 8" "obj h1 (sb + 8) 8" "obj h1 (sb + 16) 8" using o1 by (auto elim: obj_sub)
  have og: "obj g sb 24" "obj g sb 8" "obj g (sb + 16) 8" using o1 os by (simp_all add: g_def)
  have o2: "obj h2 buf 32" "obj h2 sb 24" "obj h2 sb 8" and d2: "{buf..<buf + 32} \<inter> handed g = {}"
    using l2 og extends_obj by (auto simp: fresh_obj_def)
  have hg: "handed h \<subseteq> handed g" using l1(2) by (auto simp: extends_def handed_def g_def)
  have sbh: "{sb..<sb + 24} \<subseteq> handed g" using og by (auto intro: obj_handed)
  then have "buf \<notin> {sb..<sb + 24}" "sb \<notin> {buf..<buf + 32}" using d2 by fastforce+
  then have ap: "sb + 24 \<le> buf \<or> buf + 32 \<le> sb" by auto
  have rb: "in64 buf" using obj_bounds [OF _ o2(1)] l2 by (auto simp: range_simps)
  have m2: "mem h2 = mem g" using l2 by simp
  define h' where "h' = h2\<lparr>mem := st64 (mem g) sb buf\<rparr>"
  have ld: "ld64 (mem h') sb = buf" "ld64 (mem h') (sb + 8) = 0" "ld64 (mem h') (sb + 16) = 32"
    using rb by (simp_all add: h'_def g_def mem_simps range_simps)
  have "kod_sb_new M h = Some (sb, h')"
    using a1 al2 os o2 og m2
    by (simp add: kod_sb_new_def sizeof_KodStrBuilder_def g_def h'_def mem_simps range_simps)
  moreover have "sb_at h' sb [] 32" using ld o2 ap by (simp add: sb_at_def h'_def)
  moreover have "extends h h'"
  proof -
    have c1: "changes_only {} h h1" and c3: "changes_only {} g h2"
      using l1(2) l2(2) by (simp_all add: changes_only_extends)
    have c2: "changes_only {sb..<sb + 24} h1 g"
      unfolding g_def by (rule changes_only_update) (auto simp: mem_simps not_le)
    have c4: "changes_only {sb..<sb + 24} h2 h'"
      unfolding h'_def m2 [symmetric] by (rule changes_only_update) (auto simp: mem_simps not_le)
    have "changes_only {} h g" using changes_only_trans [OF c1 c2] d1 by simp
    from changes_only_trans [OF this c3] have "changes_only {} h h2" by simp
    from changes_only_trans [OF this c4] have "changes_only {} h h'" using d1 by simp
    then show ?thesis by (simp add: changes_only_extends)
  qed
  moreover have "sb_foot h' sb \<inter> handed h = {}" using ld d1 d2 hg by (auto simp: sb_foot_def)
  ultimately show ?thesis using l2(1) by (auto simp: h'_def)
qed

lemma kod_sb_clear_spec:
  assumes "arena_inv h" and "sb_at h sb bs cap"
  shows "\<exists>h'. kod_sb_clear sb h = Some h' \<and> sb_at h' sb [] cap \<and> sb_frame sb h h'"
proof -
  have o: "obj h sb 24" and ap: "sb + 24 \<le> ld64 (mem h) sb \<or> ld64 (mem h) sb + cap \<le> sb"
    using assms(2) by (simp_all add: sb_at_def)
  have o8: "obj h (sb + 8) 8" using o by (rule obj_sub) auto
  define h' where "h' = h\<lparr>mem := st64 (mem h) (sb + 8) 0\<rparr>"
  have ld: "ld64 (mem h') sb = ld64 (mem h) sb" "ld64 (mem h') (sb + 8) = 0"
    "ld64 (mem h') (sb + 16) = ld64 (mem h) (sb + 16)"
    by (simp_all add: h'_def mem_simps range_simps)
  have "changes_only (sb_foot h sb) h h'"
    unfolding h'_def by (rule changes_only_update) (auto simp: mem_simps sb_foot_def not_le)
  moreover have "sb_foot h' sb = sb_foot h sb" using ld by (simp add: sb_foot_def)
  ultimately have "sb_frame sb h h'" using assms(1) by (simp add: sb_frame_def h'_def)
  moreover have "sb_at h' sb [] cap" using assms(2) ld by (simp add: sb_at_def h'_def)
  moreover have "kod_sb_clear sb h = Some h'" using o8 by (simp add: kod_sb_clear_def h'_def)
  ultimately show ?thesis by blast
qed

lemma kod_sb_to_str_made:
  assumes "arena_inv h" and "malloc_ok M" and "sb_at h sb bs cap"
    and "arena_alloc M (17 + int (length bs)) h = Some (s, h1)"
  shows "\<exists>h'. kod_sb_to_str M sb h = Some (s, h') \<and> str_made h h' s bs"
  using kod_str_from_bytes_made [OF assms(1,2,4)] sb_at_loads [OF assms(3)]
  by (simp add: kod_sb_to_str_def)

interpretation to_str: str_maker M "kod_sb_to_str M sb" "\<lambda>h. \<exists>cap. sb_at h sb bs cap" "\<lambda>_. bs"
  for M sb bs
  by unfold_locales (use kod_sb_to_str_made in blast)

section \<open>Sequences of operations\<close>

datatype sb_op = Append addr | Append_Byte int | Clear

fun sb_step :: "malloc_fn \<Rightarrow> addr \<Rightarrow> sb_op \<Rightarrow> heap \<Rightarrow> heap or_panic option" where
  "sb_step M sb (Append s) h = kod_sb_append M sb s h"
| "sb_step M sb (Append_Byte b) h = kod_sb_append_byte M sb b h"
| "sb_step M sb Clear h = map_option Inr (kod_sb_clear sb h)"

fun sb_run :: "malloc_fn \<Rightarrow> addr \<Rightarrow> sb_op list \<Rightarrow> heap \<Rightarrow> heap or_panic option" where
  "sb_run M sb [] h = Some (Inr h)"
| "sb_run M sb (x # xs) h = do {
     r \<leftarrow> sb_step M sb x h;
     (case r of Inl p \<Rightarrow> Some (Inl p) | Inr h \<Rightarrow> sb_run M sb xs h)
   }"

text \<open>What a builder means: a byte string; \<open>content s\<close> is what the string \<open>s\<close> holds.\<close>

fun sb_spec :: "(addr \<Rightarrow> byte list) \<Rightarrow> sb_op list \<Rightarrow> byte list \<Rightarrow> byte list" where
  "sb_spec content [] bs = bs"
| "sb_spec content (Append s # xs) bs = sb_spec content xs (bs @ content s)"
| "sb_spec content (Append_Byte b # xs) bs = sb_spec content xs (bs @ [low_byte b])"
| "sb_spec content (Clear # xs) bs = sb_spec content xs []"

fun op_size :: "(addr \<Rightarrow> byte list) \<Rightarrow> sb_op \<Rightarrow> int" where
  "op_size content (Append s) = int (length (content s))"
| "op_size content (Append_Byte b) = 1"
| "op_size content Clear = 0"

definition ops_ok :: "(addr \<Rightarrow> byte list) \<Rightarrow> addr \<Rightarrow> heap \<Rightarrow> sb_op list \<Rightarrow> bool" where
  "ops_ok content sb h xs \<longleftrightarrow> (\<forall>s. Append s \<in> set xs \<longrightarrow>
     str_at h s (content s) \<and> str_foot h s \<inter> sb_foot h sb = {})"

text \<open>Without the room a reserve has no defined behaviour, because \<open>malloc\<close> returns NULL for the doubled buffer.\<close>

lemma kod_sb_reserve_refused:
  assumes "arena_inv h" and "sb_at h sb bs cap" and "int (length bs) + extra \<le> INT64_MAX div 4" and "0 \<le> extra"
    and "\<not> sb_room M h cap (int (length bs) + extra)"
  shows "kod_sb_reserve M sb extra h = None \<and>
    (\<exists>n. 0 < n \<and> n < 2 * (int (length bs) + extra) \<and> malloc_refuses M n h)"
proof -
  have r: "in64 (INT64_MAX div 4 - int (length bs))" "in64 (int (length bs) + extra)"
    using sb_at_range [OF assms(1,2)] assms(3,4) by (auto simp: range_simps)
  have cap: "0 < cap" "cap \<le> INT64_MAX" using sb_at_range [OF assms(1,2)] assms(2) by (simp_all add: sb_at_def)
  obtain c where c: "cap < int (length bs) + extra" "double_until cap (int (length bs) + extra) = Some c"
    "arena_alloc M c h = None" using assms(5) unfolding sb_room_def by blast
  then have b: "int (length bs) + extra \<le> c" "c < 2 * (int (length bs) + extra)"
    using double_until_returns [of cap "int (length bs) + extra"] cap assms(3) by (auto simp: INT64_MAX_def)
  have "0 < c" using b(1) c(1) cap(1) by linarith
  moreover have "in64 (c + 7)" using b assms(3) \<open>0 < c\<close> by (auto simp: range_simps)
  ultimately have "malloc_refuses M c h" using arena_alloc_eq_None [OF assms(1), of c M] c(3) by simp
  moreover have "kod_sb_reserve M sb extra h = None"
    using r assms(3) c sb_at_loads [OF assms(2)] by (simp add: kod_sb_reserve_def)
  ultimately show ?thesis using b \<open>0 < c\<close> by blast
qed

text \<open>
  One operation does what the abstract builder does, or stops because \<open>malloc\<close> returns NULL for a buffer of less than twice the
  bytes it needs.
\<close>

definition sb_stops :: "malloc_fn \<Rightarrow> int \<Rightarrow> heap \<Rightarrow> bool" where
  "sb_stops M need h \<longleftrightarrow> (\<exists>n. 0 < n \<and> n < 2 * need \<and> malloc_refuses M n h)"

lemma sb_stops_mono: "sb_stops M k h \<Longrightarrow> k \<le> n \<Longrightarrow> sb_stops M n h"
  by (fastforce simp: sb_stops_def)

lemma sb_step_refines:
  assumes inv: "arena_inv h" "malloc_ok M" and at: "sb_at h sb bs cap"
    and ok: "ops_ok content sb h [x]" and lim: "int (length bs) + op_size content x \<le> INT64_MAX div 4"
  shows "(\<exists>h' c. sb_step M sb x h = Some (Inr h') \<and> sb_at h' sb (sb_spec content [x] bs) c \<and> sb_frame sb h h') \<or>
    sb_step M sb x h = None \<and> sb_stops M (int (length bs) + op_size content x) h"
proof (cases "\<exists>h'. kod_sb_clear sb h = Some h' \<and> x = Clear")
  case True
  then show ?thesis using kod_sb_clear_spec [OF inv(1) at] by auto
next
  case False
  then have x: "x \<noteq> Clear" using kod_sb_clear_spec [OF inv(1) at] by auto
  then have sz: "0 \<le> op_size content x" by (cases x) auto
  show ?thesis
  proof (cases "sb_room M h cap (int (length bs) + op_size content x)")
    case room: True
    show ?thesis
    proof (cases x)
      case (Append s)
      then have s: "str_at h s (content s)" "str_foot h s \<inter> sb_foot h sb = {}" using ok by (auto simp: ops_ok_def)
      show ?thesis using kod_sb_append_appends [OF inv at s] room lim Append by fastforce
    next
      case (Append_Byte b)
      then show ?thesis using kod_sb_append_byte_appends [OF inv at] room lim by fastforce
    qed (use x in simp)
  next
    case no: False
    note n = kod_sb_reserve_refused [OF inv(1) at lim sz no]
    have "sb_step M sb x h = None"
    proof (cases x)
      case (Append s)
      then have "str_at h s (content s)" using ok by (simp add: ops_ok_def)
      then show ?thesis using Append n str_at_loads [of h s "content s"] by (simp add: kod_sb_append_def)
    next
      case (Append_Byte b)
      then show ?thesis using n by (simp add: kod_sb_append_byte_def)
    qed (use x in simp)
    then show ?thesis using n by (simp add: sb_stops_def)
  qed
qed

lemma ops_ok_frame:
  assumes "ops_ok content sb h xs" and "sb_frame sb h h'"
  shows "ops_ok content sb h' xs"
  using assms sb_frame_str [OF assms(2)] unfolding ops_ok_def by blast

lemma length_sb_spec1:
  "int (length (sb_spec content [x] bs)) \<le> int (length bs) + op_size content x"
  by (cases x) auto

lemma op_size_nonneg: "0 \<le> sum_list (map (op_size content) xs)"
proof (induction xs)
  case (Cons x xs)
  then show ?case by (cases x) auto
qed simp

lemma sb_spec_Cons: "sb_spec content (x # xs) bs = sb_spec content xs (sb_spec content [x] bs)"
  by (cases x) auto

lemma sb_run_refines:
  assumes "arena_inv h" and "malloc_ok M" and "sb_at h sb bs cap" and "ops_ok content sb h xs"
    and "int (length bs) + sum_list (map (op_size content) xs) \<le> INT64_MAX div 4"
  shows "(\<exists>h' c. sb_run M sb xs h = Some (Inr h') \<and> sb_at h' sb (sb_spec content xs bs) c \<and> sb_frame sb h h') \<or>
    sb_run M sb xs h = None \<and> (\<exists>ys x zs h1. xs = ys @ x # zs \<and> sb_run M sb ys h = Some (Inr h1) \<and>
      sb_stops M (int (length bs) + sum_list (map (op_size content) xs)) h1)"
  using assms
proof (induction xs arbitrary: h bs cap)
  case Nil
  then show ?case using sb_frame_refl by auto
next
  case (Cons x xs)
  let ?total = "int (length bs) + sum_list (map (op_size content) (x # xs))"
  have ok1: "ops_ok content sb h [x]" "ops_ok content sb h xs"
    using Cons.prems(4) by (auto simp: ops_ok_def)
  have lim: "int (length bs) + op_size content x \<le> ?total" using op_size_nonneg [of content xs] by simp
  consider (steps) h1 c where "sb_step M sb x h = Some (Inr h1)" "sb_at h1 sb (sb_spec content [x] bs) c" "sb_frame sb h h1"
    | (stops) "sb_step M sb x h = None" "sb_stops M (int (length bs) + op_size content x) h"
    using sb_step_refines [OF Cons.prems(1-3) ok1(1)] lim Cons.prems(5) by auto
  then show ?case
  proof cases
    case stops
    have "sb_run M sb (x # xs) h = None" "sb_run M sb [] h = Some (Inr h)" using stops(1) by simp_all
    then show ?thesis using sb_stops_mono [OF stops(2) lim] by blast
  next
    case steps
    have i1: "arena_inv h1" using steps(3) by (simp add: sb_frame_def)
    have run: "sb_run M sb (x # ys) h = sb_run M sb ys h1" for ys using steps(1) by simp
    have le: "int (length (sb_spec content [x] bs)) + sum_list (map (op_size content) xs) \<le> ?total"
      using length_sb_spec1 [of content x bs] by simp
    from Cons.IH [OF i1 Cons.prems(2) steps(2) ops_ok_frame [OF ok1(2) steps(3)]] le Cons.prems(5)
    consider (all) h' c' where "sb_run M sb xs h1 = Some (Inr h')" "sb_at h' sb (sb_spec content (x # xs) bs) c'" "sb_frame sb h1 h'"
      | (later) ys y zs h2 where "sb_run M sb xs h1 = None" "xs = ys @ y # zs" "sb_run M sb ys h1 = Some (Inr h2)"
        "sb_stops M (int (length (sb_spec content [x] bs)) + sum_list (map (op_size content) xs)) h2"
      unfolding sb_spec_Cons [of content x xs bs] by fastforce
    then show ?thesis
    proof cases
      case all
      then show ?thesis using run sb_frame_trans [OF steps(3)] by metis
    next
      case later
      have "x # xs = (x # ys) @ y # zs" using later(2) by simp
      then show ?thesis using run later(1,3) sb_stops_mono [OF later(4) le] by metis
    qed
  qed
qed

text \<open>A run that stays within the capacity allocates nothing and always returns.\<close>

lemma sb_run_within_capacity:
  assumes "arena_inv h" and "malloc_ok M" and "sb_at h sb bs cap" and "ops_ok content sb h xs"
    and "int (length bs) + sum_list (map (op_size content) xs) \<le> cap" and "cap \<le> INT64_MAX div 4"
  shows "\<exists>h'. sb_run M sb xs h = Some (Inr h')"
  using assms
proof (induction xs arbitrary: h bs)
  case Nil
  then show ?case by simp
next
  case (Cons x xs)
  note nn = op_size_nonneg [of content xs]
  have ok: "ops_ok content sb h [x]" "ops_ok content sb h xs"
    using Cons.prems(4) by (auto simp: ops_ok_def)
  have fit: "int (length bs) + op_size content x \<le> cap" using Cons.prems(5) nn by simp
  have "\<exists>h1. sb_step M sb x h = Some (Inr h1) \<and> sb_at h1 sb (sb_spec content [x] bs) cap \<and> sb_frame sb h h1"
  proof (cases x)
    case (Append s)
    then show ?thesis
      using append_sink.op_within_capacity [OF Cons.prems(1-3), where s = s and xs = "content s"]
        ok(1) fit Cons.prems(6) by (simp add: ops_ok_def)
  next
    case (Append_Byte b)
    then show ?thesis
      using byte_append_sink.op_within_capacity [OF Cons.prems(1-3), of b] fit Cons.prems(6) by simp
  next
    case Clear
    then show ?thesis using kod_sb_clear_spec [OF Cons.prems(1,3)] by auto
  qed
  then obtain h1 where h1: "sb_step M sb x h = Some (Inr h1)"
    "sb_at h1 sb (sb_spec content [x] bs) cap" "sb_frame sb h h1" by blast
  have i1: "arena_inv h1" using h1(3) by (simp add: sb_frame_def)
  have "int (length (sb_spec content [x] bs)) + sum_list (map (op_size content) xs) \<le> cap"
    using Cons.prems(5) length_sb_spec1 [of content x bs] by simp
  from Cons.IH [OF i1 Cons.prems(2) h1(2) ops_ok_frame [OF ok(2) h1(3)] this Cons.prems(6)] h1(1)
  show ?case by simp
qed

section \<open>A builder for the witnesses\<close>

definition demo_sb :: heap where
  "demo_sb = snd (the (kod_sb_new bump_malloc demo_heap))"

lemma demo_sb_facts:
  "arena_inv demo_sb \<and> sb_at demo_sb 88 [] 32 \<and> str_at demo_sb 40 [1, 2] \<and> str_at demo_sb 64 [3] \<and>
   str_foot demo_sb 40 \<inter> sb_foot demo_sb 88 = {} \<and> str_foot demo_sb 64 \<inter> sb_foot demo_sb 88 = {} \<and>
   kod_sb_new bump_malloc demo_heap = Some (88, demo_sb)"
proof -
  have i: "arena_inv demo_heap" and s: "str_at demo_heap 40 [1, 2]" "str_at demo_heap 64 [3]"
    and c: "current_block demo_heap = [\<lparr>blk = 16, current = 88, block_end = 4194344\<rparr>]"
    using demo_heap_facts by auto
  obtain h1 where a: "arena_alloc bump_malloc 24 demo_heap = Some (88, h1)"
    using c by (simp add: arena_eval)
  then have "current_block h1 = [\<lparr>blk = 16, current = 112, block_end = 4194344\<rparr>]"
    using c by (auto simp: arena_eval)
  then have "\<forall>m. arena_alloc bump_malloc 32 (h1\<lparr>mem := m\<rparr>) \<noteq> None" by (simp add: arena_eval)
  from kod_sb_new_spec [OF i bump_malloc_ok a this] obtain h'
    where n: "kod_sb_new bump_malloc demo_heap = Some (88, h')" "arena_inv h'" "extends demo_heap h'"
      "sb_at h' 88 [] 32" "sb_foot h' 88 \<inter> handed demo_heap = {}" by blast
  have d: "demo_sb = h'" by (simp add: demo_sb_def n(1))
  have e: "changes_only {} demo_heap h'" using n(3) by (simp add: changes_only_extends)
  note f = str_at_foot [OF s(1) e] str_at_foot [OF s(2) e]
  show ?thesis
    using n f d by (auto simp: disjoint_iff subset_iff)
qed

lemma demo_sb_block: "current_block demo_sb = [\<lparr>blk = 16, current = 144, block_end = 4194344\<rparr>]"
proof -
  have "kod_sb_new bump_malloc demo_heap = Some (88, demo_sb)"
    and "current_block demo_heap = [\<lparr>blk = 16, current = 88, block_end = 4194344\<rparr>]"
    using demo_sb_facts demo_heap_facts by auto
  then have "demo_heap\<lparr>current_block := [\<lparr>blk = 16, current = 144, block_end = 4194344\<rparr>],
      mem := st64 (st64 (st64 (mem demo_heap) 104 32) 96 0) 88 112\<rparr> = demo_sb"
    by (simp add: kod_sb_new_def sizeof_KodStrBuilder_def str_eval)
  then show ?thesis by (simp flip: \<open>_ = demo_sb\<close>)
qed

section \<open>Properties of the builder\<close>

text \<open>
  C8. Appending a string to a builder adds exactly its bytes at the end. A buffer that is large enough keeps its capacity; one that is
  too small is doubled until it is large enough, which is to less than twice the need. No string apart from the builder changes, and
  all stay apart from it.
\<close>

theorem kod_sb_append_correct:
  assumes "arena_inv h" and "malloc_ok M" and "sb_at h sb bs cap"
    and "str_at h s xs" and "str_foot h s \<inter> sb_foot h sb = {}"
    and "int (length bs) + int (length xs) \<le> INT64_MAX div 4"
    and "sb_room M h cap (int (length bs) + int (length xs))"
    and "str_at h t ts" and "str_foot h t \<inter> sb_foot h sb = {}"
  shows "\<exists>h' c. kod_sb_append M sb s h = Some (Inr h') \<and> sb_at h' sb (bs @ xs) c \<and>
    grown cap (int (length bs) + int (length xs)) c \<and>
    str_at h' t ts \<and> str_foot h' t \<inter> sb_foot h' sb = {}"
  using append_sink.op_keeps_strings [OF assms(1-3) conjI [OF assms(4,5)] assms(6-9)] .

theorem kod_sb_append_correct_witness:
  "\<exists>h'. kod_sb_append bump_malloc 88 40 demo_sb = Some (Inr h') \<and> sb_at h' 88 [1, 2] 32 \<and>
    str_at h' 64 [3]"
  using kod_sb_append_correct [of demo_sb bump_malloc 88 "[]" 32 40 "[1, 2]" 64 "[3]"]
    demo_sb_facts bump_malloc_ok
  by (auto simp: sb_room_def grown_def INT64_MAX_def)

text \<open>
  C9. Any sequence of appends and clears within a quarter of the address range leaves in the builder what the same operations leave
  of a plain byte string, and \<open>kod_sb_to_str\<close> then copies that out. The one way for it to go wrong is that \<open>malloc\<close> returns NULL
  to an operation of the sequence, for a buffer of less than twice the bytes appended in all: every operation before it is done.
\<close>

theorem sb_run_builds:
  assumes "arena_inv h" and "malloc_ok M" and "sb_at h sb bs cap" and "ops_ok content sb h xs"
    and "int (length bs) + sum_list (map (op_size content) xs) \<le> INT64_MAX div 4"
  shows "(\<exists>h'. sb_run M sb xs h = Some (Inr h') \<and> (\<exists>c. sb_at h' sb (sb_spec content xs bs) c) \<and> (\<forall>s h1.
      arena_alloc M (17 + int (length (sb_spec content xs bs))) h' = Some (s, h1) \<longrightarrow>
      (\<exists>h''. kod_sb_to_str M sb h' = Some (s, h'') \<and> str_at h'' s (sb_spec content xs bs)))) \<or>
    sb_run M sb xs h = None \<and> (\<exists>ys x zs h1 n. xs = ys @ x # zs \<and> sb_run M sb ys h = Some (Inr h1) \<and>
      0 < n \<and> n < 2 * (int (length bs) + sum_list (map (op_size content) xs)) \<and> malloc_refuses M n h1)"
  using sb_run_refines [OF assms]
proof (elim disjE exE conjE)
  fix h' c assume h': "sb_run M sb xs h = Some (Inr h')" "sb_at h' sb (sb_spec content xs bs) c" "sb_frame sb h h'"
  have "arena_inv h'" using h'(3) by (simp add: sb_frame_def)
  then show ?thesis
    using h'(1,2) kod_sb_to_str_made [OF _ assms(2) h'(2)] by (auto simp: str_made_def)
next
  fix ys x zs h1
  let ?total = "int (length bs) + sum_list (map (op_size content) xs)"
  assume r: "sb_run M sb xs h = None" "xs = ys @ x # zs" "sb_run M sb ys h = Some (Inr h1)" and "sb_stops M ?total h1"
  then obtain n where "0 < n \<and> n < 2 * ?total \<and> malloc_refuses M n h1" by (auto simp: sb_stops_def)
  with r show ?thesis by (intro disjI2 conjI exI [of _ ys] exI [of _ x] exI [of _ zs] exI [of _ h1] exI [of _ n]) simp_all
qed

text \<open>A builder of one byte, which has to grow.\<close>

theorem sb_run_builds_witness:
  "\<exists>h'. sb_run bump_malloc 88 [Clear, Append 40] (demo_sb\<lparr>mem := st64 (mem demo_sb) 104 1\<rparr>) = Some (Inr h') \<and>
    (\<exists>c. sb_at h' 88 [1, 2] c)"
proof -
  let ?h = "demo_sb\<lparr>mem := st64 (mem demo_sb) 104 1\<rparr>" and ?xs = "[Clear, Append 40]"
  define content where "content = (\<lambda>s :: addr. [1, 2 :: byte])"
  have d: "arena_inv demo_sb" "sb_at demo_sb 88 [] 32" "str_at demo_sb 40 [1, 2]" "str_foot demo_sb 40 \<inter> sb_foot demo_sb 88 = {}"
    using demo_sb_facts by auto
  have c: "changes_only {104..<112} demo_sb ?h" by (rule changes_only_update) (auto simp: mem_simps not_le)
  have "{104..<112} \<subseteq> sb_foot demo_sb 88" by (auto simp: sb_foot_def)
  then have "str_foot demo_sb 40 \<inter> {104..<112} = {}" using d(4) by blast
  note s = str_at_foot [OF d(3) c this]
  have ld: "ld64 (mem ?h) 88 = ld64 (mem demo_sb) 88" "ld64 (mem ?h) 96 = 0" "ld64 (mem ?h) 104 = 1"
    using d(2) by (simp_all add: mem_simps range_simps sb_at_def)
  have at: "sb_at ?h 88 [] 1"
    using d(2) ld by (auto simp: sb_at_def intro: obj_sub)
  have "sb_foot ?h 88 \<subseteq> sb_foot demo_sb 88" using d(2) ld by (auto simp: sb_foot_def sb_at_def)
  then have ok: "ops_ok content 88 ?h ?xs" using s d(4) by (auto simp: ops_ok_def content_def)
  have room: "\<not> malloc_refuses bump_malloc n (demo_sb\<lparr>mem := m\<rparr>)" if "0 < n" "n < 4" for n m
    using that demo_sb_block round8_bounds(2) [of n] by (simp add: malloc_refuses_def fits_def)
  have clear: "sb_run bump_malloc 88 [Clear] ?h = Some (Inr (demo_sb\<lparr>mem := st64 (mem ?h) 96 0\<rparr>))"
    using sb_at_loads(2) [OF at] by (simp add: kod_sb_clear_def store64_def load64_def split: if_splits)
  have "ys = [] \<or> ys = [Clear]" if "?xs = ys @ x # zs" for ys x zs using that by (auto simp: Cons_eq_append_conv)
  then show ?thesis
    using sb_run_builds [OF _ bump_malloc_ok at ok] d(1) clear room by (fastforce simp: content_def INT64_MAX_def)
qed

text \<open>
  Reserving room that would take the builder past a quarter of the 64-bit range ends in the
  panic ``string builder is too large'' instead of overflowing; no object is touched.
\<close>

theorem kod_sb_reserve_too_large:
  assumes "arena_inv h" and "malloc_ok M" and "sb_at h sb bs cap"
    and "INT64_MAX div 4 - int (length bs) < extra"
    and "arena_alloc M 44 h = Some (p, h1)"
  shows "\<exists>h'. kod_sb_reserve M sb extra h = Some (Inl (p, h')) \<and> extends h h' \<and>
    str_at h' p (bytes_of ''string builder is too large'')"
  using kod_sb_reserve_panics [OF assms] by (auto simp: str_made_def)

theorem kod_sb_reserve_too_large_witness:
  "\<exists>p h'. kod_sb_reserve bump_malloc 88 INT64_MAX demo_sb = Some (Inl (p, h'))"
proof -
  have "arena_alloc bump_malloc 44 demo_sb \<noteq> None"
    by (simp add: arena_eval demo_sb_block)
  then obtain p h1 where "arena_alloc bump_malloc 44 demo_sb = Some (p, h1)" by auto
  from kod_sb_reserve_too_large [OF _ bump_malloc_ok _ _ this, of 88 "[]" 32 INT64_MAX] demo_sb_facts
  show ?thesis by (auto simp: INT64_MAX_def)
qed

end
