(* ===== verification/Kod_Array.thy ===== *)
theory Kod_Array
  imports Kod_Str
begin

text \<open>
  Kod arrays: \<open>KodArray\<close> of stdlib/kod_rt.h and the array functions of stdlib/runtime.c.

  A \<open>KodArray *\<close> is the address of a 24-byte header: \<open>ptr\<close> at offset 0, \<open>len\<close> at 8, \<open>cap\<close>
  at 16; the elements are 8-byte slots. \<open>arr_at h a xs cap\<close>: the array \<open>a\<close> holds the slots
  \<open>xs\<close> in a buffer of \<open>cap\<close> slots. \<open>kod_array_concat\<close> appends in place, so its contract
  names the bytes it may change (\<open>arr_foot\<close>) and covers an array appended to itself; the
  copying functions share the contract \<open>arr_maker\<close>.
\<close>

section \<open>Operations\<close>

definition sizeof_KodArray :: int where
  "sizeof_KodArray = 24"

text \<open>
  The lines by which \<open>kod_array_slice\<close>, \<open>kod_array_copy\<close> and \<open>kod_array_concat_new\<close> each
  begin: a header, a buffer for \<open>len\<close> slots, and the three fields.
\<close>

definition fresh_array :: "malloc_fn \<Rightarrow> int \<Rightarrow> heap \<Rightarrow> (addr \<times> heap) option" where
  "fresh_array M len h = do {
     (out, h) \<leftarrow> arena_alloc M sizeof_KodArray h;
     n \<leftarrow> chk64 (if len > 0 then len * 8 else 8);
     (p, h) \<leftarrow> arena_alloc M n h;
     h \<leftarrow> store64 out p h;
     h \<leftarrow> store64 (out + 8) len h;
     h \<leftarrow> store64 (out + 16) len h;
     Some (out, h)
   }"

definition kod_array_slice :: "malloc_fn \<Rightarrow> addr \<Rightarrow> int \<Rightarrow> int \<Rightarrow> heap \<Rightarrow> (addr \<times> heap) option" where
  "kod_array_slice M src start stop h = do {
     slen \<leftarrow> load64 (src + 8) h;
     let (start, len) = clamp_slice slen start stop;
     (out, h) \<leftarrow> fresh_array M len h;
     h \<leftarrow> (if len > 0 then do {
             optr \<leftarrow> load64 out h;
             sptr \<leftarrow> load64 src h;
             bs \<leftarrow> load_bytes (sptr + start * 8) (len * 8) h;
             store_bytes optr bs h
           } else Some h);
     Some (out, h)
   }"

definition kod_array_copy :: "malloc_fn \<Rightarrow> addr \<Rightarrow> heap \<Rightarrow> (addr \<times> heap) option" where
  "kod_array_copy M src h = do {
     len \<leftarrow> load64 (src + 8) h;
     (out, h) \<leftarrow> fresh_array M len h;
     len \<leftarrow> load64 (src + 8) h;
     h \<leftarrow> (if len > 0 then do {
             optr \<leftarrow> load64 out h;
             sptr \<leftarrow> load64 src h;
             bs \<leftarrow> load_bytes sptr (len * 8) h;
             store_bytes optr bs h
           } else Some h);
     Some (out, h)
   }"

definition kod_array_concat_new :: "malloc_fn \<Rightarrow> addr \<Rightarrow> addr \<Rightarrow> heap \<Rightarrow> (addr \<times> heap) option" where
  "kod_array_concat_new M lhs rhs h = do {
     llen \<leftarrow> load64 (lhs + 8) h;
     rlen \<leftarrow> load64 (rhs + 8) h;
     total \<leftarrow> chk64 (llen + rlen);
     (out, h) \<leftarrow> fresh_array M total h;
     llen \<leftarrow> load64 (lhs + 8) h;
     h \<leftarrow> (if llen > 0 then do {
             optr \<leftarrow> load64 out h;
             lptr \<leftarrow> load64 lhs h;
             bs \<leftarrow> load_bytes lptr (llen * 8) h;
             store_bytes optr bs h
           } else Some h);
     rlen \<leftarrow> load64 (rhs + 8) h;
     h \<leftarrow> (if rlen > 0 then do {
             optr \<leftarrow> load64 out h;
             llen \<leftarrow> load64 (lhs + 8) h;
             rptr \<leftarrow> load64 rhs h;
             bs \<leftarrow> load_bytes rptr (rlen * 8) h;
             store_bytes (optr + llen * 8) bs h
           } else Some h);
     Some (out, h)
   }"

text \<open>
  The element loops \<open>for (i = 0; i < *lenp; i++) dst[base + i] = src[i]\<close>. The bound and the
  base are read from memory at every turn, as the C code does.
\<close>

partial_function (option) copy_slots ::
    "addr \<Rightarrow> (heap \<Rightarrow> int option) \<Rightarrow> addr \<Rightarrow> addr \<Rightarrow> int \<Rightarrow> heap \<Rightarrow> heap option" where
  "copy_slots lenp base dst src i h = do {
     n \<leftarrow> load64 lenp h;
     if i < n then do {
       v \<leftarrow> load64 (src + 8 * i) h;
       b \<leftarrow> base h;
       h \<leftarrow> store64 (dst + 8 * (b + i)) v h;
       copy_slots lenp base dst src (i + 1) h
     } else Some h
   }"

definition kod_array_concat :: "malloc_fn \<Rightarrow> addr \<Rightarrow> addr \<Rightarrow> heap \<Rightarrow> (addr \<times> heap) option" where
  "kod_array_concat M lhs rhs h = do {
     llen \<leftarrow> load64 (lhs + 8) h;
     rlen \<leftarrow> load64 (rhs + 8) h;
     total \<leftarrow> chk64 (llen + rlen);
     lcap \<leftarrow> load64 (lhs + 16) h;
     h \<leftarrow> (if lcap < total then do {
             new_cap \<leftarrow> double_until (if lcap > 0 then lcap else 4) total;
             n \<leftarrow> chk64 (new_cap * 8);
             (buf, h) \<leftarrow> arena_alloc M n h;
             sl \<leftarrow> load64 lhs h;
             h \<leftarrow> copy_slots (lhs + 8) (\<lambda>_. Some 0) buf sl 0 h;
             h \<leftarrow> store64 lhs buf h;
             store64 (lhs + 16) new_cap h
           } else Some h);
     dst \<leftarrow> load64 lhs h;
     sr \<leftarrow> load64 rhs h;
     h \<leftarrow> copy_slots (rhs + 8) (load64 (lhs + 8)) dst sr 0 h;
     h \<leftarrow> store64 (lhs + 8) total h;
     Some (lhs, h)
   }"

fun pack_loop :: "addr \<Rightarrow> addr \<Rightarrow> nat \<Rightarrow> int \<Rightarrow> heap \<Rightarrow> heap option" where
  "pack_loop s src 0 i h = Some h"
| "pack_loop s src (Suc k) i h = do {
     v \<leftarrow> load64 (src + 8 * i) h;
     buf \<leftarrow> load64 s h;
     h \<leftarrow> store_bytes (buf + i) [low_byte v] h;
     pack_loop s src k (i + 1) h
   }"

definition kod_bytes_from_array :: "malloc_fn \<Rightarrow> addr \<Rightarrow> heap \<Rightarrow> (addr \<times> heap) option" where
  "kod_bytes_from_array M arr h = do {
     len \<leftarrow> load64 (arr + 8) h;
     (s, h) \<leftarrow> kod_str_alloc M len h;
     src \<leftarrow> load64 arr h;
     h \<leftarrow> pack_loop s src (nat len) 0 h;
     Some (s, h)
   }"

section \<open>Well-formed arrays\<close>

definition arr_at :: "heap \<Rightarrow> addr \<Rightarrow> int list \<Rightarrow> int \<Rightarrow> bool" where
  "arr_at h a xs cap \<longleftrightarrow>
     obj h a 24 \<and> ld64 (mem h) (a + 8) = int (length xs) \<and> ld64 (mem h) (a + 16) = cap \<and>
     int (length xs) \<le> cap \<and> (0 < cap \<longrightarrow> obj h (ld64 (mem h) a) (8 * cap)) \<and>
     (a + 24 \<le> ld64 (mem h) a \<or> ld64 (mem h) a + 8 * cap \<le> a) \<and>
     slots_of (rd (mem h) (ld64 (mem h) a) (8 * length xs)) = xs"

definition arr_foot :: "heap \<Rightarrow> addr \<Rightarrow> addr set" where
  "arr_foot h a = {a..<a + 24} \<union>
     {ld64 (mem h) a..<ld64 (mem h) a + 8 * ld64 (mem h) (a + 16)}"

lemma arr_at_foot:
  assumes at: "arr_at h a xs cap" and c: "changes_only F h h'" and off: "arr_foot h a \<inter> F = {}"
  shows "arr_at h' a xs cap" and "arr_foot h' a = arr_foot h a" and "arr_foot h a \<subseteq> handed h"
proof -
  let ?p = "ld64 (mem h) a"
  have o: "obj h a 24" "0 < cap \<Longrightarrow> obj h ?p (8 * cap)" and k: "ld64 (mem h) (a + 16) = cap"
    and n: "ld64 (mem h) (a + 8) = int (length xs)" "int (length xs) \<le> cap"
    using at by (simp_all add: arr_at_def)
  have d: "{a..<a + 24} \<inter> F = {}" "{?p..<?p + 8 * cap} \<inter> F = {}"
    using off k by (auto simp: arr_foot_def)
  have ld: "ld64 (mem h') a = ?p" "ld64 (mem h') (a + 8) = int (length xs)" "ld64 (mem h') (a + 16) = cap"
    using n(1) k c d(1) by (auto simp: changes_only_ld64 obj_sub [OF o(1)] disjoint_iff)
  have "rd (mem h') ?p (8 * length xs) = rd (mem h) ?p (8 * length xs)"
  proof (cases "0 < cap")
    case True
    then have "obj h ?p (int (8 * length xs))" using o(2) n(2) by (auto elim: obj_sub)
    then show ?thesis using c d(2) n(2) by (intro changes_only_rd) (auto simp: disjoint_iff)
  next
    case False
    then have "xs = []" using n(2) by (cases xs) auto
    then show ?thesis by simp
  qed
  then show "arr_at h' a xs cap" using at ld changes_only_obj [OF c] by (simp add: arr_at_def)
  show "arr_foot h' a = arr_foot h a" by (simp add: arr_foot_def ld k)
  show "arr_foot h a \<subseteq> handed h"
    using o k by (auto simp: arr_foot_def intro: obj_handed)
qed

lemma arr_at_extends:
  assumes "arr_at h a xs cap" and "extends h h'"
  shows "arr_at h' a xs cap" and "arr_foot h' a = arr_foot h a" and "arr_foot h a \<subseteq> handed h"
  using arr_at_foot [OF assms(1), of "{}" h'] assms(2) by (simp_all add: changes_only_extends)

lemma arr_at_loads:
  assumes "arr_at h a xs cap"
  shows "load64 a h = Some (ld64 (mem h) a)" and "load64 (a + 8) h = Some (int (length xs))"
    and "load64 (a + 16) h = Some cap"
proof -
  have o: "obj h a 24" using assms by (simp add: arr_at_def)
  have "obj h a 8" "obj h (a + 8) 8" "obj h (a + 16) 8" by (auto intro: obj_sub [OF o])
  then show "load64 a h = Some (ld64 (mem h) a)" "load64 (a + 8) h = Some (int (length xs))"
    "load64 (a + 16) h = Some cap"
    using assms by (simp_all add: arr_at_def)
qed

text \<open>The slots from \<open>k\<close> on, \<open>n\<close> of them, as \<open>memcpy\<close> reads them.\<close>

lemma arr_at_part:
  assumes "arr_at h a xs cap" and "0 \<le> k" and "0 < n" and "k + n \<le> int (length xs)"
  shows "\<exists>bs. load_bytes (ld64 (mem h) a + k * 8) (n * 8) h = Some bs \<and> length bs = 8 * nat n \<and>
    slots_of bs = take (nat n) (drop (nat k) xs)"
proof -
  let ?p = "ld64 (mem h) a"
  have "0 < cap" "obj h ?p (8 * cap)" "int (length xs) \<le> cap"
    using assms by (auto simp: arr_at_def)
  then have o: "obj h (?p + k * 8) (n * 8)" using assms(2-4) by (auto elim: obj_sub)
  let ?all = "rd (mem h) ?p (8 * length xs)"
  have "8 * nat k + 8 * nat n \<le> 8 * length xs" using assms(2-4) by linarith
  then have "take (8 * nat n) (drop (8 * nat k) ?all) = rd (mem h) (?p + int (8 * nat k)) (8 * nat n)"
    by (rule rd_sub)
  moreover have "slots_of (take (8 * nat n) (drop (8 * nat k) ?all)) = take (nat n) (drop (nat k) (slots_of ?all))"
    using assms(2-4) by (intro slots_of_part [of _ "length xs"]) auto
  moreover have "slots_of ?all = xs" using assms(1) by (simp add: arr_at_def)
  moreover have "?p + int (8 * nat k) = ?p + k * 8" "nat (n * 8) = 8 * nat n"
    using assms(2,3) by (auto simp: nat_mult_distrib)
  ultimately show ?thesis using o assms(3) by (simp add: mult.commute)
qed

section \<open>A new array\<close>

definition new_arr :: "heap \<Rightarrow> heap \<Rightarrow> addr \<Rightarrow> addr \<Rightarrow> int \<Rightarrow> bool" where
  "new_arr h h' a p n \<longleftrightarrow> arena_inv h' \<and> extends h h' \<and> obj h' a 24 \<and> obj h' p (8 * n) \<and>
     {a..<a + 24} \<inter> handed h = {} \<and> {p..<p + 8 * n} \<inter> handed h = {} \<and>
     (a + 24 \<le> p \<or> p + 8 * n \<le> a) \<and>
     ld64 (mem h') a = p \<and> ld64 (mem h') (a + 8) = n \<and> ld64 (mem h') (a + 16) = n"

text \<open>The two allocations of a new array succeed.\<close>

definition arr_room :: "malloc_fn \<Rightarrow> heap \<Rightarrow> int \<Rightarrow> addr \<Rightarrow> bool" where
  "arr_room M h n a \<longleftrightarrow> (\<exists>h1. arena_alloc M 24 h = Some (a, h1) \<and>
     arena_alloc M (if n > 0 then n * 8 else 8) h1 \<noteq> None)"

lemma fresh_array_spec:
  assumes inv: "arena_inv h" "malloc_ok M" and n: "0 \<le> n" and room: "arr_room M h n a"
  shows "\<exists>h' p. fresh_array M n h = Some (a, h') \<and> new_arr h h' a p n"
proof -
  define k where "k = (if n > 0 then n * 8 else 8)"
  obtain h1 p h2 where a1: "arena_alloc M 24 h = Some (a, h1)" and a2: "arena_alloc M k h1 = Some (p, h2)"
    using room by (auto simp: arr_room_def k_def)
  have k: "0 < k" "8 * n \<le> k" "in64 k" "in64 n"
    using a2 n by (auto simp: k_def arena_alloc_def range_simps split: Option.bind_splits if_splits)
  have iv: "arena_inv h \<and> malloc_ok M" using inv by simp
  note l1 = arena.alloc_laws [OF iv _ a1, simplified]
  have iv1: "arena_inv h1 \<and> malloc_ok M" using l1 by simp
  note l2 = arena.alloc_laws [OF iv1 less_imp_le [OF k(1)] a2]
  have o1: "obj h1 a 24" "{a..<a + 24} \<inter> handed h = {}" and o2: "obj h2 p k" "{p..<p + k} \<inter> handed h1 = {}"
    using l1 l2 by (simp_all add: fresh_obj_def)
  have oa: "obj h2 a 24" using o1(1) l2(2) extends_obj by blast
  have os: "obj h2 a 8" "obj h2 (a + 8) 8" "obj h2 (a + 16) 8" by (auto intro: obj_sub [OF oa])
  have hh: "handed h \<subseteq> handed h1" using l1(2) by (auto simp: extends_def handed_def)
  have "{a..<a + 24} \<subseteq> handed h1" using o1(1) by (auto intro: obj_handed)
  moreover have "p \<in> {p..<p + k}" "a \<in> {a..<a + 24}" using k by auto
  ultimately have "p \<notin> {a..<a + 24}" "a \<notin> {p..<p + k}" using o2(2) by blast+
  then have ap: "a + 24 \<le> p \<or> p + k \<le> a" by auto
  have rp: "in64 p" using obj_bounds [OF _ o2(1)] l2(1) k by (auto simp: range_simps)
  define m where "m = st64 (st64 (st64 (mem h2) a p) (a + 8) n) (a + 16) n"
  have ld: "ld64 m a = p" "ld64 m (a + 8) = n" "ld64 m (a + 16) = n"
    using rp k by (simp_all add: m_def mem_simps)
  have "m x = mem h2 x" if "x \<in> handed h" for x
  proof -
    have "x < a \<or> a + 24 \<le> x" using o1(2) that by (auto simp: disjoint_iff not_less)
    then show ?thesis by (auto simp: m_def mem_simps)
  qed
  then have "extends h (h2\<lparr>mem := m\<rparr>)"
    using extends_trans [OF l1(2) l2(2)] by (intro extends_mem_update) auto
  moreover have "{p..<p + 8 * n} \<inter> handed h = {}" using o2(2) hh k(2) by (fastforce simp: disjoint_iff)
  ultimately have "new_arr h (h2\<lparr>mem := m\<rparr>) a p n"
    using l2(1) oa obj_sub [OF o2(1), of p "8 * n"] k o1(2) ap ld by (auto simp: new_arr_def)
  moreover have "fresh_array M n h = Some (a, h2\<lparr>mem := m\<rparr>)"
    using a1 a2 k os by (simp add: fresh_array_def sizeof_KodArray_def m_def flip: k_def)
  ultimately show ?thesis by blast
qed

text \<open>Filling part of the buffer of a new array keeps it a new array.\<close>

lemma new_arr_store:
  assumes na: "new_arr h h' a p n" and k: "0 \<le> k" "k + int (length bs) \<le> 8 * n"
    and m: "m = wr (mem h') (p + k) bs"
  shows "store_bytes (p + k) bs h' = Some (h'\<lparr>mem := m\<rparr>)" and "new_arr h (h'\<lparr>mem := m\<rparr>) a p n"
proof -
  have o: "obj h' p (8 * n)" and f: "{p..<p + 8 * n} \<inter> handed h = {}"
    and ap: "a + 24 \<le> p \<or> p + 8 * n \<le> a"
    using na by (simp_all add: new_arr_def)
  have "obj h' (p + k) (int (length bs))" using o k by (auto elim: obj_sub)
  then show "store_bytes (p + k) bs h' = Some (h'\<lparr>mem := m\<rparr>)" by (simp add: m)
  have "m x = mem h' x" if "x \<in> handed h" for x
  proof -
    have "x < p \<or> p + 8 * n \<le> x" using f that by (auto simp: disjoint_iff not_less)
    then show ?thesis using k by (auto simp: m mem_simps)
  qed
  moreover have "ld64 m (a + j) = ld64 (mem h') (a + j)" if "0 \<le> j" "j \<le> 16" for j
    using ap k that by (auto simp: m mem_simps)
  from this [of 0] this [of 8] this [of 16]
  have "ld64 m a = ld64 (mem h') a" "ld64 m (a + 8) = ld64 (mem h') (a + 8)"
    "ld64 m (a + 16) = ld64 (mem h') (a + 16)" by simp_all
  ultimately show "new_arr h (h'\<lparr>mem := m\<rparr>) a p n"
    using na by (simp add: new_arr_def extends_mem_update)
qed

lemma new_arr_loads:
  assumes "new_arr h h' a p n"
  shows "load64 a h' = Some p" and "load64 (a + 8) h' = Some n"
proof -
  have o: "obj h' a 24" using assms by (simp add: new_arr_def)
  have "obj h' a 8" "obj h' (a + 8) 8" by (auto intro: obj_sub [OF o])
  then show "load64 a h' = Some p" "load64 (a + 8) h' = Some n"
    using assms by (simp_all add: new_arr_def)
qed

definition arr_made :: "heap \<Rightarrow> heap \<Rightarrow> addr \<Rightarrow> int list \<Rightarrow> bool" where
  "arr_made h h' a xs \<longleftrightarrow> arena_inv h' \<and> extends h h' \<and> arr_at h' a xs (int (length xs)) \<and>
     arr_foot h' a \<inter> handed h = {}"

lemma new_arr_made:
  assumes "new_arr h h' a p (int (length xs))" and "slots_of (rd (mem h') p (8 * length xs)) = xs"
  shows "arr_made h h' a xs"
  using assms by (auto simp: arr_made_def new_arr_def arr_at_def arr_foot_def)

lemma new_arr_fill:
  assumes na: "new_arr h h' a p (int (length xs))" and bs: "length bs = 8 * length xs" "slots_of bs = xs"
  shows "\<exists>h''. store_bytes p bs h' = Some h'' \<and> arr_made h h'' a xs"
proof -
  define m where "m = wr (mem h') (p + 0) bs"
  have k: "0 + int (length bs) \<le> 8 * int (length xs)" using bs(1) by simp
  note s = new_arr_store [OF na order_refl k m_def]
  define g where "g = h'\<lparr>mem := m\<rparr>"
  have r: "rd (mem g) p (8 * length xs) = bs" using bs(1) by (simp add: g_def m_def rd_wr_same)
  have "arr_made h g a xs"
    using s(2) [folded g_def] by (rule new_arr_made) (simp only: r bs(2))
  then show ?thesis using s(1) [folded g_def] by auto
qed

section \<open>The copying functions\<close>

text \<open>A function that makes an array: fresh memory, the promised slots, no old array changed.\<close>

locale arr_maker =
  fixes M :: malloc_fn
    and make :: "heap \<Rightarrow> (addr \<times> heap) option"
    and pre :: "heap \<Rightarrow> bool"
    and elems :: "int list"
  assumes make_made: "arena_inv h \<Longrightarrow> malloc_ok M \<Longrightarrow> pre h \<Longrightarrow>
      arr_room M h (int (length elems)) a \<Longrightarrow>
      \<exists>h'. make h = Some (a, h') \<and> arr_made h h' a elems"
begin

lemma make_keeps_arrays:
  assumes "arena_inv h" and "malloc_ok M" and "pre h" and "arr_room M h (int (length elems)) a"
    and old: "arr_at h t ts cap"
  shows "\<exists>h'. make h = Some (a, h') \<and> arr_at h' a elems (int (length elems)) \<and> arr_at h' t ts cap \<and>
    arr_foot h' t \<inter> arr_foot h' a = {}"
proof -
  obtain h' where h': "make h = Some (a, h')" "arr_made h h' a elems"
    using make_made [OF assms(1-4)] by blast
  have e: "extends h h'" using h'(2) by (simp add: arr_made_def)
  note o = arr_at_extends [OF old e]
  then have "arr_foot h' t \<inter> arr_foot h' a = {}" using h'(2) by (auto simp: arr_made_def)
  then show ?thesis using h' o(1) by (auto simp: arr_made_def)
qed

end

lemma kod_array_slice_made:
  assumes inv: "arena_inv h" "malloc_ok M" and s: "arr_at h src xs cap"
    and room: "arr_room M h (int (length (slice_of xs start stop))) a"
  shows "\<exists>h'. kod_array_slice M src start stop h = Some (a, h') \<and> arr_made h h' a (slice_of xs start stop)"
proof -
  let ?ys = "slice_of xs start stop"
  obtain k n where c: "clamp_slice (int (length xs)) start stop = (k, n)" by fastforce
  note b = clamp_slice_bounds [OF _ c, simplified]
  have n: "n = int (length ?ys)" using clamp_slice_length [OF c] by simp
  from fresh_array_spec [OF inv b(2), of a] room obtain h2 p
    where f: "fresh_array M n h = Some (a, h2)" "new_arr h h2 a p n" by (auto simp: n)
  have e: "extends h h2" using f(2) by (simp add: new_arr_def)
  note s2 = arr_at_extends(1) [OF s e]
  show ?thesis
  proof (cases "0 < n")
    case True
    from arr_at_part [OF s2 b(1) True b(3)] obtain bs
      where bs: "load_bytes (ld64 (mem h2) src + k * 8) (n * 8) h2 = Some bs" "length bs = 8 * nat n"
        "slots_of bs = ?ys"
      using clamp_slice_slice [OF c] by auto
    have "length bs = 8 * length ?ys" using bs(2) n by simp
    from new_arr_fill [OF f(2) [unfolded n] this bs(3)] obtain h3
      where "store_bytes p bs h2 = Some h3" "arr_made h h3 a ?ys" by blast
    then show ?thesis
      using True c f(1) bs(1) arr_at_loads [OF s] arr_at_loads [OF s2] new_arr_loads [OF f(2)]
      by (simp add: kod_array_slice_def)
  next
    case False
    then have "n = 0" "?ys = []" using n by auto
    then have "arr_made h h2 a ?ys" using f(2) by (intro new_arr_made) simp_all
    then show ?thesis using False c f(1) arr_at_loads [OF s] by (simp add: kod_array_slice_def)
  qed
qed

lemma slice_all: "slice_of xs 0 (int (length xs)) = xs"
  by (simp add: slice_of_def)

lemma kod_array_copy_made:
  assumes inv: "arena_inv h" "malloc_ok M" and s: "arr_at h src xs cap"
    and room: "arr_room M h (int (length xs)) a"
  shows "\<exists>h'. kod_array_copy M src h = Some (a, h') \<and> arr_made h h' a xs"
proof -
  from fresh_array_spec [OF inv _ room] obtain h2 p
    where f: "fresh_array M (int (length xs)) h = Some (a, h2)" "new_arr h h2 a p (int (length xs))" by auto
  have e: "extends h h2" using f(2) by (simp add: new_arr_def)
  note s2 = arr_at_extends(1) [OF s e]
  show ?thesis
  proof (cases "xs = []")
    case False
    then have "0 < int (length xs)" by simp
    from arr_at_part [OF s2 _ this, of 0] obtain bs
      where bs: "load_bytes (ld64 (mem h2) src) (int (length xs) * 8) h2 = Some bs"
        "length bs = 8 * length xs" "slots_of bs = xs" by auto
    from new_arr_fill [OF f(2) bs(2,3)] obtain h3
      where "store_bytes p bs h2 = Some h3" "arr_made h h3 a xs" by blast
    then show ?thesis
      using False f(1) bs(1) arr_at_loads [OF s] arr_at_loads [OF s2] new_arr_loads [OF f(2)]
      by (simp add: kod_array_copy_def)
  next
    case True
    then have "arr_made h h2 a xs" using f(2) by (intro new_arr_made) simp_all
    then show ?thesis
      using True f(1) arr_at_loads [OF s] arr_at_loads [OF s2] by (simp add: kod_array_copy_def)
  qed
qed

text \<open>All slots of an array, as bytes.\<close>

lemma arr_at_bytes:
  assumes "arr_at h a xs cap"
  shows "slots_of (rd (mem h) (ld64 (mem h) a) (8 * length xs)) = xs"
    and "xs \<noteq> [] \<Longrightarrow> load_bytes (ld64 (mem h) a) (int (length xs) * 8) h =
      Some (rd (mem h) (ld64 (mem h) a) (8 * length xs))"
proof -
  show "slots_of (rd (mem h) (ld64 (mem h) a) (8 * length xs)) = xs"
    using assms by (simp add: arr_at_def)
  assume ne: "xs \<noteq> []"
  then have "0 < int (length xs)" by simp
  moreover have "int (length xs) \<le> cap" using assms by (simp add: arr_at_def)
  ultimately have "0 < cap" "int (length xs) \<le> cap" by linarith+
  then have "obj h (ld64 (mem h) a) (8 * cap)" "int (length xs) \<le> cap"
    using assms by (simp_all add: arr_at_def)
  then have "obj h (ld64 (mem h) a) (int (length xs) * 8)" by (auto elim: obj_sub)
  moreover have "nat (int (length xs) * 8) = 8 * length xs" by simp
  ultimately show "load_bytes (ld64 (mem h) a) (int (length xs) * 8) h =
      Some (rd (mem h) (ld64 (mem h) a) (8 * length xs))"
    by simp
qed

text \<open>The guarded \<open>memcpy\<close> of a whole array into the buffer of a new one, at slot \<open>k\<close>.\<close>

lemma arr_copy_in:
  assumes na: "new_arr h g a p n" and at: "arr_at g src xs cap" and k: "0 \<le> k" "k + int (length xs) \<le> n"
  obtains bs g' where "length bs = 8 * length xs" and "slots_of bs = xs"
    and "g' = g\<lparr>mem := wr (mem g) (p + k * 8) bs\<rparr>" and "new_arr h g' a p n"
    and "(if int (length xs) > 0 then do {
        optr \<leftarrow> load64 a g;
        sptr \<leftarrow> load64 src g;
        bs \<leftarrow> load_bytes sptr (int (length xs) * 8) g;
        store_bytes (optr + k * 8) bs g } else Some g) = Some g'"
proof -
  define bs where "bs = rd (mem g) (ld64 (mem g) src) (8 * length xs)"
  define g' where "g' = g\<lparr>mem := wr (mem g) (p + k * 8) bs\<rparr>"
  have len: "length bs = 8 * length xs" by (simp add: bs_def)
  have k8: "0 \<le> k * 8" "k * 8 + int (length bs) \<le> 8 * n" using k len by auto
  note st = new_arr_store [OF na k8 refl, folded g'_def]
  have sl: "slots_of bs = xs" using arr_at_bytes(1) [OF at] by (simp add: bs_def)
  show thesis
  proof (rule that [OF len sl g'_def st(2)])
    show "(if int (length xs) > 0 then do {
        optr \<leftarrow> load64 a g;
        sptr \<leftarrow> load64 src g;
        bs \<leftarrow> load_bytes sptr (int (length xs) * 8) g;
        store_bytes (optr + k * 8) bs g } else Some g) = Some g'"
    proof (cases "xs = []")
      case True
      then show ?thesis by (simp add: g'_def bs_def)
    next
      case False
      then show ?thesis
        using new_arr_loads [OF na] arr_at_loads [OF at] arr_at_bytes(2) [OF at False] st(1)
        by (simp add: bs_def)
    qed
  qed
qed

lemma kod_array_concat_new_made:
  assumes inv: "arena_inv h" "malloc_ok M" and l: "arr_at h lhs xs c1" and r: "arr_at h rhs ys c2"
    and room: "arr_room M h (int (length (xs @ ys))) a"
  shows "\<exists>h'. kod_array_concat_new M lhs rhs h = Some (a, h') \<and> arr_made h h' a (xs @ ys)"
proof -
  let ?n = "int (length xs) + int (length ys)"
  from fresh_array_spec [OF inv _ room] obtain h2 p
    where f: "fresh_array M ?n h = Some (a, h2)" "new_arr h h2 a p ?n" by auto
  have rn: "in64 ?n" using f(2) new_arr_def by (metis ld64_in64)
  have e2: "extends h h2" using f(2) by (simp add: new_arr_def)
  note l2 = arr_at_extends(1) [OF l e2]
  obtain as h3 where s3: "length as = 8 * length xs" "slots_of as = xs"
    "h3 = h2\<lparr>mem := wr (mem h2) (p + 0 * 8) as\<rparr>" "new_arr h h3 a p ?n"
    "(if int (length xs) > 0 then do {
        optr \<leftarrow> load64 a h2;
        sptr \<leftarrow> load64 lhs h2;
        bs \<leftarrow> load_bytes sptr (int (length xs) * 8) h2;
        store_bytes (optr + 0 * 8) bs h2 } else Some h2) = Some h3"
    by (rule arr_copy_in [OF f(2) l2, of 0]) auto
  have e3: "extends h h3" using s3(4) by (simp add: new_arr_def)
  note l3 = arr_at_extends(1) [OF l e3] and r3 = arr_at_extends(1) [OF r e3]
  obtain bs h4 where s4: "length bs = 8 * length ys" "slots_of bs = ys"
    "h4 = h3\<lparr>mem := wr (mem h3) (p + int (length xs) * 8) bs\<rparr>" "new_arr h h4 a p ?n"
    "(if int (length ys) > 0 then do {
        optr \<leftarrow> load64 a h3;
        sptr \<leftarrow> load64 rhs h3;
        bs \<leftarrow> load_bytes sptr (int (length ys) * 8) h3;
        store_bytes (optr + int (length xs) * 8) bs h3 } else Some h3) = Some h4"
    by (rule arr_copy_in [OF s3(4) r3, of "int (length xs)"]) auto
  have "kod_array_concat_new M lhs rhs h = Some (a, h4)"
    using f(1) rn s3(5) s4(5) arr_at_loads [OF l] arr_at_loads [OF r] arr_at_loads [OF l2]
      arr_at_loads [OF l3] arr_at_loads [OF r3]
    by (cases "xs = []"; cases "ys = []") (simp_all add: kod_array_concat_new_def)
  moreover have "mem h4 = wr (mem h2) p (as @ bs)"
    using wr_wr_append [of "mem h2" p as bs] s3(1) by (simp add: s3(3) s4(3) mult.commute)
  then have "rd (mem h4) p (8 * length (xs @ ys)) = as @ bs" using s3(1) s4(1) by (simp add: rd_wr_same)
  then have "slots_of (rd (mem h4) p (8 * length (xs @ ys))) = xs @ ys"
    using slots_of_append [OF s3(1)] s3(2) s4(2) by (simp only: ) 
  then have "arr_made h h4 a (xs @ ys)" using s4(4) by (intro new_arr_made) simp_all
  ultimately show ?thesis by blast
qed

interpretation slice_arr: arr_maker M "kod_array_slice M src start stop" "\<lambda>h. \<exists>cap. arr_at h src xs cap"
    "slice_of xs start stop" for M src start stop xs
  by unfold_locales (use kod_array_slice_made in blast)

interpretation copy_arr: arr_maker M "kod_array_copy M src" "\<lambda>h. \<exists>cap. arr_at h src xs cap" xs
  for M src xs
  by unfold_locales (use kod_array_copy_made in blast)

interpretation concat_arr: arr_maker M "kod_array_concat_new M lhs rhs"
    "\<lambda>h. (\<exists>cap. arr_at h lhs xs cap) \<and> (\<exists>cap. arr_at h rhs ys cap)" "xs @ ys" for M lhs rhs xs ys
  by unfold_locales (use kod_array_concat_new_made in blast)

section \<open>The element loop\<close>

text \<open>
  The loop copies the \<open>n\<close> slots at \<open>src\<close> to \<open>d\<close>, when its two reads of a length are off what it
  writes and the two runs of slots do not overlap.
\<close>

lemma copy_slots_from:
  fixes h :: heap
  defines "at_turn \<equiv> \<lambda>d src k. h\<lparr>mem := wr (mem h) d (rd (mem h) src (8 * k))\<rparr>"
  assumes len: "\<And>k. k \<le> n \<Longrightarrow> load64 lenp (at_turn d src k) = Some (int n)"
    and base: "\<And>k. k \<le> n \<Longrightarrow> base (at_turn d src k) = Some b" and d: "d = dst + 8 * b"
    and o: "0 < n \<Longrightarrow> obj h d (8 * int n)" "0 < n \<Longrightarrow> obj h src (8 * int n)"
    and ap: "d + 8 * int n \<le> src \<or> src + 8 * int n \<le> d" and k: "k \<le> n"
  shows "copy_slots lenp base dst src (int k) (at_turn d src k) = Some (at_turn d src n)"
  using k
proof (induction "n - k" arbitrary: k)
  case 0
  then show ?case using len [of k] by (subst copy_slots.simps) simp
next
  case (Suc j)
  then have kn: "k < n" by simp
  have os: "obj h (src + 8 * int k) 8" "obj h (d + 8 * int k) 8"
    using o kn by (auto elim: obj_sub)
  have ld: "ld64 (wr (mem h) d (rd (mem h) src (8 * k))) (src + 8 * int k) = ld64 (mem h) (src + 8 * int k)"
    using ap kn by (intro ld64_wr_other) auto
  have "st64 (wr (mem h) d (rd (mem h) src (8 * k))) (d + 8 * int k) (ld64 (mem h) (src + 8 * int k)) =
      wr (mem h) d (rd (mem h) src (8 * k) @ rd (mem h) (src + 8 * int k) 8)"
    using wr_wr_append [of "mem h" d "rd (mem h) src (8 * k)" "rd (mem h) (src + 8 * int k) 8"]
    by (simp add: st64_ld64)
  also have "rd (mem h) src (8 * k) @ rd (mem h) (src + 8 * int k) 8 = rd (mem h) src (8 * Suc k)"
    using rd_append [of "mem h" src "8 * k" 8] by (simp add: add.commute)
  finally have st: "st64 (wr (mem h) d (rd (mem h) src (8 * k))) (d + 8 * int k)
      (ld64 (mem h) (src + 8 * int k)) = wr (mem h) d (rd (mem h) src (8 * Suc k))" .
  have e: "dst + (8 * b + 8 * int k) = d + 8 * int k" by (simp add: d)
  have "copy_slots lenp base dst src (int k) (at_turn d src k) =
      copy_slots lenp base dst src (int (Suc k)) (at_turn d src (Suc k))"
    using len [of k] base [of k] kn os ld st
    by (subst copy_slots.simps) (simp add: at_turn_def add.commute e)
  also have "\<dots> = Some (at_turn d src n)" using Suc by (intro Suc.hyps(1)) auto
  finally show ?case .
qed

section \<open>Appending in place\<close>

definition arr_frame :: "addr \<Rightarrow> heap \<Rightarrow> heap \<Rightarrow> bool" where
  "arr_frame a h h' \<longleftrightarrow> arena_inv h' \<and> changes_only (arr_foot h a) h h' \<and>
     arr_foot h' a \<inter> handed h \<subseteq> arr_foot h a"

lemma arr_frame_refl: "arena_inv h \<Longrightarrow> arr_frame a h h"
  by (simp add: arr_frame_def changes_only_def)

lemma arr_frame_trans:
  assumes "arr_frame a h h1" and "arr_frame a h1 h2"
  shows "arr_frame a h h2"
proof -
  have "handed h \<subseteq> handed h1" using assms(1) by (auto simp: arr_frame_def changes_only_def handed_def)
  then show ?thesis
    using assms changes_only_trans [of "arr_foot h a" h h1 "arr_foot h1 a" h2]
    by (fastforce simp: arr_frame_def)
qed

text \<open>An array off the one that is updated survives, and stays off it.\<close>

lemma arr_frame_arr:
  assumes "arr_frame a h h'" and "arr_at h t ts cap" and "arr_foot h t \<inter> arr_foot h a = {}"
  shows "arr_at h' t ts cap" and "arr_foot h' t \<inter> arr_foot h' a = {}"
proof -
  have c: "changes_only (arr_foot h a) h h'" and s: "arr_foot h' a \<inter> handed h \<subseteq> arr_foot h a"
    using assms(1) by (simp_all add: arr_frame_def)
  note f = arr_at_foot [OF assms(2) c assms(3)]
  show "arr_at h' t ts cap" by (rule f(1))
  show "arr_foot h' t \<inter> arr_foot h' a = {}" using f s assms(3) by blast
qed

text \<open>A fresh run of bytes is off an array that was there before.\<close>

lemma arr_off_fresh:
  assumes at: "arr_at h a xs cap" and f: "{q..<q + k} \<inter> handed h = {}" and k: "8 * int (length xs) \<le> k" "0 < k"
  shows "a + 24 \<le> q \<or> q + k \<le> a"
    and "q + 8 * int (length xs) \<le> ld64 (mem h) a \<or> ld64 (mem h) a + 8 * int (length xs) \<le> q"
proof -
  let ?p = "ld64 (mem h) a"
  have n: "int (length xs) \<le> cap" and c: "ld64 (mem h) (a + 16) = cap" using at by (simp_all add: arr_at_def)
  have "arr_foot h a \<subseteq> handed h" using arr_at_extends(3) [OF at extends_refl] .
  then have ft: "{a..<a + 24} \<subseteq> handed h" "{?p..<?p + 8 * cap} \<subseteq> handed h"
    using c by (auto simp: arr_foot_def)
  have q: "q \<in> {q..<q + k}" "a \<in> {a..<a + 24}" using k by auto
  then have "q \<notin> {a..<a + 24}" "a \<notin> {q..<q + k}" using f ft(1) by blast+
  then show "a + 24 \<le> q \<or> q + k \<le> a" by auto
  show "q + 8 * int (length xs) \<le> ?p \<or> ?p + 8 * int (length xs) \<le> q"
  proof (cases "xs = []")
    case False
    then have "0 < cap" using n by (cases xs) auto
    then have "?p \<in> {?p..<?p + 8 * cap}" by simp
    then have "q \<notin> {?p..<?p + 8 * cap}" "?p \<notin> {q..<q + k}" using f ft(2) q by blast+
    then show ?thesis using n k by auto
  qed auto
qed

text \<open>First loop of \<open>kod_array_concat\<close>: the slots copied to a larger buffer.\<close>

lemma arr_grow_loop:
  assumes at: "arr_at h a xs cap" and q: "obj h q k" "8 * int (length xs) \<le> k"
    and ap: "a + 24 \<le> q \<or> q + k \<le> a"
    and ap2: "q + 8 * int (length xs) \<le> ld64 (mem h) a \<or> ld64 (mem h) a + 8 * int (length xs) \<le> q"
  shows "copy_slots (a + 8) (\<lambda>_. Some 0) q (ld64 (mem h) a) 0 h =
    Some (h\<lparr>mem := wr (mem h) q (rd (mem h) (ld64 (mem h) a) (8 * length xs))\<rparr>)"
proof -
  let ?p = "ld64 (mem h) a" and ?n = "length xs"
  have o: "obj h a 24" and n: "ld64 (mem h) (a + 8) = int ?n" "int ?n \<le> cap"
    "0 < cap \<longrightarrow> obj h ?p (8 * cap)"
    using at by (simp_all add: arr_at_def)
  have "obj h (a + 8) 8" by (rule obj_sub [OF o]) auto
  then have "load64 (a + 8) (h\<lparr>mem := wr (mem h) q (rd (mem h) ?p (8 * k))\<rparr>) = Some (int ?n)"
    if "k \<le> ?n" for k
    using that ap q(2) n(1) by (auto simp: mem_simps)
  moreover have "obj h q (8 * int ?n)" using q by (auto elim: obj_sub)
  moreover have "obj h ?p (8 * int ?n)" if "0 < ?n"
    using that n(2,3) obj_sub [of h ?p "8 * cap" ?p "8 * int ?n"] by linarith
  ultimately have "copy_slots (a + 8) (\<lambda>_. Some 0) q ?p (int 0)
      (h\<lparr>mem := wr (mem h) q (rd (mem h) ?p (8 * 0))\<rparr>) =
      Some (h\<lparr>mem := wr (mem h) q (rd (mem h) ?p (8 * ?n))\<rparr>)"
    using ap2 by (intro copy_slots_from [where b = 0]) auto
  then show ?thesis by simp
qed

text \<open>First part of \<open>kod_array_concat\<close>: the slots moved, and the header pointed at them.\<close>

lemma arr_grow:
  assumes inv: "arena_inv h" "malloc_ok M" and at: "arr_at h a xs cap"
    and c: "int (length xs) \<le> c" "0 < c" and al: "arena_alloc M (c * 8) h = Some (q, h1)"
  shows "\<exists>h2 g. load64 a h1 = Some (ld64 (mem h) a) \<and>
    copy_slots (a + 8) (\<lambda>_. Some 0) q (ld64 (mem h) a) 0 h1 = Some h2 \<and>
    do { h \<leftarrow> store64 a q h2; store64 (a + 16) c h } = Some g \<and> arr_at g a xs c \<and> arr_frame a h g"
proof -
  let ?p = "ld64 (mem h) a" and ?n = "length xs"
  have iv: "arena_inv h \<and> malloc_ok M" and c8: "0 \<le> c * 8" "8 * int ?n \<le> c * 8" "0 < c * 8"
    using inv c by simp_all
  note l = arena.alloc_laws [OF iv c8(1) al]
  note at1 = arr_at_extends(1) [OF at l(2)]
  have m1: "mem h1 = mem h" by (rule l(4))
  have oq: "obj h1 q (c * 8)" and dq: "{q..<q + c * 8} \<inter> handed h = {}"
    using l(3) by (simp_all add: fresh_obj_def)
  have oa: "obj h1 a 24" and n: "ld64 (mem h) (a + 8) = int ?n" using at at1 by (simp_all add: arr_at_def)
  have os: "obj h1 a 8" "obj h1 (a + 16) 8" by (auto intro: obj_sub [OF oa])
  note ap = arr_off_fresh [OF at dq c8(2,3)]
  note cp = arr_grow_loop [OF at1 oq c8(2) ap(1) ap(2) [folded m1], unfolded m1]
  define h2 where "h2 = h1\<lparr>mem := wr (mem h) q (rd (mem h) ?p (8 * ?n))\<rparr>"
  define g where "g = h2\<lparr>mem := st64 (st64 (mem h2) a q) (a + 16) c\<rparr>"
  have r: "in64 q" "in64 c" using obj_bounds [OF _ oq] l(1) c by (auto simp: range_simps)
  have ld: "ld64 (mem g) a = q" "ld64 (mem g) (a + 8) = int ?n" "ld64 (mem g) (a + 16) = c"
    using r ap c n by (auto simp: g_def h2_def mem_simps)
  have "rd (mem g) q (8 * ?n) = rd (mem h) ?p (8 * ?n)"
    using ap(1) c by (auto simp: g_def h2_def mem_simps)
  then have "arr_at g a xs c"
    using at ld oa oq ap(1) c by (simp add: arr_at_def g_def h2_def mult.commute)
  moreover have "changes_only (arr_foot h a) h g"
  proof -
    have "changes_only ({a..<a + 24} \<union> {q..<q + c * 8}) h1 g"
      unfolding g_def h2_def
      by (simp, rule changes_only_update) (use c m1 in \<open>auto simp: mem_simps not_le\<close>)
    moreover have "({a..<a + 24} \<union> {q..<q + c * 8}) \<inter> handed h \<subseteq> arr_foot h a"
      using dq by (auto simp: arr_foot_def)
    ultimately show ?thesis using changes_only_trans extends_changes [OF l(2)] by blast
  qed
  moreover have "arr_foot g a \<inter> handed h \<subseteq> arr_foot h a"
    using ld dq by (auto simp: arr_foot_def mult.commute)
  ultimately have "arr_at g a xs c" "arr_frame a h g" using l(1) by (simp_all add: arr_frame_def g_def h2_def)
  moreover have "do { h \<leftarrow> store64 a q h2; store64 (a + 16) c h } = Some g"
    using os by (simp add: g_def h2_def)
  ultimately show ?thesis using cp os m1 by (auto simp: h2_def)
qed

text \<open>Where the slots of \<open>b\<close> go is off the header and the slots of \<open>b\<close>.\<close>

lemma arr_push_off:
  assumes at: "arr_at h a xs c" and bt: "arr_at h b ys cb" and ab: "b = a \<or> arr_foot h b \<inter> arr_foot h a = {}"
    and fit: "int (length xs) + int (length ys) \<le> c" and ne: "ys \<noteq> []"
    and d: "d = ld64 (mem h) a + 8 * int (length xs)"
  shows "b + 24 \<le> d \<or> d + 8 * int (length ys) \<le> b"
    and "d + 8 * int (length ys) \<le> ld64 (mem h) b \<or> ld64 (mem h) b + 8 * int (length ys) \<le> d"
proof -
  let ?p = "ld64 (mem h) a" and ?s = "ld64 (mem h) b" and ?n = "int (length ys)"
  have A: "ld64 (mem h) (a + 8) = int (length xs)" "ld64 (mem h) (a + 16) = c" "a + 24 \<le> ?p \<or> ?p + 8 * c \<le> a"
    using at by (simp_all add: arr_at_def)
  have B: "ld64 (mem h) (b + 8) = ?n" "ld64 (mem h) (b + 16) = cb" "?n \<le> cb"
    using bt by (simp_all add: arr_at_def)
  have n: "0 < ?n" using ne by simp
  have "(b + 24 \<le> d \<or> d + 8 * ?n \<le> b) \<and> (d + 8 * ?n \<le> ?s \<or> ?s + 8 * ?n \<le> d)"
  proof (cases "b = a")
    case True
    then have "?n = int (length xs)" using A(1) B(1) by simp
    then show ?thesis using True A(3) fit d by auto
  next
    case False
    then have "arr_foot h b \<inter> arr_foot h a = {}" using ab by blast
    then have dis: "{b..<b + 24} \<inter> {?p..<?p + 8 * c} = {}" "{?s..<?s + 8 * cb} \<inter> {?p..<?p + 8 * c} = {}"
      using A(2) B(2) unfolding arr_foot_def by blast+
    have "int (length xs) < c" "0 < cb" using fit n B(3) by linarith+
    then have "d \<in> {?p..<?p + 8 * c}" "b \<in> {b..<b + 24}" "?s \<in> {?s..<?s + 8 * cb}" using d by auto
    then have "d \<notin> {b..<b + 24}" "d \<notin> {?s..<?s + 8 * cb}" "b \<notin> {?p..<?p + 8 * c}" "?s \<notin> {?p..<?p + 8 * c}"
      using dis by blast+
    then show ?thesis using fit n B(3) d by auto
  qed
  then show "b + 24 \<le> d \<or> d + 8 * ?n \<le> b" "d + 8 * ?n \<le> ?s \<or> ?s + 8 * ?n \<le> d" by blast+
qed

text \<open>Second loop: the slots of \<open>b\<close> (which may be \<open>a\<close> itself) copied behind those of \<open>a\<close>.\<close>

lemma arr_push_loop:
  assumes at: "arr_at h a xs c" and bt: "arr_at h b ys cb" and ab: "b = a \<or> arr_foot h b \<inter> arr_foot h a = {}"
    and fit: "int (length xs) + int (length ys) \<le> c" and d: "d = ld64 (mem h) a + 8 * int (length xs)"
  shows "copy_slots (b + 8) (load64 (a + 8)) (ld64 (mem h) a) (ld64 (mem h) b) 0 h =
    Some (h\<lparr>mem := wr (mem h) d (rd (mem h) (ld64 (mem h) b) (8 * length ys))\<rparr>)"
proof (cases "ys = []")
  case True
  then show ?thesis
    using arr_at_loads [OF bt] by (subst copy_slots.simps) simp
next
  case False
  let ?p = "ld64 (mem h) a" and ?s = "ld64 (mem h) b" and ?n = "length ys"
  have A: "obj h a 24" "ld64 (mem h) (a + 8) = int (length xs)" "0 < c \<longrightarrow> obj h ?p (8 * c)"
    "a + 24 \<le> ?p \<or> ?p + 8 * c \<le> a"
    using at by (simp_all add: arr_at_def)
  have B: "obj h b 24" "ld64 (mem h) (b + 8) = int ?n" "0 < cb \<longrightarrow> obj h ?s (8 * cb)" "int ?n \<le> cb"
    using bt by (simp_all add: arr_at_def)
  have n: "0 < int ?n" using False by simp
  have o8: "obj h (a + 8) 8" "obj h (b + 8) 8" using A(1) B(1) by (auto elim: obj_sub)
  note off = arr_push_off [OF at bt ab fit False d]
  have "a + 24 \<le> d \<or> d + 8 * int ?n \<le> a" using A(4) fit by (auto simp: d)
  then have ld: "ld64 (wr (mem h) d (rd (mem h) ?s (8 * k))) (b + 8) = int ?n"
    "ld64 (wr (mem h) d (rd (mem h) ?s (8 * k))) (a + 8) = int (length xs)" if "k \<le> ?n" for k
    using that off A(2) B(2) by (auto simp: mem_simps)
  have "0 < c" "0 < cb" using fit n B(4) by linarith+
  then have od: "obj h d (8 * int ?n)" "obj h ?s (8 * int ?n)"
    using fit A(3) B(3,4) obj_sub [of h ?p "8 * c" d "8 * int ?n"] obj_sub [of h ?s "8 * cb" ?s "8 * int ?n"]
    by (simp_all add: d)
  have "copy_slots (b + 8) (load64 (a + 8)) ?p ?s (int 0) (h\<lparr>mem := wr (mem h) d (rd (mem h) ?s (8 * 0))\<rparr>) =
      Some (h\<lparr>mem := wr (mem h) d (rd (mem h) ?s (8 * ?n))\<rparr>)"
    using ld o8 od off(2) by (intro copy_slots_from [where b = "int (length xs)"]) (auto simp: d)
  then show ?thesis by simp
qed

lemma arr_push:
  assumes inv: "arena_inv h" and at: "arr_at h a xs c" and fit: "int (length xs) + int (length ys) \<le> c"
    and bt: "arr_at h b ys cb" and ab: "b = a \<or> arr_foot h b \<inter> arr_foot h a = {}"
  shows "\<exists>h2 g. copy_slots (b + 8) (load64 (a + 8)) (ld64 (mem h) a) (ld64 (mem h) b) 0 h = Some h2 \<and>
    store64 (a + 8) (int (length xs) + int (length ys)) h2 = Some g \<and>
    arr_at g a (xs @ ys) c \<and> arr_frame a h g"
proof -
  let ?p = "ld64 (mem h) a" and ?k = "int (length xs) + int (length ys)"
  define bs where "bs = rd (mem h) (ld64 (mem h) b) (8 * length ys)"
  define h2 where "h2 = h\<lparr>mem := wr (mem h) (?p + 8 * int (length xs)) bs\<rparr>"
  define g where "g = h2\<lparr>mem := st64 (mem h2) (a + 8) ?k\<rparr>"
  have bs: "length bs = 8 * length ys" "slots_of bs = ys"
    using bt by (simp_all add: bs_def arr_at_def)
  have A: "obj h a 24" "ld64 (mem h) (a + 16) = c" "a + 24 \<le> ?p \<or> ?p + 8 * c \<le> a"
    "slots_of (rd (mem h) ?p (8 * length xs)) = xs" "0 < c \<longrightarrow> obj h ?p (8 * c)"
    using at by (simp_all add: arr_at_def)
  have o8: "obj h (a + 8) 8" by (rule obj_sub [OF A(1)]) auto
  have r: "in64 ?k"
    using obj_bounds [OF inv, of ?p "8 * c"] A(5) fit by (cases "0 < c") (auto simp: range_simps)
  have ld: "ld64 (mem g) a = ?p" "ld64 (mem g) (a + 8) = ?k" "ld64 (mem g) (a + 16) = c"
    using r A(2,3) fit bs(1) by (auto simp: g_def h2_def mem_simps)
  have "rd (mem h2) ?p (8 * length xs + length bs) = rd (mem h) ?p (8 * length xs) @ bs"
    using rd_wr_extend [of "mem h" ?p "8 * length xs" _ bs] by (simp add: h2_def)
  moreover have "rd (mem g) ?p (8 * length xs + length bs) = rd (mem h2) ?p (8 * length xs + length bs)"
    using A(3) fit bs(1) unfolding g_def by (auto intro!: rd_st64_other)
  ultimately have "slots_of (rd (mem g) ?p (8 * length (xs @ ys))) = xs @ ys"
    using slots_of_append [of "rd (mem h) ?p (8 * length xs)" "length xs" bs] A(4) bs by simp
  then have "arr_at g a (xs @ ys) c"
    using at ld fit by (simp add: arr_at_def g_def h2_def)
  moreover have "changes_only (arr_foot h a) h g"
    unfolding g_def h2_def
    by (simp, rule changes_only_update) (use fit bs(1) A(2) in \<open>auto simp: mem_simps arr_foot_def not_le\<close>)
  then have "arr_frame a h g" using inv ld A(2) by (simp add: arr_frame_def arr_foot_def g_def h2_def)
  moreover have "store64 (a + 8) ?k h2 = Some g" using o8 by (simp add: g_def h2_def)
  ultimately show ?thesis
    using arr_push_loop [OF at bt ab fit refl] by (auto simp: h2_def bs_def)
qed

text \<open>The larger buffer \<open>kod_array_concat\<close> may need is there.\<close>

definition concat_room :: "malloc_fn \<Rightarrow> heap \<Rightarrow> int \<Rightarrow> int \<Rightarrow> bool" where
  "concat_room M h cap need \<longleftrightarrow> (\<forall>c. cap < need \<longrightarrow>
     double_until (if cap > 0 then cap else 4) need = Some c \<longrightarrow> arena_alloc M (c * 8) h \<noteq> None)"

lemma kod_array_concat_spec:
  assumes inv: "arena_inv h" "malloc_ok M" and at: "arr_at h a xs cap" and bt: "arr_at h b ys cb"
    and ab: "b = a \<or> arr_foot h b \<inter> arr_foot h a = {}"
    and lim: "16 * (int (length xs) + int (length ys) + 4) \<le> INT64_MAX"
    and room: "concat_room M h cap (int (length xs) + int (length ys))"
  shows "\<exists>h' c. kod_array_concat M a b h = Some (a, h') \<and> arr_at h' a (xs @ ys) c \<and> arr_frame a h h'"
proof -
  let ?k = "int (length xs) + int (length ys)"
  have r: "in64 ?k" using lim by (simp add: range_simps)
  obtain g c cb' where g: "arr_at g a xs c" "arr_frame a h g" "?k \<le> c" "arr_at g b ys cb'"
    "b = a \<or> arr_foot g b \<inter> arr_foot g a = {}"
    and first: "(if cap < ?k then do {
             new_cap \<leftarrow> double_until (if cap > 0 then cap else 4) ?k;
             n \<leftarrow> chk64 (new_cap * 8);
             (buf, h) \<leftarrow> arena_alloc M n h;
             sl \<leftarrow> load64 a h;
             h \<leftarrow> copy_slots (a + 8) (\<lambda>_. Some 0) buf sl 0 h;
             h \<leftarrow> store64 a buf h;
             store64 (a + 16) new_cap h
           } else Some h) = Some g"
  proof (cases "cap < ?k")
    case False
    then show thesis using that [of h cap cb] at bt ab arr_frame_refl [OF inv(1)] by simp
  next
    case True
    let ?start = "if cap > 0 then cap else 4"
    have "0 < ?start" "2 * ?k \<le> INT64_MAX" "?start \<le> INT64_MAX"
      using lim True by (auto simp: INT64_MAX_def)
    then obtain c where c: "double_until ?start ?k = Some c" "?k \<le> c" "c = ?start \<or> c < 2 * ?k" "?start \<le> c"
      using double_until_returns by blast
    have c8: "in64 (c * 8)" "0 < c" "int (length xs) \<le> c"
      using c lim \<open>0 < ?start\<close> True by (auto simp: range_simps split: if_splits)
    obtain q h1 where al: "arena_alloc M (c * 8) h = Some (q, h1)"
      using room c(1) True by (auto simp: concat_room_def)
    from arr_grow [OF inv at c8(3,2) al] obtain h2 g
      where g: "load64 a h1 = Some (ld64 (mem h) a)"
        "copy_slots (a + 8) (\<lambda>_. Some 0) q (ld64 (mem h) a) 0 h1 = Some h2"
        "do { h \<leftarrow> store64 a q h2; store64 (a + 16) c h } = Some g" "arr_at g a xs c" "arr_frame a h g"
      by blast
    have b': "\<exists>cb'. arr_at g b ys cb' \<and> (b = a \<or> arr_foot g b \<inter> arr_foot g a = {})"
    proof (cases "b = a")
      case True
      with at bt have "ys = xs" by (simp add: arr_at_def)
      then show ?thesis using g(4) True by blast
    next
      case False
      then show ?thesis using arr_frame_arr [OF g(5) bt] ab by blast
    qed
    show thesis using that [OF g(4,5) c(2)] b' True c(1) c8(1) al g(1-3) by auto
  qed
  have ig: "arena_inv g" using g(2) by (simp add: arr_frame_def)
  from arr_push [OF ig g(1,3,4,5)] obtain h2 h'
    where p: "copy_slots (b + 8) (load64 (a + 8)) (ld64 (mem g) a) (ld64 (mem g) b) 0 g = Some h2"
      "store64 (a + 8) ?k h2 = Some h'" "arr_at h' a (xs @ ys) c" "arr_frame a g h'" by blast
  have "kod_array_concat M a b h = Some (a, h')"
    unfolding kod_array_concat_def
    using r first p(1,2) arr_at_loads [OF at] arr_at_loads [OF bt] arr_at_loads [OF g(1)] arr_at_loads [OF g(4)]
    by simp
  with p(3) arr_frame_trans [OF g(2) p(4)] show ?thesis by blast
qed

section \<open>Packing an array into bytes\<close>

lemma arr_at_nth:
  assumes "arr_at h a xs cap" and "i < length xs"
  shows "load64 (ld64 (mem h) a + 8 * int i) h = Some (xs ! i)"
proof -
  let ?p = "ld64 (mem h) a"
  obtain bs where bs: "load_bytes (?p + int i * 8) (1 * 8) h = Some bs" "length bs = 8 * nat 1"
    "slots_of bs = take (nat 1) (drop (nat (int i)) xs)"
    using arr_at_part [OF assms(1), of "int i" 1] assms(2) by auto
  have o: "obj h (?p + 8 * int i) 8" and b: "bs = rd (mem h) (?p + 8 * int i) 8"
    using bs(1) by (auto simp: load_bytes_def mult.commute split: if_splits)
  have "slots_of bs = [xs ! i]" using bs(3) assms(2) by (simp add: take_Suc_conv_app_nth hd_drop_conv_nth take_Suc)
  moreover have "slots_of bs = [i64_val bs]" using slots_of_Cons8 [of bs "[]"] bs(2) by simp
  ultimately show ?thesis using o by (simp add: ld64_def b)
qed

lemma pack_loop_spec:
  assumes ns: "new_str h g s (int (length xs))" and at: "arr_at h a xs cap"
    and i: "i + k = length xs" and sofar: "rd (mem g) (s + 16) i = map low_byte (take i xs)"
  shows "\<exists>g'. pack_loop s (ld64 (mem h) a) k (int i) g = Some g' \<and> str_made h g' s (map low_byte xs)"
  using ns i sofar
proof (induction k arbitrary: g i)
  case 0
  then have "str_made h g s (map low_byte xs)" by (intro new_str_made) auto
  then show ?case by simp
next
  case (Suc k)
  have ix: "i < length xs" using Suc.prems(2) by simp
  have e: "extends h g" using Suc.prems(1) by (simp add: new_str_def)
  have p: "ld64 (mem g) a = ld64 (mem h) a"
    using e at by (intro extends_ld64) (auto simp: arr_at_def elim: obj_sub)
  have v: "load64 (ld64 (mem h) a + 8 * int i) g = Some (xs ! i)"
    using arr_at_nth [OF arr_at_extends(1) [OF at e] ix] p by simp
  define m where "m = wr (mem g) (s + 16 + int i) [low_byte (xs ! i)]"
  have f: "0 \<le> int i" "int i + int (length [low_byte (xs ! i)]) \<le> int (length xs)" using ix by simp_all
  note st = new_str_store [OF Suc.prems(1) f m_def]
  have "rd m (s + 16) (i + length [low_byte (xs ! i)]) = map low_byte (take i xs) @ [low_byte (xs ! i)]"
    unfolding m_def by (rule rd_wr_extend) (rule Suc.prems(3))
  then have "rd m (s + 16) (Suc i) = map low_byte (take (Suc i) xs)"
    using ix by (simp add: take_Suc_conv_app_nth)
  then obtain g' where "pack_loop s (ld64 (mem h) a) k (int (Suc i)) (g\<lparr>mem := m\<rparr>) = Some g'"
    "str_made h g' s (map low_byte xs)"
    using Suc.IH [OF st(2), of "Suc i"] Suc.prems(2) by auto
  then show ?case
    using v st(1) new_str_loads [OF Suc.prems(1)] by (auto simp: add.commute)
qed

lemma kod_bytes_from_array_made:
  assumes inv: "arena_inv h" "malloc_ok M" and at: "arr_at h a xs cap"
    and al: "arena_alloc M (17 + int (length xs)) h = Some (s, h1)"
  shows "\<exists>h'. kod_bytes_from_array M a h = Some (s, h') \<and> str_made h h' s (map low_byte xs)"
proof -
  from kod_str_new_spec [OF inv _ al] obtain g
    where g: "kod_str_new M (int (length xs)) h = Some (s, g)" "new_str h g s (int (length xs))" by auto
  have e: "extends h g" using g(2) by (simp add: new_str_def)
  note at2 = arr_at_extends(1) [OF at e]
  have p: "ld64 (mem g) a = ld64 (mem h) a"
    using e at by (intro extends_ld64) (auto simp: arr_at_def elim: obj_sub)
  from pack_loop_spec [OF g(2) at, of 0 "length xs"] obtain g'
    where "pack_loop s (ld64 (mem h) a) (length xs) 0 g = Some g'" "str_made h g' s (map low_byte xs)" by auto
  then show ?thesis
    using g(1) arr_at_loads [OF at] arr_at_loads [OF at2] p
    by (simp add: kod_bytes_from_array_def kod_str_alloc_def)
qed

interpretation packed: str_maker M "kod_bytes_from_array M a" "\<lambda>h. \<exists>cap. arr_at h a xs cap"
    "\<lambda>_. map low_byte xs" for M a xs
  by unfold_locales (use kod_bytes_from_array_made in fastforce)

section \<open>Two arrays for the witnesses\<close>

lemma fresh_array_filled:
  assumes inv: "arena_inv h" "malloc_ok M" and room: "arr_room M h (int (length xs)) a"
    and bs: "length bs = 8 * length xs" "slots_of bs = xs"
  shows "\<exists>h2 p h3. fresh_array M (int (length xs)) h = Some (a, h2) \<and> load64 a h2 = Some p \<and>
    store_bytes p bs h2 = Some h3 \<and> arr_made h h3 a xs"
proof -
  obtain h2 p where f: "fresh_array M (int (length xs)) h = Some (a, h2)" "new_arr h h2 a p (int (length xs))"
    using fresh_array_spec [OF inv _ room] by auto
  from new_arr_fill [OF f(2) bs] new_arr_loads [OF f(2)] f(1) show ?thesis by blast
qed

lemma demo_arrays:
  "\<exists>h. arena_inv h \<and> arr_at h 40 [7, 9] 2 \<and> arr_at h 80 [5] 1 \<and> arr_foot h 80 \<inter> arr_foot h 40 = {} \<and>
    current_block h = [\<lparr>blk = 16, current = 112, block_end = 4194344\<rparr>]"
proof -
  have s1: "slots_of (i64_bytes 7 @ i64_bytes 9) = [7, 9]" "slots_of (i64_bytes 5) = [5]"
    using slots_of_Cons8 [of "i64_bytes 9" "[]"] slots_of_Cons8 [of "i64_bytes 5" "[]"]
    by (simp_all add: slots_of_Cons8 range_simps)
  have "arr_room bump_malloc empty_heap 2 40" by (simp add: arr_room_def arena_eval)
  with fresh_array_filled [OF empty_heap_inv bump_malloc_ok, of "[7, 9]" 40 "i64_bytes 7 @ i64_bytes 9"] s1
  obtain h2 p h3 where a: "fresh_array bump_malloc 2 empty_heap = Some (40, h2)" "load64 40 h2 = Some p"
    "store_bytes p (i64_bytes 7 @ i64_bytes 9) h2 = Some h3" "arr_made empty_heap h3 40 [7, 9]" by auto
  have "current_block h2 = [\<lparr>blk = 16, current = 80, block_end = 4194344\<rparr>]"
    using a(1) by (auto simp: fresh_array_def sizeof_KodArray_def str_eval)
  then have c3: "current_block h3 = [\<lparr>blk = 16, current = 80, block_end = 4194344\<rparr>]"
    using a(3) by (auto simp: store_bytes_def split: if_splits)
  have i3: "arena_inv h3" using a(4) by (simp add: arr_made_def)
  have "arr_room bump_malloc h3 1 80" using c3 by (simp add: arr_room_def arena_eval)
  with fresh_array_filled [OF i3 bump_malloc_ok, of "[5]" 80 "i64_bytes 5"] s1
  obtain h4 q h5 where b: "fresh_array bump_malloc 1 h3 = Some (80, h4)" "load64 80 h4 = Some q"
    "store_bytes q (i64_bytes 5) h4 = Some h5" "arr_made h3 h5 80 [5]" by auto
  have "current_block h4 = [\<lparr>blk = 16, current = 112, block_end = 4194344\<rparr>]"
    using b(1) c3 by (auto simp: fresh_array_def sizeof_KodArray_def str_eval)
  then have c5: "current_block h5 = [\<lparr>blk = 16, current = 112, block_end = 4194344\<rparr>]"
    using b(3) by (auto simp: store_bytes_def split: if_splits)
  have e: "extends h3 h5" using b(4) by (simp add: arr_made_def)
  have x: "arr_at h3 40 [7, 9] 2" using a(4) by (simp add: arr_made_def)
  note y = arr_at_extends [OF x e]
  then have "arr_foot h5 80 \<inter> arr_foot h5 40 = {}" using b(4) by (auto simp: arr_made_def)
  then show ?thesis using y(1) b(4) c5 by (auto simp: arr_made_def)
qed

section \<open>Properties of the arrays\<close>

text \<open>
  C10. \<open>a += b\<close> on arrays appends the slots of \<open>b\<close> to \<open>a\<close> in place, also when \<open>b\<close> is \<open>a\<close>;
  whether or not the buffer had to grow, every array apart from \<open>a\<close> is unchanged.
\<close>

theorem kod_array_concat_correct:
  assumes "arena_inv h" and "malloc_ok M" and "arr_at h a xs cap" and "arr_at h b ys cb"
    and "b = a \<or> arr_foot h b \<inter> arr_foot h a = {}"
    and "16 * (int (length xs) + int (length ys) + 4) \<le> INT64_MAX"
    and "concat_room M h cap (int (length xs) + int (length ys))"
    and "arr_at h t ts ct" and "arr_foot h t \<inter> arr_foot h a = {}"
  shows "\<exists>h' c. kod_array_concat M a b h = Some (a, h') \<and> arena_inv h' \<and> arr_at h' a (xs @ ys) c \<and>
    arr_at h' t ts ct \<and> arr_foot h' t \<inter> arr_foot h' a = {}"
proof -
  obtain h' c where h': "kod_array_concat M a b h = Some (a, h')" "arr_at h' a (xs @ ys) c" "arr_frame a h h'"
    using kod_array_concat_spec [OF assms(1-7)] by blast
  then show ?thesis using arr_frame_arr [OF h'(3) assms(8,9)] by (auto simp: arr_frame_def)
qed

theorem kod_array_concat_correct_witness:
  "\<exists>h h' c. arr_at h 40 [7, 9] 2 \<and> kod_array_concat bump_malloc 40 40 h = Some (40, h') \<and>
    arr_at h' 40 [7, 9, 7, 9] c \<and> arr_at h' 80 [5] 1"
proof -
  obtain h where h: "arena_inv h" "arr_at h 40 [7, 9] 2" "arr_at h 80 [5] 1"
    "arr_foot h 80 \<inter> arr_foot h 40 = {}" "current_block h = [\<lparr>blk = 16, current = 112, block_end = 4194344\<rparr>]"
    using demo_arrays by blast
  have "concat_room bump_malloc h 2 4"
    using h(5) by (simp add: concat_room_def double_until_step arena_eval)
  with kod_array_concat_correct [OF h(1) bump_malloc_ok h(2,2) disjI1 [OF refl] _ _ h(3,4)]
  show ?thesis using h(2) by (force simp: INT64_MAX_def)
qed

text \<open>
  \<open>a + b\<close> on arrays makes a fresh array of the slots of \<open>a\<close> followed by those of \<open>b\<close>,
  sharing no memory with any array that was there before, all of which are unchanged.
\<close>

theorem kod_array_concat_new_correct:
  assumes "arena_inv h" and "malloc_ok M" and "arr_at h lhs xs c1" and "arr_at h rhs ys c2"
    and "arr_room M h (int (length (xs @ ys))) a" and "arr_at h t ts ct"
  shows "\<exists>h'. kod_array_concat_new M lhs rhs h = Some (a, h') \<and>
    arr_at h' a (xs @ ys) (int (length (xs @ ys))) \<and> arr_at h' t ts ct \<and> arr_foot h' t \<inter> arr_foot h' a = {}"
  using concat_arr.make_keeps_arrays [OF assms(1,2) _ assms(5,6)] assms(3,4) by blast

theorem kod_array_concat_new_correct_witness:
  "\<exists>h h'. kod_array_concat_new bump_malloc 40 80 h = Some (112, h') \<and> arr_at h' 112 [7, 9, 5] 3"
proof -
  obtain h where h: "arena_inv h" "arr_at h 40 [7, 9] 2" "arr_at h 80 [5] 1"
    "current_block h = [\<lparr>blk = 16, current = 112, block_end = 4194344\<rparr>]"
    using demo_arrays by blast
  have "arr_room bump_malloc h 3 112" using h(4) by (simp add: arr_room_def arena_eval)
  with kod_array_concat_new_correct [OF h(1) bump_malloc_ok h(2,3) _ h(2)] show ?thesis by fastforce
qed

text \<open>
  A slice of an array is a fresh array of the slots from \<open>start\<close> up to \<open>stop\<close>, with bounds
  outside the array clamped, and a copy is a fresh array of all of them.
\<close>

theorem kod_array_slice_copy_correct:
  assumes "arena_inv h" and "malloc_ok M" and "arr_at h src xs cap"
    and "arr_room M h (int (length (slice_of xs start stop))) a" and "arr_room M h (int (length xs)) b"
  shows "\<exists>h' h''. kod_array_slice M src start stop h = Some (a, h') \<and>
    arr_at h' a (drop (nat start) (take (nat stop) xs)) (int (length (slice_of xs start stop))) \<and>
    arr_at h' src xs cap \<and> arr_foot h' src \<inter> arr_foot h' a = {} \<and>
    kod_array_copy M src h = Some (b, h'') \<and> arr_at h'' b xs (int (length xs)) \<and>
    arr_at h'' src xs cap \<and> arr_foot h'' src \<inter> arr_foot h'' b = {}"
  using slice_arr.make_keeps_arrays [OF assms(1,2) exI [where P = "arr_at h src xs", OF assms(3)] assms(4,3)]
    copy_arr.make_keeps_arrays [OF assms(1,2) exI [where P = "arr_at h src xs", OF assms(3)] assms(5,3)]
  unfolding slice_of_def by blast

theorem kod_array_slice_copy_correct_witness:
  "\<exists>h h' h''. kod_array_slice bump_malloc 40 (-3) 1 h = Some (112, h') \<and> arr_at h' 112 [7] 1 \<and>
    kod_array_copy bump_malloc 40 h = Some (112, h'') \<and> arr_at h'' 112 [7, 9] 2"
proof -
  obtain h where h: "arena_inv h" "arr_at h 40 [7, 9] 2"
    "current_block h = [\<lparr>blk = 16, current = 112, block_end = 4194344\<rparr>]"
    using demo_arrays by blast
  have "arr_room bump_malloc h 1 112" "arr_room bump_malloc h 2 112"
    using h(3) by (simp_all add: arr_room_def arena_eval)
  with kod_array_slice_copy_correct [OF h(1) bump_malloc_ok h(2), of "-3" 1 112 112] show ?thesis
    by (fastforce simp: slice_of_def)
qed

text \<open>
  Packing an array of integers yields a fresh string of their low bytes, in order.
\<close>

theorem kod_bytes_from_array_correct:
  assumes "arena_inv h" and "malloc_ok M" and "arr_at h a xs cap"
    and "arena_alloc M (17 + int (length xs)) h = Some (s, h1)"
  shows "\<exists>h'. kod_bytes_from_array M a h = Some (s, h') \<and> extends h h' \<and>
    str_at h' s (map (\<lambda>v. word_of_int v) xs)"
proof -
  have low: "low_byte v = word_of_int v" for v :: int
  proof -
    have "v AND 255 = take_bit 8 v"
      using take_bit_eq_mask [of 8 v] by (simp add: mask_eq_exp_minus_1)
    then show ?thesis by (simp add: low_byte_def take_bit_eq_mod word_of_int_eq_iff)
  qed
  show ?thesis
    using kod_bytes_from_array_made [OF assms] by (auto simp: str_made_def ext [of low_byte, OF low])
qed

theorem kod_bytes_from_array_correct_witness:
  "\<exists>h h'. kod_bytes_from_array bump_malloc 40 h = Some (112, h') \<and> str_at h' 112 [7, 9]"
proof -
  obtain h where h: "arena_inv h" "arr_at h 40 [7, 9] 2"
    "current_block h = [\<lparr>blk = 16, current = 112, block_end = 4194344\<rparr>]"
    using demo_arrays by blast
  obtain h1 where "arena_alloc bump_malloc 19 h = Some (112, h1)"
    using h(3) by (simp add: arena_eval)
  with kod_bytes_from_array_correct [OF h(1) bump_malloc_ok h(2), of 112 h1] show ?thesis by auto
qed

end
