(* ===== verification/Kod_Lsp.thy ===== *)
theory Kod_Lsp
  imports Kod_Prelude
begin

text \<open>
  The language-server state of \<open>src/stdlib/runtime.c\<close> that survives \<open>arena_reset\<close>: the linked
  list of open documents, the active URI, the publish flag and the compile cache.

  The state lives in memory from \<open>malloc\<close>, outside the arena. The model keeps it at pointer
  level: \<open>bufs\<close> holds the live character buffers, \<open>nodes\<close> the live \<open>LspDoc\<close> structs, both by
  address, and the address 0 is NULL. \<open>malloc\<close> is a parameter that sees the state and the size.
  An operation is \<open>None\<close> when the C code has no defined behaviour: a copy to NULL, a read outside
  a buffer, a free of something that is not live (a double free), or a walk that never ends.
  A \<open>KodStr\<close> argument or result is its bytes; how those are laid out in the arena is the subject
  of \<open>Kod_Str\<close>.
\<close>

section \<open>State\<close>

record LspDoc =
  uri :: addr
  uri_len :: int
  doc_text :: addr
  doc_text_len :: int
  nxt :: addr

record lsp =
  bufs :: "addr \<rightharpoonup> byte list"
  nodes :: "addr \<rightharpoonup> LspDoc"
  g_lsp_docs :: addr
  g_lsp_active_uri :: addr
  g_lsp_active_uri_len :: int
  g_lsp_publish_pending :: int
  g_lsp_cached_cg :: addr
  g_lsp_cached_uri :: addr
  g_lsp_cached_uri_len :: int
  g_lsp_cached_text :: addr
  g_lsp_cached_text_len :: int

definition lsp_init :: lsp where
  "lsp_init = \<lparr>bufs = (\<lambda>_. None), nodes = (\<lambda>_. None), g_lsp_docs = 0, g_lsp_active_uri = 0,
     g_lsp_active_uri_len = 0, g_lsp_publish_pending = 0, g_lsp_cached_cg = 0, g_lsp_cached_uri = 0,
     g_lsp_cached_uri_len = 0, g_lsp_cached_text = 0, g_lsp_cached_text_len = 0\<rparr>"

type_synonym cmalloc = "lsp \<Rightarrow> int \<Rightarrow> addr"

text \<open>
  \<open>p = malloc(len); if (len > 0) memcpy(p, buf, len);\<close> as the code writes it for every string
  it keeps: only a copy of no bytes survives a NULL.
\<close>

definition dup_bytes :: "cmalloc \<Rightarrow> byte list \<Rightarrow> lsp \<Rightarrow> (addr \<times> lsp) option" where
  "dup_bytes A bs st =
     (let p = A st (int (length bs))
      in if p = 0 then (if bs = [] then Some (0, st) else None)
         else Some (p, st\<lparr>bufs := (bufs st)(p \<mapsto> bs)\<rparr>))"

definition new_doc :: "cmalloc \<Rightarrow> LspDoc \<Rightarrow> lsp \<Rightarrow> (addr \<times> lsp) option" where
  "new_doc A D st =
     (let d = A st 40 in if d = 0 then None else Some (d, st\<lparr>nodes := (nodes st)(d \<mapsto> D)\<rparr>))"

definition free_buf :: "addr \<Rightarrow> lsp \<Rightarrow> lsp option" where
  "free_buf p st =
     (if p = 0 then Some st
      else case bufs st p of None \<Rightarrow> None | Some _ \<Rightarrow> Some (st\<lparr>bufs := (bufs st)(p := None)\<rparr>))"

definition free_doc :: "addr \<Rightarrow> lsp \<Rightarrow> lsp option" where
  "free_doc d st =
     (case nodes st d of None \<Rightarrow> None | Some _ \<Rightarrow> Some (st\<lparr>nodes := (nodes st)(d := None)\<rparr>))"

definition read_buf :: "addr \<Rightarrow> int \<Rightarrow> lsp \<Rightarrow> byte list option" where
  "read_buf p n st =
     (if n = 0 then Some []
      else case bufs st p of None \<Rightarrow> None
           | Some bs \<Rightarrow> if 0 \<le> n \<and> n \<le> int (length bs) then Some (take (nat n) bs) else None)"

section \<open>Operations\<close>

definition lsp_bytes_eq :: "addr \<Rightarrow> int \<Rightarrow> byte list \<Rightarrow> lsp \<Rightarrow> bool option" where
  "lsp_bytes_eq a alen b st =
     (if alen \<noteq> int (length b) then Some False
      else do { x \<leftarrow> read_buf a alen st; Some (x = b) })"

partial_function (option) find_from :: "lsp \<Rightarrow> addr \<Rightarrow> byte list \<Rightarrow> addr option" where
  "find_from st d u =
     (if d = 0 then Some 0
      else do {
        D \<leftarrow> nodes st d;
        e \<leftarrow> lsp_bytes_eq (uri D) (uri_len D) u st;
        if e then Some d else find_from st (nxt D) u
      })"

definition lsp_docs_find :: "byte list \<Rightarrow> lsp \<Rightarrow> addr option" where
  "lsp_docs_find u st = find_from st (g_lsp_docs st) u"

definition lsp_docs_set :: "cmalloc \<Rightarrow> byte list \<Rightarrow> byte list \<Rightarrow> lsp \<Rightarrow> lsp option" where
  "lsp_docs_set A u t st = do {
     d \<leftarrow> lsp_docs_find u st;
     if d \<noteq> 0 then do {
       D \<leftarrow> nodes st d;
       st \<leftarrow> free_buf (doc_text D) st;
       (p, st) \<leftarrow> dup_bytes A t st;
       Some (st\<lparr>nodes := (nodes st)(d \<mapsto> D\<lparr>doc_text := p, doc_text_len := int (length t)\<rparr>)\<rparr>)
     } else do {
       (d, st) \<leftarrow> new_doc A \<lparr>uri = 0, uri_len = 0, doc_text = 0, doc_text_len = 0, nxt = 0\<rparr> st;
       (p, st) \<leftarrow> dup_bytes A u st;
       (q, st) \<leftarrow> dup_bytes A t st;
       Some (st\<lparr>nodes := (nodes st)(d \<mapsto> \<lparr>uri = p, uri_len = int (length u), doc_text = q,
                  doc_text_len = int (length t), nxt = g_lsp_docs st\<rparr>), g_lsp_docs := d\<rparr>)
     }
   }"

definition lsp_docs_get :: "byte list \<Rightarrow> lsp \<Rightarrow> byte list option" where
  "lsp_docs_get u st = do {
     d \<leftarrow> lsp_docs_find u st;
     if d = 0 then Some []
     else do { D \<leftarrow> nodes st d; read_buf (doc_text D) (doc_text_len D) st }
   }"

text \<open>\<open>LspDoc **slot\<close>: the address of \<open>g_lsp_docs\<close> or of the \<open>next\<close> field of a node.\<close>

datatype slot = Docs_Head | Next_Of addr

fun get_slot :: "slot \<Rightarrow> lsp \<Rightarrow> addr option" where
  "get_slot Docs_Head st = Some (g_lsp_docs st)"
| "get_slot (Next_Of a) st = map_option nxt (nodes st a)"

fun set_slot :: "slot \<Rightarrow> addr \<Rightarrow> lsp \<Rightarrow> lsp option" where
  "set_slot Docs_Head v st = Some (st\<lparr>g_lsp_docs := v\<rparr>)"
| "set_slot (Next_Of a) v st = do {
     D \<leftarrow> nodes st a;
     Some (st\<lparr>nodes := (nodes st)(a \<mapsto> D\<lparr>nxt := v\<rparr>)\<rparr>)
   }"

partial_function (option) remove_at :: "slot \<Rightarrow> byte list \<Rightarrow> lsp \<Rightarrow> lsp option" where
  "remove_at slot u st = do {
     d \<leftarrow> get_slot slot st;
     if d = 0 then Some st
     else do {
       D \<leftarrow> nodes st d;
       e \<leftarrow> lsp_bytes_eq (uri D) (uri_len D) u st;
       if e then do {
         st \<leftarrow> set_slot slot (nxt D) st;
         st \<leftarrow> free_buf (uri D) st;
         st \<leftarrow> free_buf (doc_text D) st;
         free_doc d st
       } else remove_at (Next_Of d) u st
     }
   }"

definition lsp_docs_remove :: "byte list \<Rightarrow> lsp \<Rightarrow> lsp option" where
  "lsp_docs_remove u st = remove_at Docs_Head u st"

definition lsp_set_active_uri :: "cmalloc \<Rightarrow> byte list \<Rightarrow> lsp \<Rightarrow> lsp option" where
  "lsp_set_active_uri A u st = do {
     st \<leftarrow> free_buf (g_lsp_active_uri st) st;
     (p, st) \<leftarrow> dup_bytes A u st;
     Some (st\<lparr>g_lsp_active_uri := p, g_lsp_active_uri_len := int (length u)\<rparr>)
   }"

definition lsp_get_active_uri :: "lsp \<Rightarrow> byte list option" where
  "lsp_get_active_uri st = read_buf (g_lsp_active_uri st) (g_lsp_active_uri_len st) st"

definition lsp_get_publish_pending :: "lsp \<Rightarrow> int" where
  "lsp_get_publish_pending st = g_lsp_publish_pending st"

definition lsp_set_publish_pending :: "int \<Rightarrow> lsp \<Rightarrow> lsp" where
  "lsp_set_publish_pending v st = st\<lparr>g_lsp_publish_pending := (if v \<noteq> 0 then 1 else 0)\<rparr>"

definition lsp_cache_lookup :: "byte list \<Rightarrow> byte list \<Rightarrow> lsp \<Rightarrow> int option" where
  "lsp_cache_lookup u t st =
     (if g_lsp_cached_cg st = 0 then Some 0
      else do {
        e \<leftarrow> lsp_bytes_eq (g_lsp_cached_uri st) (g_lsp_cached_uri_len st) u st;
        if \<not> e then Some 0
        else do {
          e \<leftarrow> lsp_bytes_eq (g_lsp_cached_text st) (g_lsp_cached_text_len st) t st;
          if \<not> e then Some 0 else Some 1
        }
      })"

definition lsp_cache_get_cg :: "lsp \<Rightarrow> addr" where
  "lsp_cache_get_cg st = g_lsp_cached_cg st"

definition lsp_cache_store :: "cmalloc \<Rightarrow> byte list \<Rightarrow> byte list \<Rightarrow> addr \<Rightarrow> lsp \<Rightarrow> lsp option" where
  "lsp_cache_store A u t cg st = do {
     st \<leftarrow> free_buf (g_lsp_cached_uri st) st;
     (p, st) \<leftarrow> dup_bytes A u st;
     let st = st\<lparr>g_lsp_cached_uri := p, g_lsp_cached_uri_len := int (length u)\<rparr>;
     st \<leftarrow> free_buf (g_lsp_cached_text st) st;
     (q, st) \<leftarrow> dup_bytes A t st;
     Some (st\<lparr>g_lsp_cached_text := q, g_lsp_cached_text_len := int (length t), g_lsp_cached_cg := cg\<rparr>)
   }"

definition lsp_cache_invalidate :: "lsp \<Rightarrow> lsp" where
  "lsp_cache_invalidate st = st\<lparr>g_lsp_cached_cg := 0\<rparr>"

section \<open>Owned buffers\<close>

text \<open>
  \<open>slots_ok b ps\<close>: the (pointer, length) pairs \<open>ps\<close> own the live buffers. Every live buffer is
  named by exactly one pair (nothing leaks, nothing is shared), every pointer other than NULL is
  live, and each length is that of its buffer.
\<close>

definition content :: "(addr \<rightharpoonup> byte list) \<Rightarrow> addr \<Rightarrow> byte list" where
  "content b p = (case b p of None \<Rightarrow> [] | Some bs \<Rightarrow> bs)"

definition slots_ok :: "(addr \<rightharpoonup> byte list) \<Rightarrow> (addr \<times> int) list \<Rightarrow> bool" where
  "slots_ok b ps \<longleftrightarrow> b 0 = None \<and>
     (\<forall>p. p \<noteq> 0 \<longrightarrow> count_list (map fst ps) p = (if b p = None then 0 else 1)) \<and>
     (\<forall>(p, n) \<in> set ps. n = int (length (content b p)))"

text \<open>
  What \<open>malloc\<close> promises: NULL or an address that is not in use. \<open>cmalloc_has_room\<close> is more than that: memory never runs out. The
  code does not look at the result of \<open>malloc\<close>, so where that is not assumed an operation may have no defined behaviour;
  \<open>step_refused\<close> below says at which requests.
\<close>

definition cmalloc_fresh :: "cmalloc \<Rightarrow> bool" where
  "cmalloc_fresh A \<longleftrightarrow> (\<forall>st n. A st n \<noteq> 0 \<longrightarrow> bufs st (A st n) = None \<and> nodes st (A st n) = None)"

definition cmalloc_has_room :: "cmalloc \<Rightarrow> bool" where
  "cmalloc_has_room A \<longleftrightarrow>
     (\<forall>st n. finite (dom (bufs st)) \<and> finite (dom (nodes st)) \<and> 0 < n \<longrightarrow> A st n \<noteq> 0)"

lemma owner_counts: "(p, n) \<in> set ps \<Longrightarrow> count_list (map fst ps) p \<noteq> 0"
  unfolding count_list_0_iff by force

lemma slots_okI:
  assumes "b 0 = None" and "\<And>p. p \<noteq> 0 \<Longrightarrow> count_list (map fst ps) p = (if b p = None then 0 else 1)"
    and "\<And>r. r \<in> set ps \<Longrightarrow> snd r = int (length (content b (fst r)))"
  shows "slots_ok b ps"
  using assms unfolding slots_ok_def by fastforce

lemma slots_ok_len: "slots_ok b ps \<Longrightarrow> r \<in> set ps \<Longrightarrow> snd r = int (length (content b (fst r)))"
  unfolding slots_ok_def by fastforce

lemma slots_ok_count: "slots_ok b ps \<Longrightarrow> p \<noteq> 0 \<Longrightarrow> count_list (map fst ps) p = (if b p = None then 0 else 1)"
  unfolding slots_ok_def by blast

lemma slots_okD:
  assumes "slots_ok b ps" and "(p, n) \<in> set ps"
  shows "n = int (length (content b p))" and "p \<noteq> 0 \<Longrightarrow> b p \<noteq> None"
proof -
  show "n = int (length (content b p))" using assms unfolding slots_ok_def by blast
  assume "p \<noteq> 0"
  then show "b p \<noteq> None"
    using slots_ok_count [OF assms(1)] owner_counts [OF assms(2)] by (metis (full_types))
qed

lemma slots_ok_NULL: "slots_ok b ps \<Longrightarrow> b 0 = None"
  by (simp add: slots_ok_def)

lemma read_slot:
  assumes "slots_ok (bufs st) ps" and "(p, n) \<in> set ps"
  shows "read_buf p n st = Some (content (bufs st) p)"
proof (cases "bufs st p")
  case None
  then have "n = 0" using slots_okD [OF assms] by (simp add: content_def)
  with None show ?thesis by (simp add: read_buf_def content_def)
next
  case (Some bs)
  then have "n = int (length bs)" using slots_okD [OF assms] by (simp add: content_def)
  with Some show ?thesis by (simp add: read_buf_def content_def)
qed

lemma bytes_eq_slot:
  assumes "slots_ok (bufs st) ps" and "(p, n) \<in> set ps"
  shows "lsp_bytes_eq p n u st = Some (content (bufs st) p = u)"
  using read_slot [OF assms] slots_okD(1) [OF assms] by (auto simp: lsp_bytes_eq_def)

text \<open>Pairs that own different buffers: giving one up, or adding one, leaves the others alone.\<close>

definition same_content :: "(addr \<times> int) list \<Rightarrow> (addr \<rightharpoonup> byte list) \<Rightarrow> (addr \<rightharpoonup> byte list) \<Rightarrow> bool" where
  "same_content ps b b' \<longleftrightarrow> (\<forall>r \<in> set ps. content b' (fst r) = content b (fst r))"

lemma free_slot:
  assumes "slots_ok (bufs st) (xs @ (p, n) # ys)"
  shows "free_buf p st = Some (st\<lparr>bufs := (bufs st)(p := None)\<rparr>)"
    and "slots_ok ((bufs st)(p := None)) (xs @ ys)"
    and "same_content (xs @ ys) (bufs st) ((bufs st)(p := None))"
proof -
  let ?b = "bufs st"
  have z: "?b 0 = None" using assms by (rule slots_ok_NULL)
  have live: "p \<noteq> 0 \<Longrightarrow> ?b p \<noteq> None"
    using slots_okD(2) [OF assms, of p n] by simp
  show "free_buf p st = Some (st\<lparr>bufs := ?b(p := None)\<rparr>)"
  proof (cases "p = 0")
    case True
    then show ?thesis using z by (simp add: free_buf_def fun_upd_idem)
  qed (use live in \<open>auto simp: free_buf_def\<close>)
  have cnt: "q \<noteq> 0 \<Longrightarrow> count_list (map fst xs) q + count_list (map fst ys) q + (if p = q then 1 else 0) =
      (if ?b q = None then 0 else 1)" for q
    using slots_ok_count [OF assms, of q] by (simp split: if_splits)
  have other: "r \<in> set (xs @ ys) \<Longrightarrow> fst r \<noteq> p \<or> fst r = 0" for r
  proof (rule ccontr)
    assume r: "r \<in> set (xs @ ys)" and "\<not> (fst r \<noteq> p \<or> fst r = 0)"
    then have p: "fst r = p" "p \<noteq> 0" by auto
    have "count_list (map fst (xs @ ys)) p \<noteq> 0"
      using owner_counts [of p "snd r" "xs @ ys"] r p by auto
    then show False using cnt [OF p(2)] live [OF p(2)] by simp
  qed
  then show same: "same_content (xs @ ys) ?b (?b(p := None))"
    using z by (fastforce simp: same_content_def content_def)
  show "slots_ok (?b(p := None)) (xs @ ys)"
  proof (rule slots_okI)
    show "q \<noteq> 0 \<Longrightarrow> count_list (map fst (xs @ ys)) q = (if (?b(p := None)) q = None then 0 else 1)" for q
      using cnt [of q] live by (cases "p = q") auto
    show "r \<in> set (xs @ ys) \<Longrightarrow> snd r = int (length (content (?b(p := None)) (fst r)))" for r
      using slots_ok_len [OF assms, of r] same unfolding same_content_def by auto
  qed (use z in simp)
qed

lemma add_slot:
  assumes "slots_ok (bufs st) (xs @ ys)" and "cmalloc_fresh A" and "dup_bytes A bs st = Some (q, st')"
  shows "\<exists>b. st' = st\<lparr>bufs := b\<rparr> \<and> slots_ok b (xs @ (q, int (length bs)) # ys) \<and>
    content b q = bs \<and> same_content (xs @ ys) (bufs st) b"
proof (cases "q = 0")
  case True
  then have e: "st' = st" "bs = []"
    using assms(3) by (auto simp: dup_bytes_def Let_def split: if_splits)
  have z: "bufs st 0 = None" using assms(1) by (rule slots_ok_NULL)
  then have c: "content (bufs st) 0 = []" by (simp add: content_def)
  have "slots_ok (bufs st) (xs @ (0, 0) # ys)"
  proof (rule slots_okI)
    show "p \<noteq> 0 \<Longrightarrow> count_list (map fst (xs @ (0, 0) # ys)) p = (if bufs st p = None then 0 else 1)" for p
      using slots_ok_count [OF assms(1), of p] by simp
    show "r \<in> set (xs @ (0, 0) # ys) \<Longrightarrow> snd r = int (length (content (bufs st) (fst r)))" for r
      using slots_ok_len [OF assms(1), of r] c by auto
  qed (rule z)
  with e True c show ?thesis
    by (intro exI [of _ "bufs st"]) (simp add: same_content_def)
next
  case False
  define b where "b = (bufs st)(q \<mapsto> bs)"
  have q: "q = A st (int (length bs))" and st': "st' = st\<lparr>bufs := b\<rparr>"
    using assms(3) False by (auto simp: dup_bytes_def Let_def b_def split: if_splits)
  have f: "bufs st q = None" using assms(2) False q by (simp add: cmalloc_fresh_def)
  have same: "same_content (xs @ ys) (bufs st) b"
    using slots_okD(2) [OF assms(1)] f False
    by (fastforce simp: same_content_def content_def b_def)
  have new: "content b q = bs" by (simp add: content_def b_def)
  have "slots_ok b (xs @ (q, int (length bs)) # ys)"
  proof (rule slots_okI)
    show "b 0 = None" using slots_ok_NULL [OF assms(1)] False by (simp add: b_def)
    show "p \<noteq> 0 \<Longrightarrow> count_list (map fst (xs @ (q, int (length bs)) # ys)) p = (if b p = None then 0 else 1)" for p
      using slots_ok_count [OF assms(1), of p] f by (cases "p = q") (auto simp: b_def)
    show "r \<in> set (xs @ (q, int (length bs)) # ys) \<Longrightarrow> snd r = int (length (content b (fst r)))" for r
      using slots_ok_len [OF assms(1), of r] same new unfolding same_content_def by auto
  qed
  with st' same new show ?thesis
    by (intro exI [of _ b]) simp
qed

lemma slots_cover: "slots_ok b ps \<Longrightarrow> dom b \<subseteq> fst ` set ps"
proof
  fix p assume s: "slots_ok b ps" and "p \<in> dom b"
  then have "p \<noteq> 0" and "b p \<noteq> None" using slots_ok_NULL [OF s] by auto
  then have "count_list (map fst ps) p = 1" using slots_ok_count [OF s] by simp
  then have "p \<in> set (map fst ps)" using count_list_0_iff [of "map fst ps" p] by auto
  then show "p \<in> fst ` set ps" by simp
qed

text \<open>\<open>malloc\<close> returns NULL to a request for the bytes of a string, at once or after the \<open>free\<close> of the old one.\<close>

definition refuses :: "cmalloc \<Rightarrow> byte list \<Rightarrow> lsp \<Rightarrow> bool" where
  "refuses A bs st \<longleftrightarrow> bs \<noteq> [] \<and> A st (int (length bs)) = 0"

definition replace_refused :: "cmalloc \<Rightarrow> addr \<Rightarrow> byte list \<Rightarrow> lsp \<Rightarrow> bool" where
  "replace_refused A p bs st \<longleftrightarrow> (\<exists>st1. free_buf p st = Some st1 \<and> refuses A bs st1)"

lemma dup_bytes_eq_None: "dup_bytes A bs st = None \<longleftrightarrow> refuses A bs st"
  by (auto simp: dup_bytes_def refuses_def Let_def)

lemma replace_refused_None: "replace_refused A p bs st \<Longrightarrow> \<exists>st1. free_buf p st = Some st1 \<and> dup_bytes A bs st1 = None"
  by (auto simp: replace_refused_def dup_bytes_eq_None)

text \<open>\<open>free(p); p = malloc(len); memcpy\<close>: the pattern by which every string is replaced.\<close>

lemma replace_slot:
  assumes "slots_ok (bufs st) (xs @ (p, n) # ys)" and "cmalloc_fresh A" and "\<not> replace_refused A p bs st"
  shows "\<exists>st1 q b. free_buf p st = Some st1 \<and> dup_bytes A bs st1 = Some (q, st\<lparr>bufs := b\<rparr>) \<and>
    slots_ok b (xs @ (q, int (length bs)) # ys) \<and> content b q = bs \<and> same_content (xs @ ys) (bufs st) b"
proof -
  define st1 where "st1 = st\<lparr>bufs := (bufs st)(p := None)\<rparr>"
  have f: "free_buf p st = Some st1" and s: "slots_ok (bufs st1) (xs @ ys)"
    and c: "same_content (xs @ ys) (bufs st) (bufs st1)"
    using free_slot [OF assms(1)] by (simp_all add: st1_def)
  have "dup_bytes A bs st1 \<noteq> None" using assms(3) f by (simp add: replace_refused_def dup_bytes_eq_None)
  then obtain q st' where d: "dup_bytes A bs st1 = Some (q, st')" by (cases "dup_bytes A bs st1") auto
  obtain b where "st' = st1\<lparr>bufs := b\<rparr>" "slots_ok b (xs @ (q, int (length bs)) # ys)"
    "content b q = bs" "same_content (xs @ ys) (bufs st1) b"
    using add_slot [OF s assms(2) d] by blast
  with f d c show ?thesis
    by (intro exI [of _ st1] exI [of _ q] exI [of _ b]) (simp add: st1_def same_content_def)
qed

section \<open>The document list\<close>

fun chain :: "(addr \<rightharpoonup> LspDoc) \<Rightarrow> addr \<Rightarrow> addr list \<Rightarrow> bool" where
  "chain N p [] \<longleftrightarrow> p = 0"
| "chain N p (a # as) \<longleftrightarrow> p = a \<and> a \<noteq> 0 \<and> (case N a of None \<Rightarrow> False | Some D \<Rightarrow> chain N (nxt D) as)"

definition doc_pair :: "LspDoc \<Rightarrow> (addr \<times> int) list" where
  "doc_pair D = [(uri D, uri_len D), (doc_text D, doc_text_len D)]"

definition doc_slots :: "(addr \<rightharpoonup> LspDoc) \<Rightarrow> addr list \<Rightarrow> (addr \<times> int) list" where
  "doc_slots N as = concat (map (\<lambda>a. case N a of None \<Rightarrow> [] | Some D \<Rightarrow> doc_pair D) as)"

definition docs_of :: "(addr \<rightharpoonup> byte list) \<Rightarrow> (addr \<rightharpoonup> LspDoc) \<Rightarrow> addr list \<Rightarrow> (byte list \<times> byte list) list" where
  "docs_of b N as = map (\<lambda>a. (content b (uri (the (N a))), content b (doc_text (the (N a))))) as"

definition global_slots :: "lsp \<Rightarrow> (addr \<times> int) list" where
  "global_slots st = [(g_lsp_active_uri st, g_lsp_active_uri_len st),
     (g_lsp_cached_uri st, g_lsp_cached_uri_len st), (g_lsp_cached_text st, g_lsp_cached_text_len st)]"

text \<open>
  The invariant, with \<open>as\<close> the addresses of the list's nodes: the list is the live structs, each
  once; no URI occurs twice; the documents and the globals own the live buffers.
\<close>

definition lsp_inv :: "lsp \<Rightarrow> addr list \<Rightarrow> bool" where
  "lsp_inv st as \<longleftrightarrow> chain (nodes st) (g_lsp_docs st) as \<and> distinct as \<and> set as = dom (nodes st) \<and>
     distinct (map fst (docs_of (bufs st) (nodes st) as)) \<and>
     slots_ok (bufs st) (doc_slots (nodes st) as @ global_slots st)"

lemma chain_live: "chain N p as \<Longrightarrow> a \<in> set as \<Longrightarrow> a \<noteq> 0 \<and> (\<exists>D. N a = Some D)"
  by (induction N p as rule: chain.induct) (auto split: option.splits)

lemma chain_cong: "(\<And>a. a \<in> set as \<Longrightarrow> map_option nxt (N' a) = map_option nxt (N a)) \<Longrightarrow>
    chain N' p as = chain N p as"
proof (induction N p as rule: chain.induct)
  case (2 N p a as)
  have "map_option nxt (N' a) = map_option nxt (N a)" using "2.prems" by simp
  with 2 show ?case by (cases "N a"; cases "N' a") auto
qed simp

lemma chain_other [simp]: "a \<notin> set as \<Longrightarrow> chain (N(a := x)) p as = chain N p as"
  by (rule chain_cong) auto

lemma chain_unlink:
  "chain N p (l @ d # r) \<Longrightarrow> distinct (l @ d # r) \<Longrightarrow> N d = Some D \<Longrightarrow>
   (if l = [] then chain (N(d := None)) (nxt D) r
    else \<exists>C. N (last l) = Some C \<and> chain (N(last l \<mapsto> C\<lparr>nxt := nxt D\<rparr>, d := None)) p (l @ r))"
proof (induction N p l rule: chain.induct)
  case (1 N p)
  then have "chain N (nxt D) r" by simp
  with 1 show ?case by simp
next
  case (2 N p a as)
  then obtain E where E: "N a = Some E" "chain N (nxt E) (as @ d # r)" "p = a" "a \<noteq> 0"
    by (auto split: option.splits)
  show ?case
  proof (cases "as = []")
    case True
    then have "chain N (nxt D) r" using E 2 by simp
    with True E 2 show ?thesis by auto
  next
    case False
    with 2 E obtain C where C: "N (last as) = Some C"
      "chain (N(last as \<mapsto> C\<lparr>nxt := nxt D\<rparr>, d := None)) (nxt E) (as @ r)" by auto
    moreover have "last as \<noteq> a" "d \<noteq> a" using 2 False by auto
    ultimately show ?thesis using False E by auto
  qed
qed

lemma doc_slots_simps [simp]:
  "doc_slots N [] = []" "doc_slots N (as @ cs) = doc_slots N as @ doc_slots N cs"
  "N a = Some D \<Longrightarrow> doc_slots N (a # as) = (uri D, uri_len D) # (doc_text D, doc_text_len D) # doc_slots N as"
  by (simp_all add: doc_slots_def doc_pair_def)

lemma doc_slots_cong: "(\<And>a. a \<in> set as \<Longrightarrow> map_option doc_pair (N' a) = map_option doc_pair (N a)) \<Longrightarrow>
    doc_slots N' as = doc_slots N as"
proof (induction as)
  case (Cons a as)
  have "map_option doc_pair (N' a) = map_option doc_pair (N a)" using Cons.prems by simp
  then have "(case N' a of None \<Rightarrow> [] | Some D \<Rightarrow> doc_pair D) = (case N a of None \<Rightarrow> [] | Some D \<Rightarrow> doc_pair D)"
    by (cases "N a"; cases "N' a") auto
  moreover have "doc_slots N' as = doc_slots N as" using Cons by simp
  ultimately show ?case by (simp add: doc_slots_def)
qed simp

lemma docs_of_simps [simp]:
  "docs_of b N [] = []" "docs_of b N (as @ cs) = docs_of b N as @ docs_of b N cs"
  "N a = Some D \<Longrightarrow> docs_of b N (a # as) = (content b (uri D), content b (doc_text D)) # docs_of b N as"
  by (simp_all add: docs_of_def)

text \<open>The documents depend only on the buffers their pairs name.\<close>

lemma docs_of_cong:
  assumes "same_content (doc_slots N as) b b'" and "\<And>a. a \<in> set as \<Longrightarrow> N a \<noteq> None"
    and "\<And>a. a \<in> set as \<Longrightarrow> map_option doc_pair (N' a) = map_option doc_pair (N a)"
  shows "docs_of b' N' as = docs_of b N as"
  using assms
proof (induction as)
  case (Cons a as)
  obtain D D' where D: "N a = Some D" "N' a = Some D'" "doc_pair D' = doc_pair D"
    using Cons.prems(2,3) [of a] by auto
  have "same_content (doc_slots N as) b b'" and c: "content b' (uri D) = content b (uri D)"
    "content b' (doc_text D) = content b (doc_text D)"
    using Cons.prems(1) D(1) by (simp_all add: same_content_def)
  with Cons.IH Cons.prems(2,3) have "docs_of b' N' as = docs_of b N as" by simp
  with D c show ?case by (simp add: doc_pair_def)
qed simp

lemma same_content_simps [simp]:
  "same_content ps b b" "same_content (xs @ ys) b b' \<longleftrightarrow> same_content xs b b' \<and> same_content ys b b'"
  "same_content (r # ys) b b' \<longleftrightarrow> content b' (fst r) = content b (fst r) \<and> same_content ys b b'"
  by (auto simp: same_content_def)

lemma slots_pairs:
  assumes "slots_ok (bufs st) (doc_slots (nodes st) as @ gs)" and "a \<in> set as" and "nodes st a = Some D"
  shows "lsp_bytes_eq (uri D) (uri_len D) u st = Some (content (bufs st) (uri D) = u)"
    and "read_buf (doc_text D) (doc_text_len D) st = Some (content (bufs st) (doc_text D))"
proof -
  have "(uri D, uri_len D) \<in> set (doc_slots (nodes st) as)"
    "(doc_text D, doc_text_len D) \<in> set (doc_slots (nodes st) as)"
    using assms(2,3) by (auto simp: doc_slots_def doc_pair_def intro!: bexI [of _ a])
  then show "lsp_bytes_eq (uri D) (uri_len D) u st = Some (content (bufs st) (uri D) = u)"
    and "read_buf (doc_text D) (doc_text_len D) st = Some (content (bufs st) (doc_text D))"
    using bytes_eq_slot [OF assms(1)] read_slot [OF assms(1)] by auto
qed

abbreviation key :: "lsp \<Rightarrow> addr \<Rightarrow> byte list" where
  "key st a \<equiv> content (bufs st) (uri (the (nodes st a)))"

lemma find_from_chain:
  assumes "slots_ok (bufs st) (doc_slots (nodes st) as @ gs)" and "chain (nodes st) p cs" and "set cs \<subseteq> set as"
  shows "find_from st p u = Some (case find (\<lambda>a. key st a = u) cs of None \<Rightarrow> 0 | Some a \<Rightarrow> a)"
  using assms(2,3)
proof (induction "nodes st" p cs rule: chain.induct)
  case (1 p)
  then show ?case by (simp add: find_from.simps)
next
  case (2 p a cs)
  then obtain D where D: "nodes st a = Some D" "chain (nodes st) (nxt D) cs" "p = a" "a \<noteq> 0"
    by (auto split: option.splits)
  have e: "lsp_bytes_eq (uri D) (uri_len D) u st = Some (content (bufs st) (uri D) = u)"
    using slots_pairs(1) [OF assms(1) _ D(1)] 2 by simp
  show ?case
    using 2 D e by (subst find_from.simps) simp
qed

lemma find_skip: "\<forall>a \<in> set l. \<not> P a \<Longrightarrow> find P (l @ r) = find P r"
  by (induction l) auto

lemma lsp_inv_split:
  assumes "lsp_inv st as"
  shows "(u \<notin> fst ` set (docs_of (bufs st) (nodes st) as) \<and> lsp_docs_find u st = Some 0) \<or>
    (\<exists>l d r D. as = l @ d # r \<and> d \<noteq> 0 \<and> nodes st d = Some D \<and> content (bufs st) (uri D) = u \<and>
      lsp_docs_find u st = Some d \<and> (\<forall>a \<in> set l. key st a \<noteq> u))"
proof -
  have f: "lsp_docs_find u st = Some (case find (\<lambda>a. key st a = u) as of None \<Rightarrow> 0 | Some a \<Rightarrow> a)"
    using find_from_chain [of st as "global_slots st" "g_lsp_docs st" as u] assms
    by (simp add: lsp_inv_def lsp_docs_find_def)
  show ?thesis
  proof (cases "\<exists>d \<in> set as. key st d = u")
    case False
    then have "find (\<lambda>a. key st a = u) as = None" by (auto simp: find_None_iff)
    with f False show ?thesis by (auto simp: docs_of_def)
  next
    case True
    obtain l d r where d: "as = l @ d # r" "key st d = u" "\<forall>a \<in> set l. key st a \<noteq> u"
      using split_list_first_propE [OF True] by metis
    have "find (\<lambda>a. key st a = u) as = Some d"
      using find_skip [of l "\<lambda>a. key st a = u" "d # r"] d by simp
    then have "lsp_docs_find u st = Some d" using f by simp
    moreover obtain D where "d \<noteq> 0" "nodes st d = Some D"
      using assms chain_live [of "nodes st" "g_lsp_docs st" as d] d(1) by (auto simp: lsp_inv_def)
    ultimately show ?thesis
      using d by (intro disjI2 exI [of _ l] exI [of _ d] exI [of _ r] exI [of _ D]) simp
  qed
qed

section \<open>What the state stands for\<close>

record lsp_view =
  docs :: "byte list \<rightharpoonup> byte list"
  active :: "byte list"
  pending :: int
  cache :: "(byte list \<times> byte list \<times> addr) option"

definition view :: "lsp \<Rightarrow> addr list \<Rightarrow> lsp_view" where
  "view st as = \<lparr>docs = map_of (docs_of (bufs st) (nodes st) as),
     active = content (bufs st) (g_lsp_active_uri st), pending = g_lsp_publish_pending st,
     cache = (if g_lsp_cached_cg st = 0 then None
       else Some (content (bufs st) (g_lsp_cached_uri st), content (bufs st) (g_lsp_cached_text st), g_lsp_cached_cg st))\<rparr>"

lemma view_init: "lsp_inv lsp_init []" "view lsp_init [] = \<lparr>docs = (\<lambda>_. None), active = [], pending = 0, cache = None\<rparr>"
  by (auto simp: lsp_inv_def lsp_init_def slots_ok_def global_slots_def view_def content_def)

lemma map_of_replace: "u \<notin> fst ` set xs \<Longrightarrow> map_of (xs @ (u, t) # ys) = (map_of (xs @ (u, t0) # ys))(u \<mapsto> t)"
  by (auto simp: fun_eq_iff map_add_def dom_map_of_conv_image_fst [symmetric] split: option.splits)

lemma map_of_drop: "u \<notin> fst ` set xs \<Longrightarrow> u \<notin> fst ` set ys \<Longrightarrow> map_of (xs @ ys) = (map_of (xs @ (u, t) # ys))(u := None)"
  by (induction xs) (auto simp: fun_eq_iff map_of_eq_None_iff)

text \<open>A change of one global string: the documents and the other globals are the same.\<close>

lemma inv_parts:
  assumes "lsp_inv st as"
  shows "chain (nodes st) (g_lsp_docs st) as" "distinct as" "set as = dom (nodes st)"
    "distinct (map fst (docs_of (bufs st) (nodes st) as))"
    "slots_ok (bufs st) (doc_slots (nodes st) as @ global_slots st)"
    "\<And>a. a \<in> set as \<Longrightarrow> nodes st a \<noteq> None" "finite (dom (nodes st))"
  using assms finite_set [of as] by (auto simp: lsp_inv_def)

lemma docs_kept:
  assumes "lsp_inv st as" and "same_content (doc_slots (nodes st) as) (bufs st) b"
  shows "docs_of b (nodes st) as = docs_of (bufs st) (nodes st) as"
  using docs_of_cong [OF assms(2)] inv_parts(6) [OF assms(1)] by blast

lemma set_active_spec:
  assumes "lsp_inv st as" and "cmalloc_fresh A" and "\<not> replace_refused A (g_lsp_active_uri st) u st"
  shows "\<exists>st'. lsp_set_active_uri A u st = Some st' \<and> lsp_inv st' as \<and>
    view st' as = (view st as)\<lparr>active := u\<rparr>"
proof -
  have s: "slots_ok (bufs st) (doc_slots (nodes st) as @ (g_lsp_active_uri st, g_lsp_active_uri_len st) #
      tl (global_slots st))"
    using inv_parts(5) [OF assms(1)] by (simp add: global_slots_def)
  obtain st1 q b where b: "free_buf (g_lsp_active_uri st) st = Some st1" "dup_bytes A u st1 = Some (q, st\<lparr>bufs := b\<rparr>)"
    "slots_ok b (doc_slots (nodes st) as @ (q, int (length u)) # tl (global_slots st))" "content b q = u"
    "same_content (doc_slots (nodes st) as @ tl (global_slots st)) (bufs st) b"
    using replace_slot [OF s assms(2,3)] by (elim exE conjE) (rule that)
  let ?st = "st\<lparr>bufs := b, g_lsp_active_uri := q, g_lsp_active_uri_len := int (length u)\<rparr>"
  have "lsp_set_active_uri A u st = Some ?st" using b(1,2) by (simp add: lsp_set_active_uri_def)
  moreover have d: "docs_of b (nodes st) as = docs_of (bufs st) (nodes st) as"
    using docs_kept [OF assms(1), of b] b(5) by simp
  moreover have "lsp_inv ?st as"
    using inv_parts [OF assms(1)] b(3) d by (simp add: lsp_inv_def global_slots_def)
  moreover have "view ?st as = (view st as)\<lparr>active := u\<rparr>"
    using d b(4,5) by (simp add: view_def global_slots_def)
  ultimately show ?thesis by blast
qed

definition cache_refused :: "cmalloc \<Rightarrow> byte list \<Rightarrow> byte list \<Rightarrow> lsp \<Rightarrow> bool" where
  "cache_refused A u t st \<longleftrightarrow> replace_refused A (g_lsp_cached_uri st) u st \<or>
     (\<exists>st1 p st2. free_buf (g_lsp_cached_uri st) st = Some st1 \<and> dup_bytes A u st1 = Some (p, st2) \<and>
        replace_refused A (g_lsp_cached_text st2) t (st2\<lparr>g_lsp_cached_uri := p, g_lsp_cached_uri_len := int (length u)\<rparr>))"

lemma cache_store_spec:
  assumes "lsp_inv st as" and "cmalloc_fresh A" and "\<not> cache_refused A u t st"
  shows "\<exists>st'. lsp_cache_store A u t cg st = Some st' \<and> lsp_inv st' as \<and>
    view st' as = (view st as)\<lparr>cache := (if cg = 0 then None else Some (u, t, cg))\<rparr>"
proof -
  let ?xs = "doc_slots (nodes st) as @ [(g_lsp_active_uri st, g_lsp_active_uri_len st)]"
  let ?ys = "[(g_lsp_cached_text st, g_lsp_cached_text_len st)]"
  have s: "slots_ok (bufs st) (?xs @ (g_lsp_cached_uri st, g_lsp_cached_uri_len st) # ?ys)"
    using inv_parts(5) [OF assms(1)] by (simp add: global_slots_def)
  obtain st1 p b where b: "free_buf (g_lsp_cached_uri st) st = Some st1" "dup_bytes A u st1 = Some (p, st\<lparr>bufs := b\<rparr>)"
    "slots_ok b (?xs @ (p, int (length u)) # ?ys)" "content b p = u" "same_content (?xs @ ?ys) (bufs st) b"
    using replace_slot [OF s assms(2)] assms(3) unfolding cache_refused_def by blast
  let ?st = "st\<lparr>bufs := b, g_lsp_cached_uri := p, g_lsp_cached_uri_len := int (length u)\<rparr>"
  have s': "slots_ok (bufs ?st) ((?xs @ [(p, int (length u))]) @ (g_lsp_cached_text st, g_lsp_cached_text_len st) # [])"
    using b(3) by simp
  obtain st2 q b' where b': "free_buf (g_lsp_cached_text st) ?st = Some st2" "dup_bytes A t st2 = Some (q, ?st\<lparr>bufs := b'\<rparr>)"
    "slots_ok b' ((?xs @ [(p, int (length u))]) @ (q, int (length t)) # [])" "content b' q = t"
    "same_content ((?xs @ [(p, int (length u))]) @ []) b b'"
    using replace_slot [OF s' assms(2), of t] assms(3) b(1,2) unfolding cache_refused_def by fastforce
  let ?st' = "?st\<lparr>bufs := b', g_lsp_cached_text := q, g_lsp_cached_text_len := int (length t), g_lsp_cached_cg := cg\<rparr>"
  have "lsp_cache_store A u t cg st = Some ?st'"
    using b(1,2) b'(1,2) by (simp add: lsp_cache_store_def)
  moreover have d: "docs_of b' (nodes st) as = docs_of (bufs st) (nodes st) as"
    using docs_kept [OF assms(1), of b'] b(5) b'(5) by (simp add: same_content_def)
  moreover have "lsp_inv ?st' as"
    using inv_parts [OF assms(1)] b'(3) d by (simp add: lsp_inv_def global_slots_def)
  moreover have "view ?st' as = (view st as)\<lparr>cache := (if cg = 0 then None else Some (u, t, cg))\<rparr>"
    using d b(4,5) b'(4,5) by (simp add: view_def)
  ultimately show ?thesis by blast
qed

lemma flag_specs:
  assumes "lsp_inv st as"
  shows "lsp_inv (lsp_set_publish_pending v st) as"
    "view (lsp_set_publish_pending v st) as = (view st as)\<lparr>pending := (if v = 0 then 0 else 1)\<rparr>"
    "lsp_inv (lsp_cache_invalidate st) as"
    "view (lsp_cache_invalidate st) as = (view st as)\<lparr>cache := None\<rparr>"
  using assms by (simp_all add: lsp_inv_def lsp_set_publish_pending_def lsp_cache_invalidate_def view_def global_slots_def)

text \<open>Storing a document: in place when its URI is known, else as a new first node.\<close>

lemma node_update:
  assumes "a \<notin> set as"
  shows "doc_slots (N(a := x)) as = doc_slots N as" "docs_of b (N(a := x)) as = docs_of b N as"
  using assms by (auto simp: docs_of_def intro!: doc_slots_cong)

lemma set_known_spec:
  assumes "lsp_inv st (l @ d # r)" and "cmalloc_fresh A" and "\<not> replace_refused A (doc_text D) t st"
    and "nodes st d = Some D" and "content (bufs st) (uri D) = u" and "lsp_docs_find u st = Some d" and "d \<noteq> 0"
  shows "\<exists>st'. lsp_docs_set A u t st = Some st' \<and> lsp_inv st' (l @ d # r) \<and>
    view st' (l @ d # r) = (view st (l @ d # r))\<lparr>docs := (docs (view st (l @ d # r)))(u \<mapsto> t)\<rparr>"
proof -
  let ?N = "nodes st" and ?as = "l @ d # r"
  let ?xs = "doc_slots ?N l @ [(uri D, uri_len D)]" and ?ys = "doc_slots ?N r @ global_slots st"
  have s: "slots_ok (bufs st) (?xs @ (doc_text D, doc_text_len D) # ?ys)"
    using inv_parts(5) [OF assms(1)] assms(4) by simp
  obtain st1 q b where b: "free_buf (doc_text D) st = Some st1" "dup_bytes A t st1 = Some (q, st\<lparr>bufs := b\<rparr>)"
    "slots_ok b (?xs @ (q, int (length t)) # ?ys)" "content b q = t" "same_content (?xs @ ?ys) (bufs st) b"
    using replace_slot [OF s assms(2,3)] by (elim exE conjE) (rule that)
  define D' where "D' = D\<lparr>doc_text := q, doc_text_len := int (length t)\<rparr>"
  define st' where "st' = st\<lparr>bufs := b, nodes := ?N(d \<mapsto> D')\<rparr>"
  have "lsp_docs_set A u t st = Some st'"
    using b(1,2) assms(4,6,7) by (simp add: lsp_docs_set_def st'_def D'_def)
  moreover have d: "d \<notin> set l" "d \<notin> set r" using inv_parts(2) [OF assms(1)] by auto
  have old: "docs_of b ?N l = docs_of (bufs st) ?N l" "docs_of b ?N r = docs_of (bufs st) ?N r"
    using docs_of_cong [of ?N l "bufs st" b ?N] docs_of_cong [of ?N r "bufs st" b ?N] b(5)
      inv_parts(6) [OF assms(1)] by simp_all
  have new: "docs_of b (?N(d \<mapsto> D')) ?as = docs_of (bufs st) ?N l @ (u, t) # docs_of (bufs st) ?N r"
    using d old b(4,5) assms(5) by (simp add: node_update D'_def)
  have cur: "docs_of (bufs st) ?N ?as = docs_of (bufs st) ?N l @ (u, content (bufs st) (doc_text D)) # docs_of (bufs st) ?N r"
    using assms(4,5) by simp
  have "lsp_inv st' ?as"
    unfolding lsp_inv_def
  proof (intro conjI)
    show "chain (nodes st') (g_lsp_docs st') ?as"
      using inv_parts(1) [OF assms(1)] assms(4) chain_cong [of ?as "?N(d \<mapsto> D')" ?N]
      by (simp add: st'_def D'_def)
    show "slots_ok (bufs st') (doc_slots (nodes st') ?as @ global_slots st')"
      using b(3) d by (simp add: st'_def D'_def node_update global_slots_def)
  qed (use inv_parts [OF assms(1)] assms(4) new cur in \<open>auto simp: st'_def\<close>)
  moreover have "u \<notin> fst ` set (docs_of (bufs st) ?N l)"
    using inv_parts(4) [OF assms(1)] cur by auto
  then have "map_of (docs_of b (?N(d \<mapsto> D')) ?as) = (map_of (docs_of (bufs st) ?N ?as))(u \<mapsto> t)"
    unfolding new cur by (rule map_of_replace)
  then have "view st' ?as = (view st ?as)\<lparr>docs := (docs (view st ?as))(u \<mapsto> t)\<rparr>"
    using b(5) by (simp add: view_def st'_def global_slots_def)
  ultimately show ?thesis by blast
qed

definition zero_doc :: LspDoc where
  "zero_doc = \<lparr>uri = 0, uri_len = 0, doc_text = 0, doc_text_len = 0, nxt = 0\<rparr>"

definition new_refused :: "cmalloc \<Rightarrow> byte list \<Rightarrow> byte list \<Rightarrow> lsp \<Rightarrow> bool" where
  "new_refused A u t st \<longleftrightarrow> A st 40 = 0 \<or> (\<exists>d st1. new_doc A zero_doc st = Some (d, st1) \<and>
     (refuses A u st1 \<or> (\<exists>p st2. dup_bytes A u st1 = Some (p, st2) \<and> refuses A t st2)))"

lemma set_new_spec:
  assumes "lsp_inv st as" and "cmalloc_fresh A" and "\<not> new_refused A u t st"
    and "u \<notin> fst ` set (docs_of (bufs st) (nodes st) as)" and "lsp_docs_find u st = Some 0"
  shows "\<exists>st' d. lsp_docs_set A u t st = Some st' \<and> lsp_inv st' (d # as) \<and>
    view st' (d # as) = (view st as)\<lparr>docs := (docs (view st as))(u \<mapsto> t)\<rparr>"
proof -
  define d where "d = A st 40"
  have d: "d \<noteq> 0" "nodes st d = None"
    using assms(2,3) by (auto simp: d_def new_refused_def cmalloc_fresh_def)
  then have das: "d \<notin> set as" using inv_parts(3) [OF assms(1)] by auto
  define st1 where "st1 = st\<lparr>nodes := (nodes st)(d \<mapsto> \<lparr>uri = 0, uri_len = 0, doc_text = 0, doc_text_len = 0, nxt = 0\<rparr>)\<rparr>"
  have nd: "new_doc A zero_doc st = Some (d, st1)" using d(1) by (simp add: new_doc_def d_def st1_def zero_doc_def Let_def)
  let ?ps = "doc_slots (nodes st) as @ global_slots st"
  have s1: "slots_ok (bufs st1) ([] @ ?ps)" using inv_parts(5) [OF assms(1)] by (simp add: st1_def)
  obtain p st2 where p: "dup_bytes A u st1 = Some (p, st2)"
    using assms(3) nd by (cases "dup_bytes A u st1") (auto simp: new_refused_def dup_bytes_eq_None)
  from add_slot [OF s1 assms(2) p] obtain b where b: "st2 = st1\<lparr>bufs := b\<rparr>"
    "slots_ok b ([(p, int (length u))] @ ?ps)" "content b p = u" "same_content ?ps (bufs st) b"
    by (auto simp: st1_def)
  have s2: "slots_ok (bufs st2) ([(p, int (length u))] @ ?ps)" using b by simp
  obtain q st3 where q: "dup_bytes A t st2 = Some (q, st3)"
    using assms(3) nd p by (cases "dup_bytes A t st2") (auto simp: new_refused_def dup_bytes_eq_None)
  from add_slot [OF s2 assms(2) q] obtain b' where b': "st3 = st1\<lparr>bufs := b'\<rparr>"
    "slots_ok b' ((p, int (length u)) # (q, int (length t)) # ?ps)" "content b' q = t"
    "content b' p = u" "same_content ?ps b b'"
    using b by auto
  define D where "D = \<lparr>uri = p, uri_len = int (length u), doc_text = q, doc_text_len = int (length t), nxt = g_lsp_docs st\<rparr>"
  define st' where "st' = st\<lparr>bufs := b', nodes := (nodes st)(d \<mapsto> D), g_lsp_docs := d\<rparr>"
  have r: "lsp_docs_set A u t st = Some st'"
    using assms(5) p q b(1) b'(1) d(1)
    by (simp add: lsp_docs_set_def new_doc_def Let_def d_def [symmetric] st1_def st'_def D_def)
  have old: "docs_of b' (nodes st) as = docs_of (bufs st) (nodes st) as"
    using docs_kept [OF assms(1), of b'] b(4) b'(5) by (simp add: same_content_def)
  then have new: "docs_of b' (nodes st') (d # as) = (u, t) # docs_of (bufs st) (nodes st) as"
    using b'(3,4) das by (simp add: st'_def D_def node_update)
  have i: "lsp_inv st' (d # as)"
    unfolding lsp_inv_def
  proof (intro conjI)
    show "slots_ok (bufs st') (doc_slots (nodes st') (d # as) @ global_slots st')"
      using b'(2) das by (simp add: st'_def D_def node_update global_slots_def)
    show "distinct (map fst (docs_of (bufs st') (nodes st') (d # as)))"
      using new assms(4) inv_parts(4) [OF assms(1)] by (simp add: st'_def)
  qed (use inv_parts [OF assms(1)] d das in \<open>auto simp: st'_def D_def\<close>)
  have "view st' (d # as) = (view st as)\<lparr>docs := (docs (view st as))(u \<mapsto> t)\<rparr>"
    using new b(4) b'(5) by (simp add: view_def st'_def global_slots_def)
  with r i show ?thesis by blast
qed

definition set_refused :: "cmalloc \<Rightarrow> byte list \<Rightarrow> byte list \<Rightarrow> lsp \<Rightarrow> bool" where
  "set_refused A u t st \<longleftrightarrow> (\<exists>d. lsp_docs_find u st = Some d \<and>
     (if d = 0 then new_refused A u t st else \<exists>D. nodes st d = Some D \<and> replace_refused A (doc_text D) t st))"

lemma docs_set_spec:
  assumes "lsp_inv st as" and "cmalloc_fresh A" and "\<not> set_refused A u t st"
  shows "\<exists>st' as'. lsp_docs_set A u t st = Some st' \<and> lsp_inv st' as' \<and>
    view st' as' = (view st as)\<lparr>docs := (docs (view st as))(u \<mapsto> t)\<rparr>"
  using lsp_inv_split [OF assms(1), of u]
proof (elim disjE exE conjE)
  fix l d r D
  assume h: "as = l @ d # r" "d \<noteq> 0" "nodes st d = Some D" "content (bufs st) (uri D) = u" "lsp_docs_find u st = Some d"
  have nr: "\<not> replace_refused A (doc_text D) t st" using assms(3) h(2,3,5) by (auto simp: set_refused_def)
  show ?thesis
    using set_known_spec [OF assms(1) [unfolded h(1)] assms(2) nr h(3,4,5,2)] unfolding h(1) by blast
next
  assume h: "u \<notin> fst ` set (docs_of (bufs st) (nodes st) as)" "lsp_docs_find u st = Some 0"
  have "\<not> new_refused A u t st" using assms(3) h(2) by (auto simp: set_refused_def)
  then show ?thesis using set_new_spec [OF assms(1,2) _ h] by blast
qed

lemma docs_get_spec:
  assumes "lsp_inv st as"
  shows "lsp_docs_get u st = Some (case docs (view st as) u of None \<Rightarrow> [] | Some t \<Rightarrow> t)"
  using lsp_inv_split [OF assms, of u]
proof (elim disjE exE conjE)
  fix l d r D
  assume h: "as = l @ d # r" "d \<noteq> 0" "nodes st d = Some D" "content (bufs st) (uri D) = u" "lsp_docs_find u st = Some d"
  have "map_of (docs_of (bufs st) (nodes st) as) u = Some (content (bufs st) (doc_text D))"
    using inv_parts(4) [OF assms] h by (intro map_of_is_SomeI) auto
  then show ?thesis
    using h slots_pairs(2) [OF inv_parts(5) [OF assms], of d D] by (simp add: lsp_docs_get_def view_def)
qed (force simp: lsp_docs_get_def view_def dest: map_of_SomeD split: option.splits)

text \<open>Removing a document: the walk stops at the slot that points to its node.\<close>

definition unlink :: "slot \<Rightarrow> addr \<Rightarrow> LspDoc \<Rightarrow> lsp \<Rightarrow> lsp option" where
  "unlink slot d D st = do {
     st \<leftarrow> set_slot slot (nxt D) st;
     st \<leftarrow> free_buf (uri D) st;
     st \<leftarrow> free_buf (doc_text D) st;
     free_doc d st
   }"

lemma remove_at_absent:
  assumes "slots_ok (bufs st) (doc_slots (nodes st) as @ gs)" and "chain (nodes st) p cs"
    and "get_slot slot st = Some p" and "set cs \<subseteq> set as" and "\<forall>a \<in> set cs. key st a \<noteq> u"
  shows "remove_at slot u st = Some st"
  using assms(2-)
proof (induction "nodes st" p cs arbitrary: slot rule: chain.induct)
  case (1 p)
  then show ?case by (subst remove_at.simps) simp
next
  case (2 p a cs)
  then obtain D where D: "nodes st a = Some D" "chain (nodes st) (nxt D) cs" "p = a" "a \<noteq> 0"
    by (auto split: option.splits)
  have e: "lsp_bytes_eq (uri D) (uri_len D) u st = Some False"
    using slots_pairs(1) [OF assms(1) _ D(1)] 2 D(1) by simp
  show ?case
    using 2 D e by (subst remove_at.simps) simp
qed

lemma remove_at_found:
  assumes "slots_ok (bufs st) (doc_slots (nodes st) as @ gs)" and "chain (nodes st) p (l @ d # r)"
    and "get_slot slot st = Some p" and "set (l @ d # r) \<subseteq> set as" and "\<forall>a \<in> set l. key st a \<noteq> u"
    and "nodes st d = Some E" and "content (bufs st) (uri E) = u"
  shows "remove_at slot u st = unlink (if l = [] then slot else Next_Of (last l)) d E st"
  using assms(2-5)
proof (induction "nodes st" p l arbitrary: slot rule: chain.induct)
  case (1 p)
  have "lsp_bytes_eq (uri E) (uri_len E) u st = Some True"
    using slots_pairs(1) [OF assms(1) _ assms(6)] 1 assms(7) by simp
  then show ?case
    using 1 assms(6) by (subst remove_at.simps) (simp add: unlink_def)
next
  case (2 p a l)
  then obtain D where D: "nodes st a = Some D" "chain (nodes st) (nxt D) (l @ d # r)" "p = a" "a \<noteq> 0"
    by (auto split: option.splits)
  have e: "lsp_bytes_eq (uri D) (uri_len D) u st = Some False"
    using slots_pairs(1) [OF assms(1) _ D(1)] 2 D(1) by simp
  have "remove_at slot u st = remove_at (Next_Of a) u st"
    using 2 D e by (subst remove_at.simps) simp
  with 2 D show ?case by simp
qed

lemma unlink_frees:
  assumes "slots_ok (bufs st) (xs @ (uri D, m) # (doc_text D, n) # ys)" and "set_slot slot (nxt D) st = Some st1"
    and "nodes st1 d \<noteq> None" and "bufs st1 = bufs st"
  shows "\<exists>b. unlink slot d D st = Some (st1\<lparr>bufs := b, nodes := (nodes st1)(d := None)\<rparr>) \<and> slots_ok b (xs @ ys) \<and>
    same_content (xs @ ys) (bufs st) b"
proof -
  define st2 where "st2 = st1\<lparr>bufs := (bufs st1)(uri D := None)\<rparr>"
  have s1: "slots_ok (bufs st1) (xs @ (uri D, m) # (doc_text D, n) # ys)" using assms(1,4) by simp
  have f: "free_buf (uri D) st1 = Some st2" "slots_ok (bufs st2) (xs @ (doc_text D, n) # ys)"
    "same_content (xs @ (doc_text D, n) # ys) (bufs st1) (bufs st2)"
    using free_slot [OF s1] by (simp_all add: st2_def)
  let ?b = "(bufs st2)(doc_text D := None)"
  have g: "free_buf (doc_text D) st2 = Some (st2\<lparr>bufs := ?b\<rparr>)" "slots_ok ?b (xs @ ys)"
    "same_content (xs @ ys) (bufs st2) ?b"
    using free_slot [OF f(2)] by simp_all
  have "unlink slot d D st = Some (st1\<lparr>bufs := ?b, nodes := (nodes st1)(d := None)\<rparr>)"
    using assms(2,3) f(1) g(1) by (auto simp: unlink_def free_doc_def st2_def)
  with g(2,3) f(3) assms(4) show ?thesis
    by (intro exI [of _ ?b]) (simp add: same_content_def)
qed

lemma set_slot_unlinks:
  assumes "lsp_inv st (l @ d # r)" and "nodes st d = Some D"
  defines "slot \<equiv> if l = [] then Docs_Head else Next_Of (last l)"
  shows "\<exists>N p. set_slot slot (nxt D) st = Some (st\<lparr>nodes := N, g_lsp_docs := p\<rparr>) \<and>
    chain (N(d := None)) p (l @ r) \<and> dom N = dom (nodes st) \<and>
    (\<forall>a. map_option doc_pair (N a) = map_option doc_pair (nodes st a))"
proof (cases "l = []")
  case True
  then show ?thesis
    using chain_unlink [OF inv_parts(1,2) [OF assms(1)] assms(2)]
    by (intro exI [of _ "nodes st"] exI [of _ "nxt D"]) (simp add: slot_def)
next
  case False
  then obtain C where C: "nodes st (last l) = Some C"
    "chain ((nodes st)(last l \<mapsto> C\<lparr>nxt := nxt D\<rparr>, d := None)) (g_lsp_docs st) (l @ r)"
    using chain_unlink [OF inv_parts(1,2) [OF assms(1)] assms(2)] by auto
  then show ?thesis
    using False
    by (intro exI [of _ "(nodes st)(last l \<mapsto> C\<lparr>nxt := nxt D\<rparr>)"] exI [of _ "g_lsp_docs st"])
      (auto simp: slot_def doc_pair_def)
qed

lemma remove_known_spec:
  assumes "lsp_inv st (l @ d # r)" and "nodes st d = Some D" and "content (bufs st) (uri D) = u"
    and "\<forall>a \<in> set l. key st a \<noteq> u"
  shows "\<exists>st'. lsp_docs_remove u st = Some st' \<and> lsp_inv st' (l @ r) \<and>
    view st' (l @ r) = (view st (l @ d # r))\<lparr>docs := (docs (view st (l @ d # r)))(u := None)\<rparr>"
proof -
  let ?as = "l @ d # r" and ?slot = "if l = [] then Docs_Head else Next_Of (last l)"
  note inv = inv_parts [OF assms(1)]
  have d: "d \<notin> set l" "d \<notin> set r" using inv(2) by auto
  obtain N p where N: "set_slot ?slot (nxt D) st = Some (st\<lparr>nodes := N, g_lsp_docs := p\<rparr>)"
    "chain (N(d := None)) p (l @ r)" "dom N = dom (nodes st)"
    "\<And>a. map_option doc_pair (N a) = map_option doc_pair (nodes st a)"
    using set_slot_unlinks [OF assms(1,2)] by blast
  have s: "slots_ok (bufs st) (doc_slots (nodes st) l @ (uri D, uri_len D) # (doc_text D, doc_text_len D) #
      (doc_slots (nodes st) r @ global_slots st))"
    using inv(5) assms(2) by simp
  obtain b where b: "unlink ?slot d D st = Some (st\<lparr>bufs := b, nodes := N(d := None), g_lsp_docs := p\<rparr>)"
    "slots_ok b (doc_slots (nodes st) l @ doc_slots (nodes st) r @ global_slots st)"
    "same_content (doc_slots (nodes st) l @ doc_slots (nodes st) r @ global_slots st) (bufs st) b"
  proof -
    have "N d \<noteq> None" using N(3) assms(2) by blast
    then have "nodes (st\<lparr>nodes := N, g_lsp_docs := p\<rparr>) d \<noteq> None" by simp
    from unlink_frees [OF s N(1) this] obtain b where
      "unlink ?slot d D st = Some (st\<lparr>nodes := N, g_lsp_docs := p, bufs := b, nodes := N(d := None)\<rparr>)"
      "slots_ok b (doc_slots (nodes st) l @ doc_slots (nodes st) r @ global_slots st)"
      "same_content (doc_slots (nodes st) l @ doc_slots (nodes st) r @ global_slots st) (bufs st) b"
      by auto
    then show thesis by (intro that [of b]) simp_all
  qed
  define st' where "st' = st\<lparr>bufs := b, nodes := N(d := None), g_lsp_docs := p\<rparr>"
  have "lsp_docs_remove u st = Some st'"
    using remove_at_found [OF inv(5,1) _ subset_refl assms(4,2,3)] b(1)
    by (simp add: lsp_docs_remove_def st'_def)
  moreover have pair: "a \<in> set (l @ r) \<Longrightarrow> map_option doc_pair ((N(d := None)) a) = map_option doc_pair (nodes st a)" for a
    using N(4) d by auto
  have slots: "doc_slots (N(d := None)) (l @ r) = doc_slots (nodes st) (l @ r)"
    using pair by (rule doc_slots_cong)
  have docs: "docs_of b (N(d := None)) (l @ r) = docs_of (bufs st) (nodes st) (l @ r)"
    using b(3) inv(6) pair by (intro docs_of_cong) auto
  have cur: "docs_of (bufs st) (nodes st) ?as =
      docs_of (bufs st) (nodes st) l @ (u, content (bufs st) (doc_text D)) # docs_of (bufs st) (nodes st) r"
    using assms(2,3) by simp
  have "lsp_inv st' (l @ r)"
    unfolding lsp_inv_def
  proof (intro conjI)
    show "slots_ok (bufs st') (doc_slots (nodes st') (l @ r) @ global_slots st')"
      using b(2) slots by (simp add: st'_def global_slots_def)
    show "set (l @ r) = dom (nodes st')" using inv(3) N(3) d by (auto simp: st'_def)
    show "distinct (map fst (docs_of (bufs st') (nodes st') (l @ r)))"
      using docs inv(4) cur by (simp add: st'_def)
  qed (use N(2) inv(2) in \<open>simp_all add: st'_def\<close>)
  moreover have "map_of (docs_of b (N(d := None)) (l @ r)) = (map_of (docs_of (bufs st) (nodes st) ?as))(u := None)"
  proof -
    have "u \<notin> fst ` set (docs_of (bufs st) (nodes st) l)" "u \<notin> fst ` set (docs_of (bufs st) (nodes st) r)"
      using inv(4) cur by auto
    then show ?thesis unfolding docs cur using map_of_drop by (metis docs_of_simps(2))
  qed
  then have "view st' (l @ r) = (view st ?as)\<lparr>docs := (docs (view st ?as))(u := None)\<rparr>"
    using b(3) by (simp add: view_def st'_def global_slots_def)
  ultimately show ?thesis by blast
qed

lemma docs_remove_spec:
  assumes "lsp_inv st as"
  shows "\<exists>st' as'. lsp_docs_remove u st = Some st' \<and> lsp_inv st' as' \<and>
    view st' as' = (view st as)\<lparr>docs := (docs (view st as))(u := None)\<rparr>"
  using lsp_inv_split [OF assms, of u]
proof (elim disjE exE conjE)
  assume u: "u \<notin> fst ` set (docs_of (bufs st) (nodes st) as)"
  then have "\<forall>a \<in> set as. key st a \<noteq> u" by (force simp: docs_of_def)
  then have "lsp_docs_remove u st = Some st"
    using remove_at_absent [OF inv_parts(5,1) [OF assms], of Docs_Head u] by (simp add: lsp_docs_remove_def)
  moreover have "(docs (view st as))(u := None) = docs (view st as)"
    using u by (simp add: view_def fun_upd_idem map_of_eq_None_iff)
  ultimately show ?thesis using assms by (intro exI [of _ st] exI [of _ as]) simp
next
  fix l d r D
  assume h: "as = l @ d # r" "nodes st d = Some D" "content (bufs st) (uri D) = u" "\<forall>a \<in> set l. key st a \<noteq> u"
  show ?thesis
    using remove_known_spec [OF assms [unfolded h(1)] h(2,3,4)] unfolding h(1) by blast
qed

section \<open>Runs of the server state\<close>

datatype lsp_op = Docs_Set "byte list" "byte list" | Docs_Remove "byte list" | Set_Active "byte list"
  | Set_Pending int | Cache_Store "byte list" "byte list" addr | Cache_Invalidate

fun lsp_step :: "cmalloc \<Rightarrow> lsp_op \<Rightarrow> lsp \<Rightarrow> lsp option" where
  "lsp_step A (Docs_Set u t) st = lsp_docs_set A u t st"
| "lsp_step A (Docs_Remove u) st = lsp_docs_remove u st"
| "lsp_step A (Set_Active u) st = lsp_set_active_uri A u st"
| "lsp_step A (Set_Pending v) st = Some (lsp_set_publish_pending v st)"
| "lsp_step A (Cache_Store u t cg) st = lsp_cache_store A u t cg st"
| "lsp_step A Cache_Invalidate st = Some (lsp_cache_invalidate st)"

fun lsp_spec :: "lsp_op \<Rightarrow> lsp_view \<Rightarrow> lsp_view" where
  "lsp_spec (Docs_Set u t) V = V\<lparr>docs := (docs V)(u \<mapsto> t)\<rparr>"
| "lsp_spec (Docs_Remove u) V = V\<lparr>docs := (docs V)(u := None)\<rparr>"
| "lsp_spec (Set_Active u) V = V\<lparr>active := u\<rparr>"
| "lsp_spec (Set_Pending v) V = V\<lparr>pending := (if v = 0 then 0 else 1)\<rparr>"
| "lsp_spec (Cache_Store u t cg) V = V\<lparr>cache := (if cg = 0 then None else Some (u, t, cg))\<rparr>"
| "lsp_spec Cache_Invalidate V = V\<lparr>cache := None\<rparr>"

definition view_init_state :: lsp_view where
  "view_init_state = \<lparr>docs = (\<lambda>_. None), active = [], pending = 0, cache = None\<rparr>"

text \<open>The operation makes a request for memory to which \<open>malloc\<close> returns NULL, and copies into it.\<close>

fun step_refused :: "cmalloc \<Rightarrow> lsp_op \<Rightarrow> lsp \<Rightarrow> bool" where
  "step_refused A (Docs_Set u t) st \<longleftrightarrow> set_refused A u t st"
| "step_refused A (Set_Active u) st \<longleftrightarrow> replace_refused A (g_lsp_active_uri st) u st"
| "step_refused A (Cache_Store u t cg) st \<longleftrightarrow> cache_refused A u t st"
| "step_refused A _ st \<longleftrightarrow> False"

lemma refused_None: "step_refused A x st \<Longrightarrow> lsp_step A x st = None"
proof (cases x)
  case (Docs_Set u t)
  assume "step_refused A x st"
  then obtain d where d: "lsp_docs_find u st = Some d"
    "if d = 0 then new_refused A u t st else \<exists>D. nodes st d = Some D \<and> replace_refused A (doc_text D) t st"
    using Docs_Set by (auto simp: set_refused_def)
  have "lsp_docs_set A u t st = None"
  proof (cases "d = 0")
    case True
    then have "new_refused A u t st" using d by simp
    then show ?thesis using d(1) True
      by (auto simp: new_refused_def lsp_docs_set_def new_doc_def zero_doc_def Let_def iffD2 [OF dup_bytes_eq_None] split: if_splits)
  next
    case False
    then obtain D where "nodes st d = Some D" "replace_refused A (doc_text D) t st" using d by auto
    then show ?thesis using d(1) False by (auto simp: lsp_docs_set_def dest!: replace_refused_None)
  qed
  then show ?thesis using Docs_Set by simp
next
  case (Set_Active u)
  assume "step_refused A x st"
  then show ?thesis using Set_Active by (auto simp: lsp_set_active_uri_def dest!: replace_refused_None)
next
  case (Cache_Store u t cg)
  assume "step_refused A x st"
  then show ?thesis using Cache_Store
    by (auto simp: lsp_cache_store_def cache_refused_def Let_def dest!: replace_refused_None)
qed simp_all

text \<open>With memory that never runs out no request is refused: only finitely many objects are live.\<close>

definition finite_live :: "lsp \<Rightarrow> bool" where
  "finite_live st \<longleftrightarrow> finite (dom (bufs st)) \<and> finite (dom (nodes st))"

lemma finite_live_steps:
  "finite_live st \<Longrightarrow> free_buf p st = Some st1 \<Longrightarrow> finite_live st1"
  "finite_live st \<Longrightarrow> dup_bytes A bs st = Some (q, st2) \<Longrightarrow> finite_live st2"
  "finite_live st \<Longrightarrow> new_doc A D st = Some (d, st3) \<Longrightarrow> finite_live st3"
  "finite_live st \<Longrightarrow> finite_live (st\<lparr>g_lsp_cached_uri := p, g_lsp_cached_uri_len := n\<rparr>)"
  by (auto simp: finite_live_def free_buf_def dup_bytes_def new_doc_def Let_def split: if_splits option.splits)

lemma inv_finite_live: "lsp_inv st as \<Longrightarrow> finite_live st"
  using finite_subset [OF slots_cover [OF inv_parts(5)]] inv_parts(7) unfolding finite_live_def by blast

lemma room_serves: "cmalloc_has_room A \<Longrightarrow> finite_live st \<Longrightarrow> \<not> refuses A bs st \<and> \<not> replace_refused A p bs st"
proof -
  assume A: "cmalloc_has_room A" and st: "finite_live st"
  have r: "\<not> refuses A bs st" if "finite_live st" for st
    using A that by (auto simp: refuses_def cmalloc_has_room_def finite_live_def)
  show ?thesis using r [OF st] r finite_live_steps(1) [OF st] by (auto simp: replace_refused_def)
qed

lemma room_never_refused:
  assumes "cmalloc_has_room A" and "lsp_inv st as"
  shows "\<not> step_refused A x st"
proof -
  note f = inv_finite_live [OF assms(2)]
  have "A st 40 \<noteq> 0" using assms(1) f by (simp add: cmalloc_has_room_def finite_live_def)
  then have "\<not> new_refused A u t st" for u t
    using room_serves [OF assms(1)] finite_live_steps(2,3) f unfolding new_refused_def by blast
  moreover have "\<not> cache_refused A u t st" for u t
    using f room_serves [OF assms(1)] finite_live_steps(1,2,4) unfolding cache_refused_def by blast
  ultimately show ?thesis
    using room_serves [OF assms(1) f] by (cases x) (auto simp: set_refused_def split: if_splits)
qed

lemma lsp_step_refines:
  assumes "lsp_inv st as" and "cmalloc_fresh A" and "\<not> step_refused A x st"
  shows "\<exists>st' as'. lsp_step A x st = Some st' \<and> lsp_inv st' as' \<and> view st' as' = lsp_spec x (view st as)"
proof (cases x)
  case (Docs_Set u t)
  then show ?thesis using docs_set_spec [OF assms(1,2)] assms(3) by simp
next
  case (Docs_Remove u)
  then show ?thesis using docs_remove_spec [OF assms(1)] by simp
next
  case (Set_Active u)
  then show ?thesis using set_active_spec [OF assms(1,2), of u] assms(3) by auto
next
  case (Cache_Store u t cg)
  then show ?thesis using cache_store_spec [OF assms(1,2), of u t cg] assms(3) by (auto simp del: if_split)
next
  case (Set_Pending v)
  then show ?thesis using flag_specs(1,2) [OF assms(1), of v] by (intro exI) (simp del: if_split)
next
  case Cache_Invalidate
  then show ?thesis using flag_specs(3,4) [OF assms(1)] by auto
qed

interpretation lsp: simulation "lsp_step A" "\<lambda>st V. \<exists>as. lsp_inv st as \<and> view st as = V" lsp_spec
  "cmalloc_fresh A \<and> cmalloc_has_room A" "\<lambda>_. True" for A
  by unfold_locales (use lsp_step_refines room_never_refused in blast)

interpretation lsp_partial: partial_simulation "lsp_step A" "\<lambda>st V. \<exists>as. lsp_inv st as \<and> view st as = V" lsp_spec
  "cmalloc_fresh A" "step_refused A" for A
  by unfold_locales (use lsp_step_refines refused_None in blast)

text \<open>What the getters and the cache lookup show of a state, in terms of its view.\<close>

definition shows_view :: "lsp \<Rightarrow> lsp_view \<Rightarrow> bool" where
  "shows_view st V \<longleftrightarrow>
     (\<forall>u. lsp_docs_get u st = Some (case docs V u of None \<Rightarrow> [] | Some t \<Rightarrow> t)) \<and>
     lsp_get_active_uri st = Some (active V) \<and> lsp_get_publish_pending st = pending V \<and>
     (\<forall>u t. lsp_cache_lookup u t st =
        Some (case cache V of None \<Rightarrow> 0 | Some (cu, ct, _) \<Rightarrow> if cu = u \<and> ct = t then 1 else 0)) \<and>
     lsp_cache_get_cg st = (case cache V of None \<Rightarrow> 0 | Some (_, _, cg) \<Rightarrow> cg)"

lemma global_reads:
  assumes "lsp_inv st as"
  shows "read_buf (g_lsp_active_uri st) (g_lsp_active_uri_len st) st = Some (content (bufs st) (g_lsp_active_uri st))"
    "lsp_bytes_eq (g_lsp_cached_uri st) (g_lsp_cached_uri_len st) u st =
       Some (content (bufs st) (g_lsp_cached_uri st) = u)"
    "lsp_bytes_eq (g_lsp_cached_text st) (g_lsp_cached_text_len st) t st =
       Some (content (bufs st) (g_lsp_cached_text st) = t)"
  by (rule read_slot [OF inv_parts(5) [OF assms]] bytes_eq_slot [OF inv_parts(5) [OF assms]],
      simp add: global_slots_def)+

lemma inv_shows_view: "lsp_inv st as \<Longrightarrow> shows_view st (view st as)"
  unfolding shows_view_def
  using docs_get_spec [of st as] global_reads [of st as]
  by (simp add: lsp_get_active_uri_def lsp_get_publish_pending_def lsp_cache_get_cg_def lsp_cache_lookup_def view_def)

lemma run_shows_view:
  assumes "cmalloc_fresh A" and "cmalloc_has_room A"
  shows "\<exists>st. run_ops (lsp_step A) xs lsp_init = Some st \<and> shows_view st (fold lsp_spec xs view_init_state) \<and>
    (\<exists>as. lsp_inv st as \<and> view st as = fold lsp_spec xs view_init_state)"
proof -
  have "list_all (\<lambda>_. True) xs" by (simp add: list_all_iff)
  then show ?thesis
    using lsp.run_refines [of A xs lsp_init view_init_state] assms view_init inv_shows_view
    unfolding view_init_state_def by metis
qed

lemma partial_run_shows_view:
  assumes "cmalloc_fresh A"
  shows "case run_ops (lsp_step A) xs lsp_init of
      Some st \<Rightarrow> \<exists>as. lsp_inv st as \<and> view st as = fold lsp_spec xs view_init_state
    | None \<Rightarrow> \<exists>ys x zs st. xs = ys @ x # zs \<and> run_ops (lsp_step A) ys lsp_init = Some st \<and> step_refused A x st"
  using lsp_partial.run_or_stops [OF assms, of lsp_init view_init_state xs] view_init
  unfolding view_init_state_def by fastforce



lemma live_counts:
  assumes "lsp_inv st as"
  shows "card (dom (nodes st)) = card (dom (docs (view st as)))"
    and "card (dom (bufs st)) \<le> 2 * card (dom (nodes st)) + 3"
proof -
  note inv = inv_parts [OF assms]
  have n: "card (dom (nodes st)) = length as" using inv(2,3) distinct_card [of as] by simp
  have "card (dom (docs (view st as))) = card (fst ` set (docs_of (bufs st) (nodes st) as))"
    by (simp add: view_def dom_map_of_conv_image_fst)
  also have "\<dots> = length (map fst (docs_of (bufs st) (nodes st) as))"
    using distinct_card [OF inv(4)] by simp
  finally show "card (dom (nodes st)) = card (dom (docs (view st as)))" using n by (simp add: docs_of_def)
  have "length (doc_slots (nodes st) cs) = 2 * length cs" if "set cs \<subseteq> dom (nodes st)" for cs
    using that by (induction cs) auto
  then have l: "length (doc_slots (nodes st) as @ global_slots st) = 2 * length as + 3"
    using inv(3) by (simp add: global_slots_def)
  have "card (dom (bufs st)) \<le> card (fst ` set (doc_slots (nodes st) as @ global_slots st))"
    using slots_cover [OF inv(5)] by (intro card_mono) auto
  also have "\<dots> \<le> 2 * length as + 3"
    using card_image_le [of "set (doc_slots (nodes st) as @ global_slots st)" fst]
      card_length [of "doc_slots (nodes st) as @ global_slots st"] l by simp
  finally show "card (dom (bufs st)) \<le> 2 * card (dom (nodes st)) + 3" using n by simp
qed

text \<open>A \<open>malloc\<close> that meets the assumptions: the address after the largest in use.\<close>

definition next_free :: cmalloc where
  "next_free st n = (if finite (dom (bufs st)) \<and> finite (dom (nodes st))
     then 1 + Max (insert 0 (dom (bufs st) \<union> dom (nodes st))) else 0)"

lemma next_free_ok: "cmalloc_fresh next_free" "cmalloc_has_room next_free"
proof -
  have "x \<in> dom (bufs st) \<union> dom (nodes st) \<Longrightarrow> finite (dom (bufs st)) \<and> finite (dom (nodes st)) \<Longrightarrow>
      x < next_free st n" for x st n
  proof -
    assume x: "x \<in> dom (bufs st) \<union> dom (nodes st)" and f: "finite (dom (bufs st)) \<and> finite (dom (nodes st))"
    then have "x \<le> Max (insert 0 (dom (bufs st) \<union> dom (nodes st)))" by (intro Max_ge) auto
    with f show "x < next_free st n" unfolding next_free_def by simp
  qed
  then show "cmalloc_fresh next_free"
    unfolding cmalloc_fresh_def by (metis UnCI domIff less_irrefl next_free_def)
  have "0 \<le> Max (insert 0 (dom (bufs st) \<union> dom (nodes st)))"
    if "finite (dom (bufs st)) \<and> finite (dom (nodes st))" for st
    using that by (simp add: Max_ge)
  then show "cmalloc_has_room next_free"
    unfolding cmalloc_has_room_def next_free_def by fastforce
qed

section \<open>Properties\<close>

text \<open>
  C11. Whatever sequence of document edits, closes, cache stores and invalidations the server
  performs: as long as \<open>malloc\<close> gives it memory every operation has defined behaviour (no double free, no stray read), and the getters
  and the cache lookup then show exactly what the abstract state has: a map from URIs to texts
  (empty for an unknown URI), the last active URI, the flag as 0 or 1, and the last compile that
  was stored since the last invalidation. A run without defined behaviour ends at an operation with a request of its own to which
  \<open>malloc\<close> returns NULL, which the code does not check.
\<close>

theorem lsp_run_refines:
  assumes "cmalloc_fresh A"
  shows "case run_ops (lsp_step A) xs lsp_init of
      Some st \<Rightarrow> shows_view st (fold lsp_spec xs view_init_state)
    | None \<Rightarrow> \<exists>ys x zs st. xs = ys @ x # zs \<and> run_ops (lsp_step A) ys lsp_init = Some st \<and> step_refused A x st"
  using partial_run_shows_view [OF assms, of xs] inv_shows_view by (cases "run_ops (lsp_step A) xs lsp_init") fastforce+

theorem lsp_run_refines_witness:
  "(\<exists>st. run_ops (lsp_step next_free) [Docs_Set [1] [5], Docs_Set [2] [6], Docs_Set [1] [7, 8], Docs_Remove [2]] lsp_init =
      Some st \<and> lsp_docs_get [1] st = Some [7, 8] \<and> lsp_docs_get [2] st = Some []) \<and>
   run_ops (lsp_step (\<lambda>_ _. 0)) [Set_Active []] lsp_init \<noteq> None"
proof
  let ?xs = "[Docs_Set [1] [5], Docs_Set [2] [6], Docs_Set [1] [7, 8], Docs_Remove [2]]"
  obtain st where run: "run_ops (lsp_step next_free) ?xs lsp_init = Some st"
    using run_shows_view [OF next_free_ok] by blast
  show "\<exists>st. run_ops (lsp_step next_free) ?xs lsp_init = Some st \<and> lsp_docs_get [1] st = Some [7, 8] \<and> lsp_docs_get [2] st = Some []"
    using lsp_run_refines [OF next_free_ok(1), of ?xs] unfolding run by (auto simp: shows_view_def view_init_state_def)
  have "cmalloc_fresh (\<lambda>_ _. 0)" by (simp add: cmalloc_fresh_def)
  from lsp_run_refines [OF this, of "[Set_Active []]"]
  show "run_ops (lsp_step (\<lambda>_ _. 0)) [Set_Active []] lsp_init \<noteq> None"
    by (auto simp: Cons_eq_append_conv replace_refused_def refuses_def simp del: run_ops.simps split: option.splits)
qed

text \<open>The \<open>malloc\<close> that never has memory: the copy of a URI goes to NULL.\<close>

lemma set_active_refused: "lsp_set_active_uri (\<lambda>_ _. 0) [1] lsp_init = None"
  by (simp add: lsp_set_active_uri_def lsp_init_def free_buf_def dup_bytes_def Let_def)



text \<open>
  C13. Nothing leaks: after any sequence of operations there is one live struct per open document,
  and at most two live buffers per document and three for the globals.
\<close>

theorem lsp_memory_bounded:
  assumes "cmalloc_fresh A" and "run_ops (lsp_step A) xs lsp_init = Some st"
  shows "card (dom (nodes st)) = card (dom (docs (fold lsp_spec xs view_init_state))) \<and>
    card (dom (bufs st)) \<le> 2 * card (dom (nodes st)) + 3"
  using partial_run_shows_view [OF assms(1), of xs] live_counts unfolding assms(2) by fastforce

theorem lsp_memory_bounded_witness:
  "\<exists>st. run_ops (lsp_step next_free) [Docs_Set [1] [5], Docs_Set [1] [6], Docs_Remove [1]] lsp_init = Some st \<and>
    card (dom (bufs st)) \<le> 3"
proof -
  obtain st where st: "run_ops (lsp_step next_free) [Docs_Set [1] [5], Docs_Set [1] [6], Docs_Remove [1]] lsp_init = Some st"
    using run_shows_view [OF next_free_ok] by blast
  then show ?thesis
    using lsp_memory_bounded [OF next_free_ok(1) st] by (simp add: view_init_state_def)
qed

end
