(* ===== verification/Kod_Profiler.thy ===== *)
theory Kod_Profiler
  imports Kod_Prelude
begin

text \<open>
  The sampling profiler of \<open>src/stdlib/runtime.c\<close>: the SIGPROF handler that records one call stack
  per signal in two fixed arrays, the start and stop calls, and the accessors.

  The arrays are functions from indices; a write outside them is \<open>None\<close>. The interrupted thread is
  given by its program counter, its frame pointer and the 64-bit words of its memory, where an
  address without a readable word is \<open>None\<close>. Addresses are \<open>64 word\<close>, so \<open>fp[1]\<close> wraps and the
  comparison of frame pointers is unsigned as in C; the recorded values are their signed readings.
\<close>

section \<open>State\<close>

definition KOD_PROF_MAX_FRAMES :: int where
  "KOD_PROF_MAX_FRAMES = 32"

definition KOD_PROF_MAX_SAMPLES :: int where
  "KOD_PROF_MAX_SAMPLES = 4096"

record prof =
  kod_prof_frames :: "int \<Rightarrow> int"
  kod_prof_depths :: "int \<Rightarrow> int"
  kod_prof_count :: int
  handler_installed :: bool
  itimer :: "int \<times> int"  \<comment> \<open>\<open>tv_sec\<close> and \<open>tv_usec\<close> of the profiling timer, zero when disarmed\<close>

definition prof_init :: prof where
  "prof_init = \<lparr>kod_prof_frames = (\<lambda>_. 0), kod_prof_depths = (\<lambda>_. 0), kod_prof_count = 0,
     handler_installed = False, itimer = (0, 0)\<rparr>"

type_synonym stack = "64 word \<Rightarrow> 64 word option"

section \<open>Operations\<close>

definition put_frame :: "int \<Rightarrow> int \<Rightarrow> prof \<Rightarrow> prof option" where
  "put_frame i v st =
     (if 0 \<le> i \<and> i < KOD_PROF_MAX_SAMPLES * KOD_PROF_MAX_FRAMES
      then Some (st\<lparr>kod_prof_frames := (kod_prof_frames st)(i := v)\<rparr>) else None)"

definition put_depth :: "int \<Rightarrow> int \<Rightarrow> prof \<Rightarrow> prof option" where
  "put_depth i v st =
     (if 0 \<le> i \<and> i < KOD_PROF_MAX_SAMPLES
      then Some (st\<lparr>kod_prof_depths := (kod_prof_depths st)(i := v)\<rparr>) else None)"

function walk :: "stack \<Rightarrow> int \<Rightarrow> 64 word \<Rightarrow> int \<Rightarrow> prof \<Rightarrow> (int \<times> prof) option" where
  "walk mm row fp depth st =
     (if fp \<noteq> 0 \<and> depth < KOD_PROF_MAX_FRAMES then
        (case mm (fp + 8) of
           None \<Rightarrow> None
         | Some lr \<Rightarrow>
             if lr = 0 then Some (depth, st)
             else (case put_frame (row + depth) (sint lr) st of
                 None \<Rightarrow> None
               | Some st' \<Rightarrow>
                   (case mm fp of
                      None \<Rightarrow> None
                    | Some nxt \<Rightarrow>
                        if nxt = 0 \<or> nxt \<le> fp then Some (depth + 1, st')
                        else walk mm row nxt (depth + 1) st')))
      else Some (depth, st))"
  by pat_completeness auto
termination
  by (relation "measure (\<lambda>(mm, row, fp, depth, st). nat (KOD_PROF_MAX_FRAMES - depth))") auto

declare walk.simps [simp del]

definition kod_prof_handler :: "64 word \<Rightarrow> 64 word \<Rightarrow> stack \<Rightarrow> prof \<Rightarrow> prof option" where
  "kod_prof_handler pc fp mm st =
     (if kod_prof_count st \<ge> KOD_PROF_MAX_SAMPLES then Some st
      else do {
        let slot = kod_prof_count st;
        let row = slot * KOD_PROF_MAX_FRAMES;
        st \<leftarrow> put_frame row (sint pc) st;
        (depth, st) \<leftarrow> walk mm row fp 1 st;
        st \<leftarrow> put_depth slot depth st;
        Some (st\<lparr>kod_prof_count := slot + 1\<rparr>)
      })"

definition profiling_start :: "int \<Rightarrow> prof \<Rightarrow> prof" where
  "profiling_start interval_us st =
     st\<lparr>kod_prof_count := 0, handler_installed := True,
        itimer := (c_quot interval_us 1000000, c_rem interval_us 1000000)\<rparr>"

definition profiling_stop :: "prof \<Rightarrow> prof" where
  "profiling_stop st = st\<lparr>itimer := (0, 0)\<rparr>"

definition profiling_n_samples :: "prof \<Rightarrow> int" where
  "profiling_n_samples st = kod_prof_count st"

definition profiling_sample_depth :: "int \<Rightarrow> prof \<Rightarrow> int" where
  "profiling_sample_depth idx st =
     (if idx < 0 \<or> idx \<ge> kod_prof_count st then 0 else kod_prof_depths st idx)"

definition profiling_sample_frame :: "int \<Rightarrow> int \<Rightarrow> prof \<Rightarrow> int" where
  "profiling_sample_frame sample_idx frame_idx st =
     (if sample_idx < 0 \<or> sample_idx \<ge> kod_prof_count st then 0
      else if frame_idx < 0 \<or> frame_idx \<ge> kod_prof_depths st sample_idx then 0
      else kod_prof_frames st (sample_idx * KOD_PROF_MAX_FRAMES + frame_idx))"

section \<open>What a sample is\<close>

text \<open>
  The return addresses of the frame chain from \<open>fp\<close>, at most \<open>n\<close> of them: a frame with no return
  address ends the chain, and so does one whose parent is not above it on the stack.
\<close>

fun call_chain :: "stack \<Rightarrow> nat \<Rightarrow> 64 word \<Rightarrow> 64 word list option" where
  "call_chain mm 0 fp = Some []"
| "call_chain mm (Suc n) fp =
     (if fp = 0 then Some []
      else do {
        lr \<leftarrow> mm (fp + 8);
        if lr = 0 then Some []
        else do {
          nxt \<leftarrow> mm fp;
          if nxt = 0 \<or> nxt \<le> fp then Some [lr]
          else do { rest \<leftarrow> call_chain mm n nxt; Some (lr # rest) }
        }
      })"

definition prof_inv :: "prof \<Rightarrow> bool" where
  "prof_inv st \<longleftrightarrow> 0 \<le> kod_prof_count st \<and> kod_prof_count st \<le> KOD_PROF_MAX_SAMPLES \<and>
     (\<forall>i. 0 \<le> i \<and> i < kod_prof_count st \<longrightarrow>
        1 \<le> kod_prof_depths st i \<and> kod_prof_depths st i \<le> KOD_PROF_MAX_FRAMES)"

definition sample_at :: "prof \<Rightarrow> nat \<Rightarrow> int list" where
  "sample_at st i = map (\<lambda>j. kod_prof_frames st (int i * KOD_PROF_MAX_FRAMES + int j)) [0..<nat (kod_prof_depths st (int i))]"

definition samples :: "prof \<Rightarrow> int list list" where
  "samples st = map (sample_at st) [0..<nat (kod_prof_count st)]"

lemmas prof_consts = KOD_PROF_MAX_FRAMES_def KOD_PROF_MAX_SAMPLES_def

text \<open>The walk writes the chain into its row, and nothing outside the row.\<close>

lemma walk_records:
  assumes "call_chain mm n fp = Some cs" and "0 \<le> row" and "row + 32 \<le> KOD_PROF_MAX_SAMPLES * KOD_PROF_MAX_FRAMES"
    and "0 \<le> depth" and "depth + int n = 32"
  shows "\<exists>fr. walk mm row fp depth st = Some (depth + int (length cs), st\<lparr>kod_prof_frames := fr\<rparr>) \<and>
    length cs \<le> n \<and> (\<forall>j < length cs. fr (row + depth + int j) = sint (cs ! j)) \<and>
    (\<forall>i. i < row + depth \<or> row + 32 \<le> i \<longrightarrow> fr i = kod_prof_frames st i)"
  using assms(1,4,5)
proof (induction mm n fp arbitrary: cs depth st rule: call_chain.induct)
  case (1 mm fp)
  then show ?case by (subst walk.simps) (auto simp: prof_consts intro!: exI [of _ "kod_prof_frames st"])
next
  case (2 mm n fp)
  have d: "depth < KOD_PROF_MAX_FRAMES" using 2 by (simp add: prof_consts)
  show ?case
  proof (cases "fp = 0 \<or> mm (fp + 8) = Some 0")
    case True
    then have "cs = []" using "2.prems"(1) by (auto split: if_splits)
    then show ?thesis
      using True 2 d by (subst walk.simps) (auto intro!: exI [of _ "kod_prof_frames st"])
  next
    case False
    then obtain lr nx where lr: "mm (fp + 8) = Some lr" "lr \<noteq> 0" "mm fp = Some nx" "fp \<noteq> 0"
      using 2 by (auto split: Option.bind_splits)
    define st' where "st' = st\<lparr>kod_prof_frames := (kod_prof_frames st)(row + depth := sint lr)\<rparr>"
    have p: "put_frame (row + depth) (sint lr) st = Some st'"
      using 2 assms(2,3) by (simp add: put_frame_def st'_def)
    show ?thesis
    proof (cases "nx = 0 \<or> nx \<le> fp")
      case True
      then have "cs = [lr]" using 2 lr by auto
      then show ?thesis
        using True 2 lr p d by (subst walk.simps) (auto simp: st'_def)
    next
      case False
      then obtain rest where rest: "call_chain mm n nx = Some rest" "cs = lr # rest"
        using 2 lr by (auto split: Option.bind_splits)
      obtain fr where fr: "walk mm row nx (depth + 1) st' = Some (depth + 1 + int (length rest), st'\<lparr>kod_prof_frames := fr\<rparr>)"
        "length rest \<le> n" "\<forall>j < length rest. fr (row + (depth + 1) + int j) = sint (rest ! j)"
        "\<forall>i. i < row + (depth + 1) \<or> row + 32 \<le> i \<longrightarrow> fr i = kod_prof_frames st' i"
        using "2.IH" [OF lr(4) lr(1) lr(2) lr(3) False rest(1), of "depth + 1" st'] "2.prems" by auto
      have w: "walk mm row fp depth st = walk mm row nx (depth + 1) st'"
        using False lr p d by (subst walk.simps) simp
      have "fr (row + depth + int j) = sint (cs ! j)" if "j < length cs" for j
        using fr(3,4) that rest(2) "2.prems"(2,3) by (cases j) (auto simp: st'_def algebra_simps)
      moreover have "\<forall>i. i < row + depth \<or> row + 32 \<le> i \<longrightarrow> fr i = kod_prof_frames st i"
        using fr(4) "2.prems" by (auto simp: st'_def)
      ultimately show ?thesis
        using w fr(1,2) rest(2) by (intro exI [of _ fr]) (simp add: st'_def)
    qed
  qed
qed

lemma handler_records:
  assumes "prof_inv st" and "kod_prof_count st < KOD_PROF_MAX_SAMPLES" and "call_chain mm 31 fp = Some cs"
  shows "\<exists>st'. kod_prof_handler pc fp mm st = Some st' \<and> prof_inv st' \<and>
    samples st' = samples st @ [map sint (pc # cs)]"
proof -
  define c where "c = kod_prof_count st"
  let ?row = "c * KOD_PROF_MAX_FRAMES"
  have c: "0 \<le> c" "c < 4096" using assms(1,2) by (auto simp: prof_inv_def c_def prof_consts)
  define st1 where "st1 = st\<lparr>kod_prof_frames := (kod_prof_frames st)(?row := sint pc)\<rparr>"
  have p: "put_frame ?row (sint pc) st = Some st1"
    using c by (simp add: put_frame_def st1_def prof_consts)
  obtain fr where fr: "walk mm ?row fp 1 st1 = Some (1 + int (length cs), st1\<lparr>kod_prof_frames := fr\<rparr>)"
    "length cs \<le> 31" "\<forall>j < length cs. fr (?row + 1 + int j) = sint (cs ! j)"
    "\<forall>i. i < ?row + 1 \<or> ?row + 32 \<le> i \<longrightarrow> fr i = kod_prof_frames st1 i"
    using walk_records [OF assms(3), of ?row 1 st1] c by (auto simp: prof_consts)
  define st' where "st' = st\<lparr>kod_prof_frames := fr, kod_prof_depths := (kod_prof_depths st)(c := 1 + int (length cs)),
      kod_prof_count := c + 1\<rparr>"
  have "kod_prof_handler pc fp mm st = Some st'"
    using assms(2) p fr(1) c
    by (simp add: kod_prof_handler_def c_def [symmetric] put_depth_def prof_consts st'_def st1_def)
  moreover have "prof_inv st'"
    using assms(1) fr(2) c by (auto simp: prof_inv_def st'_def c_def prof_consts)
  moreover have new: "sample_at st' (nat c) = map sint (pc # cs)"
  proof (rule nth_equalityI)
    fix j assume "j < length (sample_at st' (nat c))"
    then have j: "j < Suc (length cs)" using c by (simp add: sample_at_def st'_def nat_add_distrib)
    with fr(3,4) c show "sample_at st' (nat c) ! j = map sint (pc # cs) ! j"
      by (cases j) (auto simp: sample_at_def st'_def st1_def nat_add_distrib algebra_simps simp del: upt_Suc)
  qed (use c in \<open>simp add: sample_at_def st'_def nat_add_distrib\<close>)
  have old: "sample_at st' i = sample_at st i" if "i < nat c" for i
  proof -
    have d: "kod_prof_depths st (int i) \<le> 32" using assms(1) that by (auto simp: prof_inv_def c_def prof_consts)
    have "fr (int i * KOD_PROF_MAX_FRAMES + int j) = kod_prof_frames st (int i * KOD_PROF_MAX_FRAMES + int j)"
      if "j < nat (kod_prof_depths st (int i))" for j
      using fr(4) d that \<open>i < nat c\<close> by (auto simp: st1_def prof_consts)
    with that show ?thesis by (simp add: sample_at_def st'_def)
  qed
  have "nat (c + 1) = Suc (nat c)" using c by simp
  then have "samples st' = map (sample_at st') [0..<nat c] @ [sample_at st' (nat c)]"
    by (simp add: samples_def st'_def)
  then have "samples st' = samples st @ [map sint (pc # cs)]"
    using old new by (simp add: samples_def c_def)
  ultimately show ?thesis by blast
qed

section \<open>Runs of the profiler\<close>

datatype prof_op = Start int | Stop | Signal "64 word" "64 word" stack

fun prof_step :: "prof_op \<Rightarrow> prof \<Rightarrow> prof option" where
  "prof_step (Start interval_us) st = Some (profiling_start interval_us st)"
| "prof_step Stop st = Some (profiling_stop st)"
| "prof_step (Signal pc fp mm) st = kod_prof_handler pc fp mm st"

fun readable :: "prof_op \<Rightarrow> bool" where
  "readable (Signal pc fp mm) \<longleftrightarrow> call_chain mm 31 fp \<noteq> None"
| "readable _ \<longleftrightarrow> True"

text \<open>The specification: a list of at most 4096 samples, each the program counter and the chain.\<close>

fun prof_spec :: "prof_op \<Rightarrow> int list list \<Rightarrow> int list list" where
  "prof_spec (Start _) S = []"
| "prof_spec Stop S = S"
| "prof_spec (Signal pc fp mm) S =
     (if length S < 4096 then S @ [map sint (pc # the (call_chain mm 31 fp))] else S)"

lemma length_samples: "prof_inv st \<Longrightarrow> length (samples st) = nat (kod_prof_count st)"
  by (simp add: samples_def)

lemma prof_step_refines:
  assumes "readable x" and "prof_inv st"
  shows "\<exists>st'. prof_step x st = Some st' \<and> prof_inv st' \<and> samples st' = prof_spec x (samples st)"
proof (cases x)
  case (Start interval_us)
  then show ?thesis by (simp add: profiling_start_def prof_inv_def samples_def prof_consts)
next
  case Stop
  have "sample_at (profiling_stop st) = sample_at st" by (simp add: fun_eq_iff sample_at_def profiling_stop_def)
  with Stop assms(2) show ?thesis by (simp add: prof_inv_def samples_def profiling_stop_def)
next
  case (Signal pc fp mm)
  then obtain cs where cs: "call_chain mm 31 fp = Some cs" using assms(1) by auto
  show ?thesis
  proof (cases "kod_prof_count st < KOD_PROF_MAX_SAMPLES")
    case True
    then have "length (samples st) < 4096"
      using length_samples [OF assms(2)] assms(2) by (simp add: prof_inv_def prof_consts)
    then show ?thesis using handler_records [OF assms(2) True cs, of pc] Signal cs by simp
  next
    case False
    then have "\<not> length (samples st) < 4096" using length_samples [OF assms(2)] by (simp add: prof_consts)
    with False Signal assms(2) show ?thesis by (simp add: kod_prof_handler_def)
  qed
qed

interpretation prof: simulation prof_step "\<lambda>st S. prof_inv st \<and> samples st = S" prof_spec True readable
  by unfold_locales (use prof_step_refines in blast)

lemma prof_init_inv: "prof_inv prof_init" "samples prof_init = []"
  by (simp_all add: prof_inv_def prof_init_def samples_def prof_consts)

lemma accessors_show_samples:
  assumes "prof_inv st"
  shows "profiling_n_samples st = int (length (samples st))"
    and "profiling_sample_depth i st = (if 0 \<le> i \<and> i < int (length (samples st)) then int (length (samples st ! nat i)) else 0)"
    and "profiling_sample_frame i j st =
      (if 0 \<le> i \<and> i < int (length (samples st)) \<and> 0 \<le> j \<and> j < int (length (samples st ! nat i))
       then samples st ! nat i ! nat j else 0)"
proof -
  have n: "int (length (samples st)) = kod_prof_count st"
    using assms by (simp add: samples_def prof_inv_def)
  then show "profiling_n_samples st = int (length (samples st))" by (simp add: profiling_n_samples_def)
  have s: "samples st ! nat i = sample_at st (nat i)" "int (length (sample_at st (nat i))) = kod_prof_depths st i"
    if "0 \<le> i" "i < kod_prof_count st"
    using that assms by (auto simp: samples_def sample_at_def prof_inv_def nat_less_iff)
  show "profiling_sample_depth i st = (if 0 \<le> i \<and> i < int (length (samples st)) then int (length (samples st ! nat i)) else 0)"
    unfolding n profiling_sample_depth_def using s by auto
  have "sample_at st (nat i) ! nat j = kod_prof_frames st (i * KOD_PROF_MAX_FRAMES + j)"
    if "0 \<le> i" "0 \<le> j" "j < kod_prof_depths st i"
    using that by (simp add: sample_at_def nat_less_iff)
  then show "profiling_sample_frame i j st =
      (if 0 \<le> i \<and> i < int (length (samples st)) \<and> 0 \<le> j \<and> j < int (length (samples st ! nat i))
       then samples st ! nat i ! nat j else 0)"
    unfolding n profiling_sample_frame_def using s by auto
qed

lemma walk_fails:
  assumes "call_chain mm n fp = None" and "depth + int n = 32"
  shows "walk mm row fp depth st = None"
  using assms
proof (induction mm n fp arbitrary: depth st rule: call_chain.induct)
  case (2 mm n fp)
  have d: "depth < KOD_PROF_MAX_FRAMES" "fp \<noteq> 0" using "2.prems" by (auto simp: prof_consts split: if_splits)
  show ?case
  proof (cases "mm (fp + 8)")
    case None
    then show ?thesis using d by (subst walk.simps) simp
  next
    case (Some lr)
    with "2.prems" d have lr: "lr \<noteq> 0" by auto
    show ?thesis
    proof (cases "mm fp")
      case None
      then show ?thesis using d Some lr by (subst walk.simps) (simp split: option.splits)
    next
      fix nx assume nx: "mm fp = Some nx"
      with "2.prems" d Some lr have c: "\<not> (nx = 0 \<or> nx \<le> fp)" "call_chain mm n nx = None"
        by (auto split: if_splits Option.bind_splits)
      then have "walk mm row nx (depth + 1) st' = None" for st'
        using "2.IH" [OF d(2) Some lr nx c] "2.prems"(2) by simp
      then show ?thesis using d Some lr nx c(1) by (subst walk.simps) (simp split: option.splits)
    qed
  qed
qed simp

section \<open>Properties\<close>

text \<open>
  C14. Whatever starts, stops and signals happen, the handler stays inside its arrays, and the
  accessors then show the samples taken since the last start: the first 4096 of them, each the
  program counter followed by at most 31 return addresses of the frame chain, and 0 for every index
  that is out of range.
\<close>

theorem profiler_records_stacks:
  assumes "list_all readable xs"
  shows "\<exists>st. run_ops prof_step xs prof_init = Some st \<and> (let S = fold prof_spec xs [] in
    profiling_n_samples st = int (length S) \<and>
    (\<forall>i. profiling_sample_depth i st = (if 0 \<le> i \<and> i < int (length S) then int (length (S ! nat i)) else 0)) \<and>
    (\<forall>i j. profiling_sample_frame i j st =
      (if 0 \<le> i \<and> i < int (length S) \<and> 0 \<le> j \<and> j < int (length (S ! nat i)) then S ! nat i ! nat j else 0)))"
  using prof.run_refines [OF TrueI assms, of prof_init "[]"] prof_init_inv accessors_show_samples
  unfolding Let_def by fastforce

theorem profiler_records_stacks_witness:
  "\<exists>st. run_ops prof_step [Start 1000, Signal 100 32 (\<lambda>a. Some (if a = 40 then 200 else 0)), Stop] prof_init = Some st \<and>
    profiling_sample_depth 0 st = 2 \<and> profiling_sample_frame 0 1 st = 200 \<and> profiling_sample_frame 0 2 st = 0"
proof -
  have c: "call_chain (\<lambda>a. Some (if a = 40 then 200 else 0)) 31 32 = Some [200]"
    using call_chain.simps(2) [of "\<lambda>a. Some (if a = 40 then 200 else 0)" 30 32] by simp
  then have "list_all readable [Start 1000, Signal 100 32 (\<lambda>a. Some (if a = 40 then 200 else 0)), Stop]" by simp
  from profiler_records_stacks [OF this] c show ?thesis by (auto simp: Let_def)
qed

text \<open>
  The only way the handler can fault is a frame chain that leads to an address that cannot be
  read, and only while there is room for a sample; no chain, however long or cyclic, makes it run
  past its row or for ever.
\<close>

theorem profiler_handler_faults_iff:
  assumes "prof_inv st"
  shows "kod_prof_handler pc fp mm st = None \<longleftrightarrow>
    kod_prof_count st < KOD_PROF_MAX_SAMPLES \<and> call_chain mm 31 fp = None"
proof (cases "kod_prof_count st < KOD_PROF_MAX_SAMPLES")
  case True
  show ?thesis
  proof (cases "call_chain mm 31 fp")
    case None
    then have "walk mm row fp 1 st' = None" for row st' using walk_fails [of mm 31 fp 1] by simp
    with True None show ?thesis by (auto simp: kod_prof_handler_def split: Option.bind_splits)
  next
    case (Some cs)
    then show ?thesis using handler_records [OF assms True Some, of pc] by auto
  qed
qed (simp add: kod_prof_handler_def)

theorem profiler_handler_faults_iff_witness:
  "kod_prof_handler 100 32 (\<lambda>_. None) prof_init = None \<and> kod_prof_handler 100 0 (\<lambda>_. None) prof_init \<noteq> None"
proof -
  have "call_chain (\<lambda>_. None) 31 32 = None" "call_chain (\<lambda>_. None) 31 0 = Some []"
    "kod_prof_count prof_init < KOD_PROF_MAX_SAMPLES"
    using call_chain.simps(2) [of "\<lambda>_. None" 30 32] call_chain.simps(2) [of "\<lambda>_. None" 30 0]
    by (simp_all add: prof_init_def prof_consts)
  then show ?thesis
    using profiler_handler_faults_iff [OF prof_init_inv(1), of 100 32 "\<lambda>_. None"]
      profiler_handler_faults_iff [OF prof_init_inv(1), of 100 0 "\<lambda>_. None"] by simp
qed

end
