(* ===== verification/Kod_OS.thy ===== *)
theory Kod_OS
  imports Kod_Prelude
begin

text \<open>
  How the runtime talks to the operating system. The kernel is not part of the program: a run is
  given the answers the kernel gives, in order, and the model records the calls that were issued.
  A function that asks for an answer that is not there is \<open>None\<close>, so a loop that retries is a
  recursion over the answers, and its theorems say how many answers it takes.

  A failed call is \<open>Fail errno\<close>. The numbers are those of macOS, the platform of the runtime.
\<close>

section \<open>Calls and answers\<close>

text \<open>The file actions of \<open>posix_spawn\<close>.\<close>

datatype file_action = Add_Close int | Add_Dup2 int int | Add_Open int "byte list" int

datatype syscall =
    Open "byte list" int int
  | Read int int
  | Write int "byte list"
  | Close int
  | Poll "(int \<times> int) list" int
  | Socket int int int
  | Fcntl int int int
  | Setsockopt int int int "int list"
  | Connect int "byte list"
  | Getsockopt_Error int
  | Bind int "byte list"
  | Listen int int
  | Accept int
  | Getsockname int
  | Pipe
  | Spawn "byte list list" "file_action list"
  | Waitpid int
  | Kill int int
  | Exec "byte list list"
  | Nanosleep int int
  | Clock_Gettime int

datatype answer =
    Ret int
  | Data "byte list"
  | Pair int int
  | Events "int list"
  | Fail int

definition EPERM :: int where "EPERM = 1"
definition ENOENT :: int where "ENOENT = 2"
definition EINTR :: int where "EINTR = 4"
definition EIO :: int where "EIO = 5"
definition EBADF :: int where "EBADF = 9"
definition ENOMEM :: int where "ENOMEM = 12"
definition EACCES :: int where "EACCES = 13"
definition EEXIST :: int where "EEXIST = 17"
definition ENOTDIR :: int where "ENOTDIR = 20"
definition EISDIR :: int where "EISDIR = 21"
definition EINVAL :: int where "EINVAL = 22"
definition EPIPE :: int where "EPIPE = 32"
definition EAGAIN :: int where "EAGAIN = 35"
definition EINPROGRESS :: int where "EINPROGRESS = 36"
definition EADDRINUSE :: int where "EADDRINUSE = 48"
definition EADDRNOTAVAIL :: int where "EADDRNOTAVAIL = 49"
definition ECONNRESET :: int where "ECONNRESET = 54"
definition ETIMEDOUT :: int where "ETIMEDOUT = 60"
definition ECONNREFUSED :: int where "ECONNREFUSED = 61"
definition POLLIN :: int where "POLLIN = 1"

lemmas errno_defs = EPERM_def ENOENT_def EINTR_def EIO_def EBADF_def ENOMEM_def EACCES_def EEXIST_def
  ENOTDIR_def EISDIR_def EINVAL_def EPIPE_def EAGAIN_def EINPROGRESS_def EADDRINUSE_def
  EADDRNOTAVAIL_def ECONNRESET_def ETIMEDOUT_def ECONNREFUSED_def

section \<open>The state of a run\<close>

record io =
  answers :: "answer list"
  issued :: "syscall list"
  g_io_errno :: int
  environ :: "byte list \<rightharpoonup> byte list"

definition kod_io_errno :: "'a io_scheme \<Rightarrow> int" where
  "kod_io_errno w = g_io_errno w"

definition kod_io_set_errno :: "int \<Rightarrow> 'a io_scheme \<Rightarrow> 'a io_scheme" where
  "kod_io_set_errno err w = w\<lparr>g_io_errno := err\<rparr>"

fun call_answered :: "syscall \<Rightarrow> 'a io_scheme \<Rightarrow> answer list \<Rightarrow> (answer \<times> 'a io_scheme) option" where
  "call_answered c w [] = None"
| "call_answered c w (a # as) = Some (a, w\<lparr>answers := as, issued := issued w @ [c]\<rparr>)"

definition call :: "syscall \<Rightarrow> 'a io_scheme \<Rightarrow> (answer \<times> 'a io_scheme) option" where
  "call c w = call_answered c w (answers w)"

text \<open>\<open>do { rc = call; } while (rc < 0 && errno == EINTR);\<close>\<close>

fun retry_from :: "answer list \<Rightarrow> syscall \<Rightarrow> 'a io_scheme \<Rightarrow> (answer \<times> 'a io_scheme) option" where
  "retry_from [] c w = None"
| "retry_from (a # as) c w =
     (let w = w\<lparr>answers := as, issued := issued w @ [c]\<rparr>
      in if a = Fail EINTR then retry_from as c w else Some (a, w))"

definition retry :: "syscall \<Rightarrow> 'a io_scheme \<Rightarrow> (answer \<times> 'a io_scheme) option" where
  "retry c w = retry_from (answers w) c w"

lemma call_eq: "answers w = a # as \<Longrightarrow> call c w = Some (a, w\<lparr>answers := as, issued := issued w @ [c]\<rparr>)"
  by (simp add: call_def)

lemma call_cases:
  assumes "call c w = Some (a, w')"
  obtains as where "answers w = a # as" "w' = w\<lparr>answers := as, issued := issued w @ [c]\<rparr>"
  using assms by (cases "answers w") (auto simp: call_def)

lemma retry_from_eq:
  assumes "a \<noteq> Fail EINTR"
  shows "retry_from (replicate k (Fail EINTR) @ a # as) c w =
    Some (a, w\<lparr>answers := as, issued := issued w @ replicate (Suc k) c\<rparr>)"
proof (induction k arbitrary: w)
  case (Suc k)
  then show ?case by (simp add: Let_def)
qed (use assms in \<open>simp add: Let_def\<close>)

text \<open>The retry is the call with the interruptions before its answer skipped.\<close>

lemma retry_eq:
  assumes "answers w = replicate k (Fail EINTR) @ a # as" and "a \<noteq> Fail EINTR"
  shows "retry c w = Some (a, w\<lparr>answers := as, issued := issued w @ replicate (Suc k) c\<rparr>)"
  using retry_from_eq [OF assms(2)] by (simp add: retry_def assms(1))

lemma retry_from_cases:
  assumes "retry_from as c w = Some (a, w')"
  shows "\<exists>k bs. as = replicate k (Fail EINTR) @ a # bs \<and> a \<noteq> Fail EINTR \<and>
    w' = w\<lparr>answers := bs, issued := issued w @ replicate (Suc k) c\<rparr>"
  using assms
proof (induction as arbitrary: w)
  case (Cons b as)
  show ?case
  proof (cases "b = Fail EINTR")
    case True
    let ?w = "w\<lparr>answers := as, issued := issued w @ [c]\<rparr>"
    have "retry_from as c ?w = Some (a, w')" using Cons.prems True by (simp add: Let_def)
    from Cons.IH [OF this] obtain k bs where "as = replicate k (Fail EINTR) @ a # bs" "a \<noteq> Fail EINTR"
      "w' = ?w\<lparr>answers := bs, issued := issued ?w @ replicate (Suc k) c\<rparr>" by blast
    with True show ?thesis by (intro exI [of _ "Suc k"] exI [of _ bs]) simp
  next
    case False
    with Cons.prems show ?thesis by (intro exI [of _ 0] exI [of _ as]) (simp add: Let_def)
  qed
qed simp

lemma retry_cases:
  assumes "retry c w = Some (a, w')"
  obtains k as where "answers w = replicate k (Fail EINTR) @ a # as" "a \<noteq> Fail EINTR"
    "w' = w\<lparr>answers := as, issued := issued w @ replicate (Suc k) c\<rparr>"
  using retry_from_cases assms unfolding retry_def by blast

section \<open>Calls that report through the error number\<close>

text \<open>
  The contract \<open>stdlib/posix.kod\<close> relies on: the call is repeated while it is interrupted, a
  failure returns \<open>bad\<close> and leaves its number, a success returns what \<open>good\<close> makes of the answer
  and leaves 0.
\<close>

locale reported_call =
  fixes opr :: "'a io_scheme \<Rightarrow> ('r \<times> 'a io_scheme) option" and c :: syscall
    and good :: "answer \<Rightarrow> 'r option" and bad :: 'r and asks :: bool
  assumes opr_retries: "asks \<Longrightarrow> opr w = do {
      (a, w) \<leftarrow> retry c w;
      case a of Fail e \<Rightarrow> Some (bad, w\<lparr>g_io_errno := e\<rparr>)
      | _ \<Rightarrow> do { r \<leftarrow> good a; Some (r, w\<lparr>g_io_errno := 0\<rparr>) }
    }"
begin

lemma success:
  assumes "asks" and "answers w = replicate k (Fail EINTR) @ a # as" and "\<And>e. a \<noteq> Fail e" and "good a = Some r"
  shows "opr w = Some (r, w\<lparr>answers := as, issued := issued w @ replicate (Suc k) c, g_io_errno := 0\<rparr>)"
  using retry_eq [OF assms(2), of c] assms(3,4) by (cases a) (auto simp: opr_retries [OF assms(1)])

lemma failure:
  assumes "asks" and "answers w = replicate k (Fail EINTR) @ Fail e # as" and "e \<noteq> EINTR"
  shows "opr w = Some (bad, w\<lparr>answers := as, issued := issued w @ replicate (Suc k) c, g_io_errno := e\<rparr>)"
  using retry_eq [OF assms(2), of c] assms(3) by (simp add: opr_retries [OF assms(1)])

text \<open>With error numbers above 0, as POSIX has them, the number tells the two outcomes apart.\<close>

lemma errno_tells:
  assumes "asks" and "opr w = Some (r, w')" and "\<And>e. Fail e \<in> set (answers w) \<Longrightarrow> 0 < e"
  shows "if g_io_errno w' = 0 then \<exists>a \<in> set (answers w). (\<forall>e. a \<noteq> Fail e) \<and> good a = Some r
    else r = bad \<and> Fail (g_io_errno w') \<in> set (answers w)"
proof -
  obtain a w1 where a: "retry c w = Some (a, w1)"
    using assms(2) by (auto simp: opr_retries [OF assms(1)] split: Option.bind_splits)
  then have m: "a \<in> set (answers w)" by (auto elim!: retry_cases)
  show ?thesis
  proof (cases "\<exists>e. a = Fail e")
    case True
    then obtain e where e: "a = Fail e" "0 < e" using assms(3) m by blast
    with assms(1,2) a m show ?thesis by (auto simp: opr_retries)
  next
    case False
    then have "good a = Some r \<and> g_io_errno w' = 0"
      using assms(1,2) a by (cases a) (auto simp: opr_retries split: Option.bind_splits)
    with False m show ?thesis by auto
  qed
qed

end

end
