(* ===== verification/Kod_Posix.thy ===== *)
theory Kod_Posix
  imports Kod_OS
begin

text \<open>
  The descriptor I/O, error numbers, environment, clock and sleep calls of \<open>src/stdlib/runtime.c\<close>
  that \<open>stdlib/posix.kod\<close>, \<open>stdlib/env.kod\<close> and the time module use. \<open>KodStr\<close> values are their
  bytes; a \<open>KodStr\<close> that is handed to the C library as \<open>buf\<close> is cut at its first NUL (\<open>c_str\<close>).
\<close>

section \<open>Descriptors\<close>

definition O_RDONLY :: int where "O_RDONLY = 0"
definition O_WRONLY :: int where "O_WRONLY = 1"
definition O_APPEND :: int where "O_APPEND = 8"
definition O_CREAT :: int where "O_CREAT = 512"
definition O_TRUNC :: int where "O_TRUNC = 1024"
definition O_CLOEXEC :: int where "O_CLOEXEC = 16777216"

lemmas open_flag_defs = O_RDONLY_def O_WRONLY_def O_APPEND_def O_CREAT_def O_TRUNC_def O_CLOEXEC_def

definition kod_fd_open :: "byte list \<Rightarrow> int \<Rightarrow> 'a io_scheme \<Rightarrow> (int \<times> 'a io_scheme) option" where
  "kod_fd_open path mode w =
     (let flags = O_RDONLY;
          flags = (if mode = 1 then O_WRONLY OR O_CREAT OR O_TRUNC else flags);
          flags = (if mode = 2 then O_WRONLY OR O_CREAT OR O_APPEND else flags)
      in do {
        (a, w) \<leftarrow> retry (Open (c_str path) (flags OR O_CLOEXEC) 420) w;
        case a of
          Ret fd \<Rightarrow> Some (fd, w\<lparr>g_io_errno := 0\<rparr>)
        | Fail e \<Rightarrow> Some (-1, w\<lparr>g_io_errno := e\<rparr>)
        | _ \<Rightarrow> None
      })"

definition kod_fd_read :: "int \<Rightarrow> int \<Rightarrow> 'a io_scheme \<Rightarrow> (byte list \<times> 'a io_scheme) option" where
  "kod_fd_read fd maxn w =
     (let maxn = (if maxn > 65536 then 65536 else maxn);
          w = w\<lparr>g_io_errno := 0\<rparr>
      in if maxn \<le> 0 then Some ([], w)
         else do {
           (a, w) \<leftarrow> retry (Read (c_int fd) maxn) w;
           case a of
             Data bs \<Rightarrow> Some (bs, w)
           | Fail e \<Rightarrow> Some ([], w\<lparr>g_io_errno := e\<rparr>)
           | _ \<Rightarrow> None
         })"

definition kod_fd_write :: "int \<Rightarrow> byte list \<Rightarrow> 'a io_scheme \<Rightarrow> (int \<times> 'a io_scheme) option" where
  "kod_fd_write fd data w =
     (let w = w\<lparr>g_io_errno := 0\<rparr>
      in if data = [] then Some (0, w)
         else do {
           (a, w) \<leftarrow> retry (Write (c_int fd) data) w;
           case a of
             Ret n \<Rightarrow> Some (n, w)
           | Fail e \<Rightarrow> Some (-1, w\<lparr>g_io_errno := e\<rparr>)
           | _ \<Rightarrow> None
         })"

definition kod_fd_close :: "int \<Rightarrow> 'a io_scheme \<Rightarrow> (int \<times> 'a io_scheme) option" where
  "kod_fd_close fd w = do {
     (a, w) \<leftarrow> call (Close (c_int fd)) w;
     case a of
       Ret rc \<Rightarrow> Some (rc, w\<lparr>g_io_errno := 0\<rparr>)
     | Fail e \<Rightarrow> Some (-1, w\<lparr>g_io_errno := e\<rparr>)
     | _ \<Rightarrow> None
   }"

text \<open>\<open>strerror\<close> is the C library's; its text is a parameter.\<close>

definition kod_errno_message :: "(int \<Rightarrow> byte list) \<Rightarrow> int \<Rightarrow> byte list" where
  "kod_errno_message strerror err = c_str (strerror (c_int err))"

definition kod_errno_kind :: "int \<Rightarrow> int" where
  "kod_errno_kind err =
     (if err = ENOENT then 0
      else if err = EACCES \<or> err = EPERM then 1
      else if err = EEXIST \<or> err = EADDRINUSE then 2
      else if err = EINVAL \<or> err = EBADF \<or> err = EISDIR \<or> err = ENOTDIR then 3
      else if err = EAGAIN \<or> err = ETIMEDOUT then 5
      else if err = ECONNREFUSED then 6
      else if err = ECONNRESET then 7
      else if err = EPIPE then 8
      else 10)"

section \<open>The environment\<close>

text \<open>
  \<open>getenv\<close>, \<open>setenv\<close> and \<open>unsetenv\<close> of POSIX: names without \<open>=\<close> and not empty; \<open>setenv\<close> refuses
  others, and may run out of memory, which the parameter \<open>nomem\<close> of the call decides.
\<close>

definition valid_name :: "byte list \<Rightarrow> bool" where
  "valid_name n \<longleftrightarrow> n \<noteq> [] \<and> 61 \<notin> set n"

definition getenv :: "byte list \<Rightarrow> 'a io_scheme \<Rightarrow> byte list option" where
  "getenv name w = (if valid_name name then environ w name else None)"

definition setenv :: "bool \<Rightarrow> byte list \<Rightarrow> byte list \<Rightarrow> 'a io_scheme \<Rightarrow> int \<times> 'a io_scheme" where
  "setenv nomem name value w =
     (if \<not> valid_name name \<or> nomem then (-1, w) else (0, w\<lparr>environ := (environ w)(name \<mapsto> value)\<rparr>))"

definition unsetenv :: "byte list \<Rightarrow> 'a io_scheme \<Rightarrow> 'a io_scheme" where
  "unsetenv name w = (if valid_name name then w\<lparr>environ := (environ w)(name := None)\<rparr> else w)"

definition kod_env_has :: "byte list \<Rightarrow> 'a io_scheme \<Rightarrow> int" where
  "kod_env_has name w = (if getenv (c_str name) w \<noteq> None then 1 else 0)"

definition kod_env_get :: "byte list \<Rightarrow> 'a io_scheme \<Rightarrow> byte list" where
  "kod_env_get name w =
     (case getenv (c_str name) w of None \<Rightarrow> c_str [] | Some value \<Rightarrow> c_str value)"

definition kod_env_set :: "bool \<Rightarrow> byte list \<Rightarrow> byte list \<Rightarrow> 'a io_scheme \<Rightarrow> int \<times> 'a io_scheme" where
  "kod_env_set nomem name value w =
     (let (rc, w) = setenv nomem (c_str name) (c_str value) w in (if rc = 0 then 0 else -1, w))"

definition kod_env_unset :: "byte list \<Rightarrow> 'a io_scheme \<Rightarrow> 'a io_scheme" where
  "kod_env_unset name w = unsetenv (c_str name) w"

section \<open>Clocks and sleep\<close>

definition CLOCK_REALTIME :: int where "CLOCK_REALTIME = 0"
definition CLOCK_MONOTONIC_RAW :: int where "CLOCK_MONOTONIC_RAW = 4"

definition ns_of :: "int \<Rightarrow> int \<Rightarrow> int option" where
  "ns_of tv_sec tv_nsec = do { s \<leftarrow> chk64 (tv_sec * 1000000000); chk64 (s + tv_nsec) }"

definition read_clock :: "int \<Rightarrow> 'a io_scheme \<Rightarrow> (int \<times> 'a io_scheme) option" where
  "read_clock clk w = do {
     (a, w) \<leftarrow> call (Clock_Gettime clk) w;
     case a of Pair sec nsec \<Rightarrow> do { t \<leftarrow> ns_of sec nsec; Some (t, w) } | _ \<Rightarrow> None
   }"

definition kod_monotonic_ns :: "'a io_scheme \<Rightarrow> (int \<times> 'a io_scheme) option" where
  "kod_monotonic_ns w = read_clock CLOCK_MONOTONIC_RAW w"

definition kod_unix_ns :: "'a io_scheme \<Rightarrow> (int \<times> 'a io_scheme) option" where
  "kod_unix_ns w = read_clock CLOCK_REALTIME w"

text \<open>
  \<open>nanosleep(&ts, &ts)\<close> answers \<open>Ret 0\<close> when it has slept in full, \<open>Pair sec nsec\<close> when a signal
  ended it (\<open>EINTR\<close>) with that much time left in \<open>ts\<close>, and \<open>Fail e\<close> on another error.
\<close>

fun sleep_loop :: "answer list \<Rightarrow> int \<Rightarrow> int \<Rightarrow> 'a io_scheme \<Rightarrow> 'a io_scheme option" where
  "sleep_loop [] tv_sec tv_nsec w = None"
| "sleep_loop (a # as) tv_sec tv_nsec w =
     (let w = w\<lparr>answers := as, issued := issued w @ [Nanosleep tv_sec tv_nsec]\<rparr>
      in case a of Ret _ \<Rightarrow> Some w | Pair s n \<Rightarrow> sleep_loop as s n w | Fail _ \<Rightarrow> Some w | _ \<Rightarrow> None)"

definition kod_sleep_ns :: "int \<Rightarrow> 'a io_scheme \<Rightarrow> 'a io_scheme option" where
  "kod_sleep_ns ns w =
     (if ns \<le> 0 then Some w
      else sleep_loop (answers w) (ns div 1000000000) (ns mod 1000000000) w)"

section \<open>The calls meet their contract\<close>

fun got_int :: "answer \<Rightarrow> int option" where
  "got_int (Ret n) = Some n"
| "got_int _ = None"

fun got_data :: "answer \<Rightarrow> byte list option" where
  "got_data (Data bs) = Some bs"
| "got_data _ = None"

definition open_flags :: "int \<Rightarrow> int" where
  "open_flags mode = (if mode = 1 then O_WRONLY OR O_CREAT OR O_TRUNC OR O_CLOEXEC
     else if mode = 2 then O_WRONLY OR O_CREAT OR O_APPEND OR O_CLOEXEC else O_RDONLY OR O_CLOEXEC)"

lemma retry_clears:
  "retry c (w\<lparr>g_io_errno := v\<rparr>) = map_option (\<lambda>(a, w). (a, w\<lparr>g_io_errno := v\<rparr>)) (retry c w)"
proof -
  have "retry_from as c (w\<lparr>g_io_errno := v\<rparr>) = map_option (\<lambda>(a, w). (a, w\<lparr>g_io_errno := v\<rparr>)) (retry_from as c w)" for as
  proof (induction as arbitrary: w)
    case (Cons a as)
    have e: "w\<lparr>g_io_errno := v, answers := as, issued := issued w @ [c]\<rparr> =
        w\<lparr>answers := as, issued := issued w @ [c], g_io_errno := v\<rparr>" by simp
    show ?case
      using Cons [of "w\<lparr>answers := as, issued := issued w @ [c]\<rparr>"] by (simp add: Let_def e)
  qed simp
  then show ?thesis by (simp add: retry_def)
qed

interpretation fd_open: reported_call "kod_fd_open path mode" "Open (c_str path) (open_flags mode) 420" got_int "-1" True
  for path mode
  by unfold_locales (auto simp: kod_fd_open_def open_flags_def or.assoc Let_def
      split: Option.bind_splits answer.splits)

interpretation fd_read: reported_call "kod_fd_read fd maxn" "Read (c_int fd) (min maxn 65536)" got_data "[]" "0 < maxn"
  for fd maxn
  by unfold_locales (auto simp: kod_fd_read_def min_def Let_def retry_clears
      split: Option.bind_splits answer.splits)

interpretation fd_write: reported_call "kod_fd_write fd data" "Write (c_int fd) data" got_int "-1" "data \<noteq> []"
  for fd data
  by unfold_locales (auto simp: kod_fd_write_def Let_def retry_clears
      split: Option.bind_splits answer.splits)

lemma sleep_loop_run:
  assumes "answers w = map (\<lambda>(s, n). Pair s n) ps @ Ret r # as"
  shows "sleep_loop (answers w) sec nsec w = Some (w\<lparr>answers := as,
    issued := issued w @ map (\<lambda>(s, n). Nanosleep s n) ((sec, nsec) # ps)\<rparr>)"
proof -
  have "sleep_loop (map (\<lambda>(s, n). Pair s n) ps @ Ret r # as) sec nsec w = Some (w\<lparr>answers := as,
    issued := issued w @ map (\<lambda>(s, n). Nanosleep s n) ((sec, nsec) # ps)\<rparr>)" for w :: "'a io_scheme"
  proof (induction ps arbitrary: sec nsec w)
    case (Cons p ps)
    then show ?case by (cases p) (simp add: Let_def)
  qed (simp add: Let_def)
  then show ?thesis by (simp add: assms)
qed

definition to_ns :: "int \<times> int \<Rightarrow> int" where
  "to_ns p = fst p * 1000000000 + snd p"

lemma naps_add_up:
  "list_all2 (\<lambda>d (q, m). q - m \<le> d) ds (zip (r # map to_ns ps) (map to_ns ps @ [0])) \<Longrightarrow> r \<le> sum_list ds"
proof (induction ps arbitrary: r ds)
  case Nil
  then show ?case by (cases ds) auto
next
  case (Cons p ps)
  then obtain d ds' where d: "ds = d # ds'" "r - to_ns p \<le> d"
    and rest: "list_all2 (\<lambda>d (q, m). q - m \<le> d) ds' (zip (to_ns p # map to_ns ps) (map to_ns ps @ [0]))"
    by (cases ds) auto
  from Cons.IH [OF rest] d show ?case by simp
qed

section \<open>Properties\<close>

text \<open>
  \<open>kod_fd_read\<close> asks for at most 64 KiB, however much the caller wants, repeats the call while
  signals interrupt it, and returns the bytes the kernel gave with error number 0, or an empty
  string with the number of the failure.
\<close>

theorem kod_fd_read_correct:
  assumes "0 < maxn" and "answers w = replicate k (Fail EINTR) @ a # as"
    and "(\<exists>bs. a = Data bs \<and> int (length bs) \<le> min maxn 65536) \<or> (\<exists>e. a = Fail e \<and> 0 < e \<and> e \<noteq> EINTR)"
  shows "\<exists>bs w'. kod_fd_read fd maxn w = Some (bs, w') \<and> int (length bs) \<le> min maxn 65536 \<and>
    issued w' = issued w @ replicate (Suc k) (Read (c_int fd) (min maxn 65536)) \<and> answers w' = as \<and>
    (if kod_io_errno w' = 0 then a = Data bs else a = Fail (kod_io_errno w') \<and> bs = [])"
proof (cases "\<exists>bs. a = Data bs")
  case True
  then obtain bs where a: "a = Data bs" and l: "int (length bs) \<le> min maxn 65536" using assms(3) by auto
  have "kod_fd_read fd maxn w = Some (bs, w\<lparr>answers := as,
      issued := issued w @ replicate (Suc k) (Read (c_int fd) (min maxn 65536)), g_io_errno := 0\<rparr>)"
    by (rule fd_read.success [OF assms(1,2)]) (simp_all add: a)
  with l a show ?thesis by (simp add: kod_io_errno_def)
next
  case False
  then obtain e where "a = Fail e" "0 < e" "e \<noteq> EINTR" using assms(3) by blast
  then show ?thesis
    using fd_read.failure [OF assms(1), of w k e as fd] assms(1,2) by (simp add: kod_io_errno_def)
qed

theorem kod_fd_read_correct_witness:
  "\<exists>w' :: io. kod_fd_read 3 100000 \<lparr>answers = [Fail EINTR, Data [1, 2]], issued = [], g_io_errno = 9, environ = (\<lambda>_. None)\<rparr> =
    Some ([1, 2], w') \<and> kod_io_errno w' = 0"
proof -
  let ?w = "\<lparr>answers = [Fail EINTR, Data [1, 2]], issued = [], g_io_errno = 9, environ = (\<lambda>_. None)\<rparr> :: io"
  have "answers ?w = replicate 1 (Fail EINTR) @ Data [1, 2] # []" by simp
  from kod_fd_read_correct [of 100000, OF _ this, of 3] show ?thesis by (auto split: if_splits)
qed

text \<open>
  The environment behaves as a map for the names and values the Kod side lets through: a
  variable that was set reads back exactly (its value and its presence), others are unchanged, and
  after unsetting it is absent and reads as empty.
\<close>

theorem kod_env_round_trip:
  assumes "valid_name name" and "0 \<notin> set name" and "0 \<notin> set value"
    and "kod_env_set nomem name value w = (0, w')"
  shows "kod_env_has name w' = 1 \<and> kod_env_get name w' = value \<and>
    (\<forall>other. c_str other \<noteq> name \<longrightarrow> kod_env_has other w' = kod_env_has other w \<and> kod_env_get other w' = kod_env_get other w) \<and>
    kod_env_has name (kod_env_unset name w') = 0 \<and> kod_env_get name (kod_env_unset name w') = []"
proof -
  have "w' = w\<lparr>environ := (environ w)(name \<mapsto> value)\<rparr>"
    using assms by (auto simp: kod_env_set_def setenv_def split: if_splits)
  with assms(1-3) show ?thesis
    by (auto simp: kod_env_has_def kod_env_get_def kod_env_unset_def getenv_def unsetenv_def)
qed

theorem kod_env_round_trip_witness:
  "kod_env_get [72, 73] (snd (kod_env_set False [72, 73] [49, 0] \<lparr>answers = [], issued = [], g_io_errno = 0, environ = (\<lambda>_. None)\<rparr>)) = [49] \<and>
   kod_env_get [72, 73] (snd (kod_env_set False [72, 73] [49] \<lparr>answers = [], issued = [], g_io_errno = 0, environ = (\<lambda>_. None)\<rparr>)) = [49]"
proof -
  let ?w = "\<lparr>answers = [], issued = [], g_io_errno = 0, environ = (\<lambda>_. None)\<rparr> :: io"
  have a: "kod_env_set False [72, 73] [49] ?w = (0, snd (kod_env_set False [72, 73] [49] ?w))"
    by (simp add: kod_env_set_def setenv_def valid_name_def)
  have b: "kod_env_set False [72, 73] [49, 0] ?w = kod_env_set False [72, 73] [49] ?w"
    by (simp add: kod_env_set_def c_str_def)
  show ?thesis
    unfolding b using kod_env_round_trip [OF _ _ _ a] by (simp add: valid_name_def)
qed

text \<open>
  A sleep that signals interrupt is resumed for the time that is left, as often as needed: if
  every nap lasts at least as long as its request less what the kernel reports as left, the naps
  together last at least the requested time. A request of zero or less does nothing.
\<close>

theorem kod_sleep_ns_full:
  assumes "answers w = map (\<lambda>(s, n). Pair s n) ps @ Ret 0 # as" and "0 < ns"
    and "list_all2 (\<lambda>d (q, m). q - m \<le> d) ds (zip (ns # map to_ns ps) (map to_ns ps @ [0]))"
  shows "ns \<le> sum_list ds \<and> (\<exists>p. to_ns p = ns \<and> 0 \<le> snd p \<and> snd p < 1000000000 \<and>
    kod_sleep_ns ns w = Some (w\<lparr>answers := as, issued := issued w @ map (\<lambda>(s, n). Nanosleep s n) (p # ps)\<rparr>))"
proof (intro conjI exI [of _ "(ns div 1000000000, ns mod 1000000000)"])
  show "ns \<le> sum_list ds" using naps_add_up [OF assms(3)] .
  show "kod_sleep_ns ns w = Some (w\<lparr>answers := as,
      issued := issued w @ map (\<lambda>(s, n). Nanosleep s n) ((ns div 1000000000, ns mod 1000000000) # ps)\<rparr>)"
    using assms(2) sleep_loop_run [OF assms(1)] by (simp add: kod_sleep_ns_def)
qed (simp_all add: to_ns_def)

theorem kod_sleep_ns_full_witness:
  "\<exists>w' :: io. kod_sleep_ns 2500000000 \<lparr>answers = [Pair 1 200, Ret 0], issued = [], g_io_errno = 0, environ = (\<lambda>_. None)\<rparr> = Some w' \<and>
    issued w' = [Nanosleep 2 500000000, Nanosleep 1 200]"
proof -
  let ?w = "\<lparr>answers = [Pair 1 200, Ret 0], issued = [], g_io_errno = 0, environ = (\<lambda>_. None)\<rparr> :: io"
  have "answers ?w = map (\<lambda>(s, n). Pair s n) [(1, 200)] @ Ret 0 # []" by simp
  from kod_sleep_ns_full [OF this, of 2500000000 "[1499999800, 1000000200]"]
  obtain p where p: "to_ns p = 2500000000" "0 \<le> snd p" "snd p < 1000000000"
    "kod_sleep_ns 2500000000 ?w = Some (?w\<lparr>answers := [], issued := issued ?w @ map (\<lambda>(s, n). Nanosleep s n) (p # [(1, 200)])\<rparr>)"
    by (auto simp: to_ns_def)
  have "1 < fst p" "fst p < 3" using p(1-3) unfolding to_ns_def by linarith+
  then have "p = (2, 500000000)" using p(1) by (cases p) (simp add: to_ns_def)
  with p(4) show ?thesis by simp
qed

end
