(* ===== verification/Kod_Stdio.thy ===== *)
theory Kod_Stdio
  imports Kod_Posix
begin

text \<open>
  The standard streams and the panic handlers of \<open>src/stdlib/runtime.c\<close>.

  Standard output is buffered by the C library, standard error is not, and both may end up in one
  place (\<open>sink\<close>). The library may write out any part of its buffer at any write: how much is the
  parameter \<open>spill\<close>, so the theorems on the order of output hold for every buffering policy.
  \<open>redirect_stdout\<close> sends standard output to a file instead. \<open>printed\<close> is what the program has
  sent to the common place, written out or not.
\<close>

section \<open>Streams\<close>

datatype target = Shared | To_File "byte list" | Closed

record stdio = io +
  out_buf :: "byte list"
  out_to :: target
  sink :: "byte list"
  files :: "byte list \<rightharpoonup> byte list"
  exit_status :: "int option"

type_synonym spill = "byte list \<Rightarrow> nat"

definition emit_out :: "byte list \<Rightarrow> 'a stdio_scheme \<Rightarrow> 'a stdio_scheme" where
  "emit_out bs w =
     (case out_to w of
        Shared \<Rightarrow> w\<lparr>sink := sink w @ bs\<rparr>
      | To_File p \<Rightarrow> w\<lparr>files := (files w)(p \<mapsto> (case files w p of None \<Rightarrow> [] | Some old \<Rightarrow> old) @ bs)\<rparr>
      | Closed \<Rightarrow> w)"

definition fflush_stdout :: "'a stdio_scheme \<Rightarrow> 'a stdio_scheme" where
  "fflush_stdout w = (emit_out (out_buf w) w)\<lparr>out_buf := []\<rparr>"

definition fwrite_stdout :: "spill \<Rightarrow> byte list \<Rightarrow> 'a stdio_scheme \<Rightarrow> 'a stdio_scheme" where
  "fwrite_stdout spill bs w =
     (let b = out_buf w @ bs in (emit_out (take (spill b) b) w)\<lparr>out_buf := drop (spill b) b\<rparr>)"

definition fwrite_stderr :: "byte list \<Rightarrow> 'a stdio_scheme \<Rightarrow> 'a stdio_scheme" where
  "fwrite_stderr bs w = w\<lparr>sink := sink w @ bs\<rparr>"

section \<open>Operations\<close>

text \<open>
  The backtrace is printed by Kod code (\<open>stdlib/kod/inspect.kod\<close>), to standard error; its text is a
  parameter here, and the root theory puts the two together.
\<close>

definition kod_panic :: "byte list \<Rightarrow> byte list \<Rightarrow> 'a stdio_scheme \<Rightarrow> 'a stdio_scheme" where
  "kod_panic backtrace msg w =
     (let w = fflush_stdout w;
          w = fwrite_stderr (bytes_of ''panic: '') w;
          w = fwrite_stderr msg w;
          w = fwrite_stderr [10] w;
          w = fwrite_stderr backtrace w
      in w\<lparr>exit_status := Some 1\<rparr>)"

definition kod_index_oob :: "byte list \<Rightarrow> int \<Rightarrow> int \<Rightarrow> 'a stdio_scheme \<Rightarrow> 'a stdio_scheme" where
  "kod_index_oob backtrace idx len w =
     (let w = fflush_stdout w;
          w = fwrite_stderr (bytes_of ''panic: index '' @ dec_int idx @
                bytes_of '' out of bounds for array of length '' @ dec_int len @ [10]) w;
          w = fwrite_stderr backtrace w
      in w\<lparr>exit_status := Some 1\<rparr>)"

definition kod_eprint :: "byte list \<Rightarrow> 'a stdio_scheme \<Rightarrow> 'a stdio_scheme" where
  "kod_eprint msg w = fwrite_stderr [10] (fwrite_stderr msg w)"

definition kod_puts :: "spill \<Rightarrow> byte list \<Rightarrow> 'a stdio_scheme \<Rightarrow> int \<times> 'a stdio_scheme" where
  "kod_puts spill s w = (0, fwrite_stdout spill [10] (fwrite_stdout spill s w))"

definition write_stdout :: "spill \<Rightarrow> byte list \<Rightarrow> 'a stdio_scheme \<Rightarrow> 'a stdio_scheme" where
  "write_stdout spill s w = fwrite_stdout spill s w"

definition write_stderr :: "byte list \<Rightarrow> 'a stdio_scheme \<Rightarrow> 'a stdio_scheme" where
  "write_stderr s w = fwrite_stderr s w"

text \<open>
  \<open>freopen\<close> flushes and closes the stream, then opens and truncates the file; when that fails the
  stream stays closed. Whether the file can be opened is a parameter.
\<close>

definition redirect_stdout :: "(byte list \<Rightarrow> bool) \<Rightarrow> byte list \<Rightarrow> 'a stdio_scheme \<Rightarrow> int \<times> 'a stdio_scheme" where
  "redirect_stdout can_open path w =
     (let w = fflush_stdout w; p = c_str path
      in if \<not> can_open p then (-1, w\<lparr>out_to := Closed\<rparr>)
         else (0, w\<lparr>out_to := To_File p, files := (files w)(p \<mapsto> [])\<rparr>))"

definition flush_stdout :: "'a stdio_scheme \<Rightarrow> 'a stdio_scheme" where
  "flush_stdout w = fflush_stdout w"

section \<open>Order of output\<close>

definition printed :: "'a stdio_scheme \<Rightarrow> byte list" where
  "printed w = sink w @ out_buf w"

named_theorems stream_simps \<open>effects of the stream primitives\<close>

lemma fflush_shared [stream_simps]:
  "out_to w = Shared \<Longrightarrow> printed (fflush_stdout w) = printed w \<and> out_buf (fflush_stdout w) = [] \<and>
     out_to (fflush_stdout w) = Shared"
  by (simp add: fflush_stdout_def emit_out_def printed_def)

lemma fwrite_stdout_shared [stream_simps]:
  "out_to w = Shared \<Longrightarrow> printed (fwrite_stdout spill bs w) = printed w @ bs \<and> out_to (fwrite_stdout spill bs w) = Shared"
  by (simp add: fwrite_stdout_def emit_out_def printed_def Let_def del: take_append drop_append)

lemma fwrite_stderr_ordered [stream_simps]:
  "out_buf w = [] \<Longrightarrow> printed (fwrite_stderr bs w) = printed w @ bs"
  "out_buf (fwrite_stderr bs w) = out_buf w" "out_to (fwrite_stderr bs w) = out_to w"
  by (simp_all add: fwrite_stderr_def printed_def)

text \<open>An operation that prints \<open>shown\<close> and keeps the order of everything printed.\<close>

locale ordered_writer =
  fixes opr :: "byte list \<Rightarrow> 'a stdio_scheme \<Rightarrow> 'a stdio_scheme" and shown :: "byte list \<Rightarrow> byte list"
  assumes writes: "out_to w = Shared \<Longrightarrow> out_to (opr s w) = Shared \<and> printed (opr s w) = printed w @ shown s"
    and keeps_status: "exit_status (opr s w) = exit_status w"
begin

lemma writes_all:
  "out_to w = Shared \<Longrightarrow> out_to (fold opr ss w) = Shared \<and> printed (fold opr ss w) = printed w @ concat (map shown ss) \<and>
     exit_status (fold opr ss w) = exit_status w"
  by (induction ss arbitrary: w) (auto simp: writes keeps_status)

end

lemma stream_status [stream_simps]:
  "exit_status (fflush_stdout w) = exit_status w" "exit_status (fwrite_stdout spill bs w) = exit_status w"
  "exit_status (fwrite_stderr bs w) = exit_status w"
  by (simp_all add: fflush_stdout_def fwrite_stdout_def fwrite_stderr_def emit_out_def Let_def split: target.splits)

interpretation puts: ordered_writer "\<lambda>s w. snd (kod_puts spill s w)" "\<lambda>s. s @ [10]" for spill
  by unfold_locales (simp_all add: kod_puts_def stream_simps)

interpretation write_out: ordered_writer "write_stdout spill" "\<lambda>s. s" for spill
  by unfold_locales (simp_all add: write_stdout_def stream_simps)

lemma panic_text:
  assumes "out_to w = Shared"
  shows "sink (kod_panic bt msg w) = printed w @ bytes_of ''panic: '' @ msg @ [10] @ bt"
    and "out_buf (kod_panic bt msg w) = []"
  using assms by (simp_all add: kod_panic_def Let_def fwrite_stderr_def printed_def fflush_stdout_def emit_out_def)

lemma oob_text:
  assumes "out_to w = Shared"
  shows "sink (kod_index_oob bt idx len w) = printed w @ bytes_of ''panic: index '' @ dec_int idx @
      bytes_of '' out of bounds for array of length '' @ dec_int len @ [10] @ bt"
    and "out_buf (kod_index_oob bt idx len w) = []"
  using assms by (simp_all add: kod_index_oob_def Let_def fwrite_stderr_def printed_def fflush_stdout_def emit_out_def)

definition fresh_stdio :: stdio where
  "fresh_stdio = \<lparr>answers = [], issued = [], g_io_errno = 0, environ = (\<lambda>_. None), out_buf = [],
     out_to = Shared, sink = [], files = (\<lambda>_. None), exit_status = None\<rparr>"

section \<open>Properties\<close>

text \<open>
  A panic comes after everything the program printed, whatever the C library had still in its
  buffer: the lines printed so far, in order, then \<open>panic:\<close>, the message and the backtrace, and
  the process exits with status 1. The same holds for an index out of bounds, whose message has the
  index and the length in decimal.
\<close>

theorem kod_panic_after_output:
  assumes "out_to w = Shared" and "printed w = []"
  shows "(let w' = kod_panic bt msg (fold (\<lambda>s w. snd (kod_puts spill s w)) ss w) in
      sink w' = concat (map (\<lambda>s. s @ [10]) ss) @ bytes_of ''panic: '' @ msg @ [10] @ bt \<and>
      out_buf w' = [] \<and> exit_status w' = Some 1) \<and>
    (let w' = kod_index_oob bt idx len (fold (\<lambda>s w. snd (kod_puts spill s w)) ss w) in
      sink w' = concat (map (\<lambda>s. s @ [10]) ss) @ bytes_of ''panic: index '' @ dec_int idx @
        bytes_of '' out of bounds for array of length '' @ dec_int len @ [10] @ bt \<and>
      out_buf w' = [] \<and> exit_status w' = Some 1)"
proof -
  let ?w = "fold (\<lambda>s w. snd (kod_puts spill s w)) ss w"
  have w: "out_to ?w = Shared" "printed ?w = concat (map (\<lambda>s. s @ [10]) ss)"
    using puts.writes_all [OF assms(1), of spill ss] assms(2) by simp_all
  have "exit_status (kod_panic bt msg ?w) = Some 1" "exit_status (kod_index_oob bt idx len ?w) = Some 1"
    by (simp_all add: kod_panic_def kod_index_oob_def Let_def)
  with panic_text [OF w(1), of bt msg] oob_text [OF w(1), of bt idx len] w(2) show ?thesis
    unfolding Let_def by simp
qed

theorem kod_panic_after_output_witness:
  "sink (kod_panic [66] [109] (fold (\<lambda>s w. snd (kod_puts (\<lambda>b. 1) s w)) [[104, 105], [33]] fresh_stdio)) =
     [104, 105, 10, 33, 10, 112, 97, 110, 105, 99, 58, 32, 109, 10, 66]"
  using kod_panic_after_output [of fresh_stdio "[66]" "[109]" "\<lambda>_. 1" "[[104, 105], [33]]" 0 0]
  by (simp add: fresh_stdio_def printed_def Let_def bytes_of_def)

end
