(* ===== verification/Kod_Decimal.thy ===== *)
theory Kod_Decimal
  imports Kod_Prelude
begin

text \<open>
  Decimal texts, which the runtime prints and reads in several places: their digits, length and value.
\<close>

definition is_digit :: "byte \<Rightarrow> bool" where
  "is_digit c \<longleftrightarrow> 48 \<le> c \<and> c \<le> 57"

abbreviation all_digits :: "byte list \<Rightarrow> bool" where
  "all_digits ds \<equiv> list_all is_digit ds"

lemma is_digit_of_nat [simp]: "k < 10 \<Longrightarrow> is_digit (of_nat (48 + k))"
  by (simp add: is_digit_def word_le_nat_alt unat_of_nat del: of_nat_add)

lemma not_digit [simp]: "\<not> is_digit 46" "\<not> is_digit 45" "\<not> is_digit 43" "\<not> is_digit 101" "\<not> is_digit 69" "\<not> is_digit 0"
  "is_digit 48"
  by (simp_all add: is_digit_def)

lemma digit_ne: "is_digit c \<Longrightarrow> c \<noteq> 46 \<and> c \<noteq> 45 \<and> c \<noteq> 43 \<and> c \<noteq> 101 \<and> c \<noteq> 69 \<and> c \<noteq> 0"
  by auto

lemma dec_digits_digits: "all_digits (dec_digits f n)"
  by (induction f arbitrary: n) (auto simp del: of_nat_add)

lemma dec_nat_digits [simp]: "all_digits (dec_nat n)"
  by (simp add: dec_nat_def dec_digits_digits del: dec_digits.simps)

lemma dec_nat_Nil [simp]: "dec_nat n \<noteq> []"
  by (simp add: dec_nat_def)

lemma dec_digits_length: "n < f \<Longrightarrow> (k = 0 \<or> 10 ^ k \<le> n) \<Longrightarrow> n < 10 ^ Suc k \<Longrightarrow> length (dec_digits f n) = Suc k"
proof (induction f arbitrary: n k)
  case (Suc f)
  show ?case
  proof (cases "n < 10")
    case True
    have "k = 0"
    proof (rule ccontr)
      assume "k \<noteq> 0"
      then have "10 ^ 1 \<le> (10 :: nat) ^ k" by (intro power_increasing) auto
      then show False using Suc.prems \<open>k \<noteq> 0\<close> True by simp
    qed
    then show ?thesis using True by simp
  next
    case False
    then obtain j where k: "k = Suc j" using Suc.prems by (cases k) auto
    have "10 ^ j \<le> n div 10" using Suc.prems k by (simp add: less_eq_div_iff_mult_less_eq mult.commute)
    moreover have "n div 10 < 10 ^ Suc j" using Suc.prems k by (simp add: div_less_iff_less_mult mult.commute)
    ultimately show ?thesis using False k Suc.IH [of "n div 10" j] Suc.prems by simp
  qed
qed simp

lemma dec_nat_length: "10 ^ k \<le> n \<Longrightarrow> n < 10 ^ Suc k \<Longrightarrow> length (dec_nat n) = Suc k"
  unfolding dec_nat_def by (rule dec_digits_length) auto

lemma dec_nat_short: "n < 1000 \<Longrightarrow> length (dec_nat n) \<le> 3"
proof -
  assume "n < 1000"
  then consider "n < 10" | "10 \<le> n" "n < 100" | "100 \<le> n" by linarith
  then show ?thesis
    using dec_nat_length [of 1 n] dec_nat_length [of 2 n] dec_nat_digit [of n] \<open>n < 1000\<close> by cases auto
qed

lemma dec_val_Nil [simp]: "dec_val [] = 0"
  by (simp add: dec_val_def)

lemma dec_val_snoc: "dec_val (xs @ [d]) = 10 * dec_val xs + (unat d - 48)"
  by (simp add: dec_val_def)

lemma dec_val_append: "dec_val (xs @ ys) = dec_val xs * 10 ^ length ys + dec_val ys"
proof (induction ys rule: rev_induct)
  case (snoc y ys)
  have "dec_val (xs @ ys @ [y]) = 10 * dec_val (xs @ ys) + (unat y - 48)" using dec_val_snoc [of "xs @ ys" y] by simp
  then show ?case by (simp add: snoc dec_val_snoc)
qed simp

lemma dec_val_zeros [simp]: "dec_val (replicate k 48) = 0"
proof (induction k)
  case (Suc k)
  then show ?case using dec_val_snoc [of "replicate k 48" 48] by (simp add: replicate_append_same)
qed simp

lemma dec_digits_fuel: "n < f \<Longrightarrow> n < g \<Longrightarrow> dec_digits f n = dec_digits g n"
proof (induction f arbitrary: n g)
  case (Suc f)
  then obtain g' where g: "g = Suc g'" by (cases g) auto
  show ?case
  proof (cases "n < 10")
    case False
    then have "n div 10 < f" "n div 10 < g'" using Suc.prems g by auto
    then show ?thesis using Suc.IH [of "n div 10" g'] g False by simp
  qed (simp add: g)
qed simp

lemma dec_nat_step: "10 \<le> n \<Longrightarrow> dec_nat n = dec_nat (n div 10) @ [of_nat (48 + n mod 10)]"
  using dec_digits_fuel [of "n div 10" n "Suc (n div 10)"] by (simp add: dec_nat_def del: of_nat_add)

end
