(* ===== verification/Kod_Double.thy ===== *)
theory Kod_Double
  imports Complex_Main Kod_Decimal
begin

text \<open>
  What \<open>float64\<close> of \<open>src/stdlib/runtime.c\<close> uses of C and its library.

  A \<open>double\<close> is its IEEE 754 bit pattern, a 64-bit word. Its magnitude is the pattern without the
  sign bit; of a finite magnitude \<open>u\<close> the value is \<open>mant u * 2 ^ expo u\<close>. All arithmetic is on
  integers and fractions of naturals, so the definitions compute; the lemmas relate them to real
  numbers. Conversion from an integer, \<open>floor\<close>, \<open>ceil\<close>, \<open>round\<close>, \<open>sqrt\<close>, the \<open>%e\<close> and \<open>%f\<close> conversions and
  \<open>strtod\<close> (on decimal numbers, the only strings it is given) are as the C standard and IEEE 754 fix
  them for round-to-nearest, each correctly rounded.
\<close>

section \<open>Doubles\<close>

type_synonym double = "64 word"

abbreviation INF_MAG :: nat where "INF_MAG \<equiv> 9218868437227405312"

definition signbit :: "double \<Rightarrow> bool" where
  "signbit d \<longleftrightarrow> 9223372036854775808 \<le> unat d"

definition mag :: "double \<Rightarrow> nat" where
  "mag d = unat d mod 9223372036854775808"

definition mk_double :: "bool \<Rightarrow> nat \<Rightarrow> double" where
  "mk_double s u = of_nat ((if s then 9223372036854775808 else 0) + u)"

definition isnan :: "double \<Rightarrow> bool" where "isnan d \<longleftrightarrow> INF_MAG < mag d"
definition isinf :: "double \<Rightarrow> bool" where "isinf d \<longleftrightarrow> mag d = INF_MAG"
definition is_finite :: "double \<Rightarrow> bool" where "is_finite d \<longleftrightarrow> mag d < INF_MAG"

text \<open>The significand and the binary exponent of a finite magnitude.\<close>

definition mant :: "nat \<Rightarrow> nat" where
  "mant u = (if u < 4503599627370496 then u else u mod 4503599627370496 + 4503599627370496)"

definition expo :: "nat \<Rightarrow> int" where
  "expo u = (if u < 4503599627370496 then -1074 else int (u div 4503599627370496) - 1075)"

text \<open>A finite magnitude as a fraction.\<close>

definition num_mag :: "nat \<Rightarrow> nat" where "num_mag u = mant u * 2 ^ nat (expo u)"
definition den_mag :: "nat \<Rightarrow> nat" where "den_mag u = 2 ^ nat (- expo u)"

text \<open>The comparison \<open>==\<close> of doubles.\<close>

definition double_eq :: "double \<Rightarrow> double \<Rightarrow> bool" where
  "double_eq x y \<longleftrightarrow> \<not> isnan x \<and> \<not> isnan y \<and> (x = y \<or> mag x = 0 \<and> mag y = 0)"

section \<open>Rounding\<close>

text \<open>\<open>a / b\<close> to the nearest integer, ties to even.\<close>

definition rne :: "nat \<Rightarrow> nat \<Rightarrow> nat" where
  "rne a b = (let q = a div b; r = a mod b
    in if 2 * r < b then q else if 2 * r > b then q + 1 else q + q mod 2)"

text \<open>The exponent \<open>e\<close> with \<open>B ^ e \<le> a / b < B ^ (e + 1)\<close>.\<close>

function (sequential) log_up :: "nat \<Rightarrow> nat \<Rightarrow> nat \<Rightarrow> nat" where
  "log_up B a b = (if B \<le> 1 \<or> b = 0 \<or> a < B * b then 0 else Suc (log_up B a (B * b)))"
  by pat_completeness auto
termination
proof (relation "measure (\<lambda>(B, a, b). a - b)")
  fix B a b :: nat
  assume "\<not> (B \<le> 1 \<or> b = 0 \<or> a < B * b)"
  then have "1 < B" "0 < b" "B * b \<le> a" by auto
  moreover have "b < B * b" using \<open>1 < B\<close> \<open>0 < b\<close> by simp
  ultimately have "a - B * b < a - b" by linarith
  then show "((B, a, B * b), B, a, b) \<in> measure (\<lambda>(B, a, b). a - b)" by (simp only: in_measure prod.case)
qed simp

function (sequential) log_down :: "nat \<Rightarrow> nat \<Rightarrow> nat \<Rightarrow> nat" where
  "log_down B a b = (if B \<le> 1 \<or> a = 0 \<or> b \<le> a then 0 else Suc (log_down B (B * a) b))"
  by pat_completeness auto
termination
proof (relation "measure (\<lambda>(B, a, b). b - a)")
  fix B a b :: nat
  assume "\<not> (B \<le> 1 \<or> a = 0 \<or> b \<le> a)"
  then have "1 < B" "0 < a" "a < b" by auto
  moreover have "a < B * a" using \<open>1 < B\<close> \<open>0 < a\<close> by simp
  ultimately have "b - B * a < b - a" by linarith
  then show "((B, B * a, b), B, a, b) \<in> measure (\<lambda>(B, a, b). b - a)" by (simp only: in_measure prod.case)
qed simp

declare log_up.simps [simp del] log_down.simps [simp del]

definition elog :: "nat \<Rightarrow> nat \<Rightarrow> nat \<Rightarrow> int" where
  "elog B a b = (if b \<le> a then int (log_up B a b) else - int (log_down B a b))"

text \<open>\<open>(a / b) / B ^ k\<close>, rounded.\<close>

definition rne_scaled :: "nat \<Rightarrow> int \<Rightarrow> nat \<Rightarrow> nat \<Rightarrow> nat" where
  "rne_scaled B k a b = rne (a * B ^ nat (- k)) (b * B ^ nat k)"

text \<open>The magnitude of the double nearest to \<open>a / b\<close>: infinity past the largest one.\<close>

definition mag_of_frac :: "nat \<Rightarrow> nat \<Rightarrow> nat" where
  "mag_of_frac a b =
     (if a = 0 then 0
      else let E = max (elog 2 a b) (-1022);
               u = nat (E + 1022) * 4503599627370496 + rne_scaled 2 (E - 52) a b
           in min u INF_MAG)"

section \<open>Integers and roots\<close>

text \<open>\<open>d >= n\<close> and \<open>d <= n\<close> for an integer \<open>n\<close>, and \<open>(int64_t)d\<close>, which drops the fraction.\<close>

definition num_of :: "double \<Rightarrow> int" where
  "num_of d = (if signbit d then - int (num_mag (mag d)) else int (num_mag (mag d)))"

definition ge_int :: "double \<Rightarrow> int \<Rightarrow> bool" where
  "ge_int d n \<longleftrightarrow> \<not> isnan d \<and> (if isinf d then \<not> signbit d else n * int (den_mag (mag d)) \<le> num_of d)"

definition le_int :: "double \<Rightarrow> int \<Rightarrow> bool" where
  "le_int d n \<longleftrightarrow> \<not> isnan d \<and> (if isinf d then signbit d else num_of d \<le> n * int (den_mag (mag d)))"

text \<open>
  \<open>floor\<close>, \<open>ceil\<close>, \<open>round\<close> and \<open>sqrt\<close> give back NaN (quiet), infinities and zeros; a zero result has the
  sign of the argument. \<open>round\<close> takes halves away from zero.
\<close>

definition quiet :: "double \<Rightarrow> double" where
  "quiet d = d OR 2251799813685248"

definition to_integral :: "(int \<Rightarrow> int \<Rightarrow> int) \<Rightarrow> double \<Rightarrow> double" where
  "to_integral f d =
     (if isnan d then quiet d
      else if isinf d \<or> mag d = 0 then d
      else mk_double (signbit d) (mag_of_frac (nat \<bar>f (num_of d) (int (den_mag (mag d)))\<bar>) 1))"

definition floor_div :: "int \<Rightarrow> int \<Rightarrow> int" where "floor_div a b = a div b"
definition ceil_div :: "int \<Rightarrow> int \<Rightarrow> int" where "ceil_div a b = - ((- a) div b)"
definition round_div :: "int \<Rightarrow> int \<Rightarrow> int" where "round_div a b = sgn a * ((2 * \<bar>a\<bar> + b) div (2 * b))"

fun isqrt :: "nat \<Rightarrow> nat" where
  "isqrt n = (if n = 0 then 0 else let r = 2 * isqrt (n div 4) in if (r + 1) * (r + 1) \<le> n then r + 1 else r)"

declare isqrt.simps [simp del]

text \<open>
  The root of \<open>m * 2 ^ e\<close> with \<open>e\<close> even: 54 bits or more of the root and one sticky bit, which is all
  the rounding needs.
\<close>

definition sqrt_mag :: "nat \<Rightarrow> nat" where
  "sqrt_mag u =
     (let e = expo u; m = (if even e then mant u else 2 * mant u); e = (if even e then e else e - 1);
          M = m * 2 ^ 108; r = isqrt M; t = 2 * r + (if r * r < M then 1 else 0); k = e div 2 - 55
      in mag_of_frac (t * 2 ^ nat k) (2 ^ nat (- k)))"

definition double_sqrt :: "double \<Rightarrow> double" where
  "double_sqrt d =
     (if isnan d then quiet d
      else if mag d = 0 then d
      else if signbit d then mk_double False 9221120237041090560
      else if isinf d then d
      else mk_double False (sqrt_mag (mag d)))"

section \<open>Text\<close>

abbreviation c_dot :: byte where "c_dot \<equiv> 46"
abbreviation c_minus :: byte where "c_minus \<equiv> 45"
abbreviation c_plus :: byte where "c_plus \<equiv> 43"
abbreviation c_e :: byte where "c_e \<equiv> 101"
abbreviation c_0 :: byte where "c_0 \<equiv> 48"

text \<open>The decimal significand of \<open>p + 1\<close> digits and the decimal exponent that \<open>%.*e\<close> shows.\<close>

definition dec_sig :: "nat \<Rightarrow> nat \<Rightarrow> nat \<times> int" where
  "dec_sig p u =
     (let a = num_mag u; b = den_mag u; E = elog 10 a b; n = rne_scaled 10 (E - int p) a b
      in if n = 10 ^ (p + 1) then (10 ^ p, E + 1) else (n, E))"

definition exp_field :: "int \<Rightarrow> byte list" where
  "exp_field E = (if E < 0 then c_minus else c_plus) #
     (if \<bar>E\<bar> < 10 then [c_0] else []) @ dec_nat (nat \<bar>E\<bar>)"

definition snprintf_e :: "nat \<Rightarrow> double \<Rightarrow> byte list" where
  "snprintf_e p d =
     (let (n, E) = dec_sig p (mag d); ds = dec_nat n
      in (if signbit d then [c_minus] else []) @ hd ds # (if p = 0 then [] else c_dot # tl ds) @
         c_e # exp_field E)"

text \<open>
  \<open>(double)n\<close>; the quotient of a finite double and an integer constant that is a double; \<open>d < n\<close>; and
  \<open>%.*f\<close>, which shows the finite value \<open>d\<close> correctly rounded.
\<close>

definition double_of_int :: "int \<Rightarrow> double" where
  "double_of_int n = mk_double (n < 0) (mag_of_frac (nat \<bar>n\<bar>) 1)"

definition double_div :: "double \<Rightarrow> nat \<Rightarrow> double" where
  "double_div d k = mk_double (signbit d) (mag_of_frac (num_mag (mag d)) (den_mag (mag d) * k))"

definition less_int :: "double \<Rightarrow> int \<Rightarrow> bool" where
  "less_int d n \<longleftrightarrow> \<not> isnan d \<and> (if isinf d then signbit d else num_of d < n * int (den_mag (mag d)))"

definition fixed_text :: "nat \<Rightarrow> nat \<Rightarrow> byte list" where
  "fixed_text p n = dec_nat (n div 10 ^ p) @
     (if p = 0 then [] else let ds = dec_nat (n mod 10 ^ p) in c_dot # replicate (p - length ds) c_0 @ ds)"

definition snprintf_f :: "nat \<Rightarrow> double \<Rightarrow> byte list" where
  "snprintf_f p d = (if signbit d then [c_minus] else []) @
     fixed_text p (rne (num_mag (mag d) * 10 ^ p) (den_mag (mag d)))"

definition skip_sign :: "byte list \<Rightarrow> bool \<times> byte list" where
  "skip_sign s = (case s of [] \<Rightarrow> (False, [])
     | c # t \<Rightarrow> if c = c_minus then (True, t) else if c = c_plus then (False, t) else (False, s))"

text \<open>\<open>atoi\<close> on a sign and digits.\<close>

definition atoi :: "byte list \<Rightarrow> int" where
  "atoi s = (let (neg, t) = skip_sign s; v = int (dec_val (takeWhile is_digit t)) in if neg then - v else v)"

text \<open>\<open>strtod\<close> on a decimal number: \<open>N * 10 ^ q\<close>, rounded.\<close>

definition mag_of_dec :: "nat \<Rightarrow> int \<Rightarrow> nat" where
  "mag_of_dec N q = mag_of_frac (N * 10 ^ nat q) (10 ^ nat (- q))"

definition split_point :: "byte list \<Rightarrow> byte list \<times> byte list \<times> byte list" where
  "split_point s =
     (let ip = takeWhile is_digit s; t = dropWhile is_digit s
      in case t of
           c # r \<Rightarrow> if c = c_dot then (ip, takeWhile is_digit r, dropWhile is_digit r) else (ip, [], t)
         | [] \<Rightarrow> (ip, [], []))"

definition exp_part :: "byte list \<Rightarrow> int" where
  "exp_part s = (case s of [] \<Rightarrow> 0 | c # t \<Rightarrow> if c = c_e \<or> c = 69 then atoi t else 0)"

definition strtod :: "byte list \<Rightarrow> double" where
  "strtod s =
     (let (neg, s) = skip_sign s; (ip, fp, r) = split_point s
      in if ip @ fp = [] then mk_double False 0
         else mk_double neg (mag_of_dec (dec_val (ip @ fp)) (exp_part r - int (length fp))))"

section \<open>Rounding, on the real line\<close>

definition vmag :: "nat \<Rightarrow> real" where
  "vmag u = real (mant u) * 2 powi expo u"

lemma rne_near:
  assumes "0 < b"
  shows "\<bar>real (rne a b) - real a / real b\<bar> \<le> 1 / 2"
proof -
  define q r where "q = a div b" and "r = a mod b"
  have "a = q * b + r" "r < b" using assms by (simp_all add: q_def r_def)
  then have x: "real a / real b = real q + real r / real b" using assms by (simp add: field_simps)
  have h: "real r / real b < 1 / 2 \<longleftrightarrow> 2 * r < b" "real r / real b > 1 / 2 \<longleftrightarrow> 2 * r > b"
    using assms of_nat_less_iff [of "r * 2" b, where 'a = real] of_nat_less_iff [of b "r * 2", where 'a = real]
    by (simp_all add: field_simps)
  have "0 \<le> real r / real b" "real r / real b < 1" using assms \<open>r < b\<close> by auto
  moreover have "real (q mod 2) = 0 \<or> real (q mod 2) = 1" by auto
  moreover have "real r / real b = 1 / 2" if "\<not> 2 * r < b" "\<not> 2 * r > b" using that h by linarith
  ultimately show ?thesis
    unfolding x rne_def Let_def q_def [symmetric] r_def [symmetric] using h by (auto simp: abs_le_iff)
qed

lemma rne_eqI:
  assumes "0 < b" and "\<bar>real a / real b - real m\<bar> < 1 / 2"
  shows "rne a b = m"
  using rne_near [OF assms(1), of a] assms(2) by linarith

lemma log_up_bounds:
  "1 < B \<Longrightarrow> 0 < b \<Longrightarrow> b \<le> a \<Longrightarrow> B ^ log_up B a b * b \<le> a \<and> a < B ^ Suc (log_up B a b) * b"
proof (induction B a b rule: log_up.induct)
  case (1 B a b)
  show ?case
  proof (cases "a < B * b")
    case False
    then have "\<not> (B \<le> 1 \<or> b = 0 \<or> a < B * b)" "0 < B * b" "B * b \<le> a" using 1 by auto
    from 1(1) [OF this(1) _ this(2,3)] 1(2) this show ?thesis
      by (subst (1 2) log_up.simps) (simp add: algebra_simps)
  qed (use 1 in \<open>simp add: log_up.simps\<close>)
qed

lemma log_down_bounds:
  "1 < B \<Longrightarrow> 0 < a \<Longrightarrow> a < b \<Longrightarrow> b \<le> B ^ log_down B a b * a \<and> B ^ log_down B a b * a < B * b"
proof (induction B a b rule: log_down.induct)
  case (1 B a b)
  have n: "\<not> (B \<le> 1 \<or> a = 0 \<or> b \<le> a)" using 1 by auto
  have e: "log_down B a b = Suc (log_down B (B * a) b)" using n by (simp add: log_down.simps)
  show ?case
  proof (cases "B * a < b")
    case True
    then show ?thesis using 1(1) [OF n] 1 e by (simp add: algebra_simps)
  next
    case False
    then have "log_down B (B * a) b = 0" by (simp add: log_down.simps)
    then show ?thesis using False e 1 by (simp add: algebra_simps)
  qed
qed

lemma elog_bounds:
  assumes "1 < B" and "0 < a" and "0 < b"
  shows "real B powi elog B a b \<le> real a / real b \<and> real a / real b < real B powi (elog B a b + 1)"
proof (cases "b \<le> a")
  case True
  have "real (B ^ log_up B a b * b) \<le> real a" "real a < real (B ^ Suc (log_up B a b) * b)"
    using log_up_bounds [OF assms(1,3) True] by (simp_all only: of_nat_le_iff of_nat_less_iff)
  moreover have "real B powi (int (log_up B a b) + 1) = real B ^ Suc (log_up B a b)"
    using power_int_of_nat [of "real B" "Suc (log_up B a b)"] by (simp add: add.commute)
  ultimately show ?thesis using True assms by (simp add: elog_def field_simps)
next
  case False
  define k where "k = log_down B a b"
  have "real b \<le> real (B ^ k * a)" "real (B ^ k * a) < real (B * b)"
    using log_down_bounds [OF assms(1,2)] False unfolding k_def by (simp_all only: of_nat_le_iff of_nat_less_iff)
  moreover have "real B powi (- int k + 1) = real B / real B ^ k"
    using assms power_int_diff [of "real B" 1 "int k"] by simp
  moreover have "elog B a b = - int k" "elog B a b + 1 = - int k + 1" using False by (simp_all add: elog_def k_def)
  moreover have "real B powi (- int k) = 1 / real B ^ k" by (simp add: power_int_minus field_simps)
  ultimately show ?thesis using assms by (simp only:) (simp add: field_simps)
qed

lemma powi_less: "1 < (x :: real) \<Longrightarrow> x powi m < x powi n \<longleftrightarrow> m < n"
  by (metis power_int_strict_increasing linorder_neqE less_asym order_less_irrefl)

lemma elog_eqI:
  assumes "1 < B" and "0 < a" and "0 < b" and "real B powi k \<le> real a / real b" and "real a / real b < real B powi (k + 1)"
  shows "elog B a b = k"
proof -
  have b: "real B powi elog B a b < real B powi (k + 1)" "real B powi k < real B powi (elog B a b + 1)"
    using elog_bounds [OF assms(1-3)] assms(4,5) by linarith+
  have "(1 :: real) < real B" using assms(1) by simp
  from powi_less [OF this] b show ?thesis by fastforce
qed

lemma scaled_frac:
  assumes "0 < B" and "0 < b"
  shows "real (a * B ^ nat (- k)) / real (b * B ^ nat k) = (real a / real b) / real B powi k" "0 < b * B ^ nat k"
proof -
  show "real (a * B ^ nat (- k)) / real (b * B ^ nat k) = (real a / real b) / real B powi k"
  proof (cases "0 \<le> k")
    case True
    then show ?thesis by (simp add: power_int_def)
  next
    case False
    then show ?thesis by (simp add: power_int_def field_simps)
  qed
  show "0 < b * B ^ nat k" using assms by simp
qed

lemma rne_scaled_near:
  assumes "0 < B" and "0 < b"
  shows "\<bar>real (rne_scaled B k a b) - (real a / real b) / real B powi k\<bar> \<le> 1 / 2"
  using rne_near [OF scaled_frac(2) [OF assms], of "a * B ^ nat (- k)" k] by (simp only: rne_scaled_def scaled_frac(1) [OF assms])

lemma rne_scaled_eqI:
  assumes "0 < B" and "0 < b" and "\<bar>(real a / real b) / real B powi k - real m\<bar> < 1 / 2"
  shows "rne_scaled B k a b = m"
  using rne_scaled_near [OF assms(1,2), of k a] assms(3) by linarith

lemma mant_expo:
  assumes "u < INF_MAG"
  shows "-1074 \<le> expo u" "expo u \<le> 971" "mant u < 2 ^ 53" "-1074 < expo u \<Longrightarrow> 2 ^ 52 \<le> mant u"
    "int u = (expo u + 1074) * 2 ^ 52 + int (mant u)" "mant u = 0 \<longleftrightarrow> u = 0"
  using assms div_mult_mod_eq [of u 4503599627370496]
  by (auto simp: mant_def expo_def zdiv_int zmod_int)

lemma vmag_pos: "0 < u \<Longrightarrow> u < INF_MAG \<Longrightarrow> 0 < vmag u"
  using mant_expo(6) [of u] by (auto simp: vmag_def)

lemma frac_mag: "real (num_mag u) / real (den_mag u) = vmag u" "0 < den_mag u"
proof -
  show "real (num_mag u) / real (den_mag u) = vmag u"
    by (cases "0 \<le> expo u") (simp_all add: num_mag_def den_mag_def vmag_def power_int_def field_simps)
qed (simp add: den_mag_def)

lemma powi_shift: "(2 :: real) powi (e + 52) = 2 ^ 52 * 2 powi e" "(2 :: real) powi (e + 53) = 2 ^ 53 * 2 powi e"
  "(2 :: real) powi (e - 1) = 2 powi e / 2" "(2 :: real) powi (e + 51) = 2 ^ 51 * 2 powi e"
  by (simp_all add: power_int_add power_int_diff)

text \<open>The double nearest to a fraction from 1 up has a relative error of at most half a last place.\<close>

lemma vmag_encode:
  assumes "4503599627370496 \<le> m" and "m \<le> 9007199254740992"
  shows "vmag (j * 4503599627370496 + m) = real m * 2 powi (int j - 1074)"
proof (cases "m = 9007199254740992")
  case True
  have "j * 4503599627370496 + m = (j + 2) * 4503599627370496" using True by simp
  then have "(j * 4503599627370496 + m) div 4503599627370496 = j + 2" "(j * 4503599627370496 + m) mod 4503599627370496 = 0"
    by (simp_all only: nonzero_mult_div_cancel_right mod_mult_self2_is_0)
  then have "mant (j * 4503599627370496 + m) = 4503599627370496" "expo (j * 4503599627370496 + m) = (int j - 1074) + 1"
    using True by (simp_all add: mant_def expo_def)
  moreover have "(2 :: real) powi (int j - 1073) = 2 * 2 powi (int j - 1074)"
    using power_int_add_1 [of "2 :: real" "int j - 1074"] by simp
  ultimately show ?thesis using True by (simp add: vmag_def)
next
  case False
  define f where "f = m - 4503599627370496"
  have m: "m = 4503599627370496 + f" "f < 4503599627370496" using assms False by (simp_all add: f_def)
  have "j * 4503599627370496 + m = (j + 1) * 4503599627370496 + f" using m by simp
  then have "(j * 4503599627370496 + m) div 4503599627370496 = j + 1" "(j * 4503599627370496 + m) mod 4503599627370496 = f"
    using m(2) by (simp_all only: div_mult_self3 mod_mult_self3 div_less mod_less)
  then show ?thesis using m by (simp add: mant_def expo_def vmag_def)
qed

lemma mag_of_frac_close:
  assumes "0 < b" and "b \<le> a" and "real a / real b < 2 ^ 100"
  shows "mag_of_frac a b < INF_MAG \<and> \<bar>vmag (mag_of_frac a b) - real a / real b\<bar> \<le> real a / real b / 2 ^ 53"
proof -
  define x E where "x = real a / real b" and "E = elog 2 a b"
  have a: "0 < a" using assms by simp
  have E: "2 powi E \<le> x" "x < 2 powi (E + 1)" using elog_bounds [of 2 a b] a assms(1) by (simp_all add: x_def E_def)
  have E0: "0 \<le> E" using assms(2) by (simp add: E_def elog_def)
  have "(2 :: real) powi E < 2 powi 100" using E(1) assms(3) by (simp add: x_def)
  moreover have "1 < (2 :: real)" by simp
  ultimately have E100: "E < 100" by (simp only: powi_less)
  define t :: real where "t = 2 powi (E - 52)"
  have t: "0 < t" "2 powi E = 2 ^ 52 * t" "2 powi (E + 1) = 2 ^ 53 * t"
    using powi_shift(1) [of "E - 52"] powi_shift(2) [of "E - 52"] by (simp_all add: t_def algebra_simps)
  define n where "n = rne_scaled 2 (E - 52) a b"
  have n: "\<bar>real n - x / t\<bar> \<le> 1 / 2"
    using rne_scaled_near [of 2 b "E - 52" a] assms(1) by (simp add: n_def x_def t_def)
  have q: "4503599627370496 \<le> x / t" "x / t < 9007199254740992" using E t by (simp_all add: field_simps)
  then have nn: "4503599627370496 \<le> n" "n \<le> 9007199254740992" using n by linarith+
  define j where "j = nat (E + 1022)"
  have "j \<le> 1121" using E100 by (simp add: j_def)
  then have "j * 4503599627370496 + n < INF_MAG" using nn(2) by simp
  moreover have "mag_of_frac a b = min (j * 4503599627370496 + n) INF_MAG"
    using a E0 by (simp add: mag_of_frac_def Let_def E_def [symmetric] n_def j_def max_def)
  ultimately have u: "mag_of_frac a b = j * 4503599627370496 + n" "mag_of_frac a b < INF_MAG" by simp_all
  have "vmag (mag_of_frac a b) = real n * t"
    using vmag_encode [OF nn, of j] E0 u(1) by (simp add: t_def j_def)
  moreover have "\<bar>real n * t - x\<bar> \<le> t / 2" using n t(1) by (simp add: field_simps abs_le_iff)
  moreover have "t / 2 \<le> x / 2 ^ 53" using E(1) t(2) by simp
  ultimately show ?thesis using u(2) by (simp add: x_def)
qed

text \<open>A fraction closer to a double than a quarter of its last place rounds to it.\<close>

lemma mag_of_frac_near:
  assumes "0 < a" and "0 < b" and "0 < u" and "u < INF_MAG"
    and "\<bar>real a / real b - vmag u\<bar> < vmag u / 2 ^ 54"
  shows "mag_of_frac a b = u"
proof -
  define x where "x = real a / real b"
  define e where "e = expo u"
  define m where "m = mant u"
  define t :: real where "t = 2 powi e"
  have t: "0 < t" by (simp add: t_def)
  have v: "vmag u = real m * t" by (simp add: vmag_def m_def e_def t_def)
  note me = mant_expo [OF assms(4), folded e_def m_def]
  have m: "1 \<le> m" "real m \<le> 2 ^ 53 - 1" using me(3,6) assms(3) by simp_all
  have near: "\<bar>x - real m * t\<bar> < real m * t / 2 ^ 54" using assms(5) by (simp add: x_def v)
  have q: "\<bar>x / t - real m\<bar> < real m / 2 ^ 54" using near t by (simp add: field_simps abs_mult_pos' abs_less_iff)
  have m': "real m \<le> 9007199254740991" using m(2) by (simp only: power_numeral) simp
  have q': "\<bar>x / t - real m\<bar> < real m / 18014398509481984" using q by simp
  have "\<bar>x / t - real m\<bar> < 1 / 2 \<and> x / t < 9007199254740992" using q' m' by linarith
  then have q2: "\<bar>x / t - real m\<bar> < 1 / 2" "x / t < 2 ^ 53" by simp_all
  have fin: "mag_of_frac a b = u"
    if "max (elog 2 a b) (-1022) = E" "rne_scaled 2 (E - 52) a b = n" "(E + 1022) * 2 ^ 52 + int n = int u" for E n
  proof -
    have "-1022 \<le> E" using that(1) by linarith
    then have "nat (E + 1022) * 4503599627370496 + n = u" using that(3) by (simp add: nat_add_distrib)
    then show ?thesis using assms(1,4) that(1,2) by (simp add: mag_of_frac_def Let_def)
  qed
  show ?thesis
  proof (cases "2 ^ 52 \<le> x / t \<or> e = -1074")
    case True
    have up: "x < 2 powi (e + 53)" using q2(2) t by (simp add: powi_shift t_def [symmetric] field_simps)
    have "max (elog 2 a b) (-1022) = e + 52"
    proof (cases "2 ^ 52 \<le> x / t")
      case True
      then have "elog 2 a b = e + 52"
        using up t assms(1,2) by (intro elog_eqI) (simp_all add: x_def powi_shift t_def [symmetric] field_simps)
      then show ?thesis using me(1) by simp
    next
      case False
      then have e: "e = -1074" using True by simp
      have "x < 2 powi (-1022)" using False t powi_shift(1) [of e] by (simp add: e t_def field_simps)
      moreover have "2 powi elog 2 a b \<le> x" using elog_bounds [of 2 a b] assms(1,2) by (simp add: x_def)
      ultimately have "elog 2 a b < -1022" using powi_less [of 2 "elog 2 a b" "-1022"] by simp
      then show ?thesis using e by simp
    qed
    moreover have "rne_scaled 2 e a b = m"
      using q2(1) assms(2) by (intro rne_scaled_eqI) (simp_all add: x_def t_def)
    ultimately show ?thesis using me(5) by (intro fin [of "e + 52" m]) (simp_all add: algebra_simps)
  next
    case False
    then have e: "-1074 < e" "x / t < 2 ^ 52" using me(1) by auto
    have lo: "x / t < 4503599627370496" "4503599627370496 \<le> m" using e me(4) by simp_all
    have "\<not> 4503599627370497 \<le> m"
    proof
      assume "4503599627370497 \<le> m"
      then have "4503599627370497 \<le> real m" by simp
      then show False using q' m' lo(1) by linarith
    qed
    then have m_eq: "m = 4503599627370496" using lo(2) by linarith
    have "2 ^ 53 - 1 / 2 < 2 * y \<and> 2 * y < 2 ^ 53"
      if "\<bar>y - 4503599627370496\<bar> < 4503599627370496 / 18014398509481984" "y < 4503599627370496" for y :: real
      using that by (simp add: abs_less_iff)
    from this [of "x / t"] have r: "2 ^ 53 - 1 / 2 < 2 * (x / t)" "2 * (x / t) < 2 ^ 53"
      using q' lo(1) unfolding m_eq by (simp_all only: of_nat_numeral)
    have "elog 2 a b = e + 51"
      using e(2) r(1) t assms(1,2)
      by (intro elog_eqI) (simp_all add: x_def powi_shift t_def [symmetric] field_simps)
    moreover have "rne_scaled 2 (e - 1) a b = 2 ^ 53"
      using r assms(2) by (intro rne_scaled_eqI) (simp_all add: x_def powi_shift t_def [symmetric] abs_less_iff field_simps)
    ultimately show ?thesis
      using me(1,5) e m_eq by (intro fin [of "e + 51" "2 ^ 53"]) (simp_all add: algebra_simps)
  qed
qed

lemma rne_mult: "0 < c \<Longrightarrow> rne (c * a) (c * b) = rne a b"
  by (simp add: rne_def Let_def mult.left_commute [of 2 c])

lemma rne_cong:
  assumes "a * b' = a' * b" and "0 < b" and "0 < b'"
  shows "rne a b = rne a' b'"
proof -
  have "rne a b = rne (b' * a) (b' * b)" using assms(3) by (simp add: rne_mult)
  also have "\<dots> = rne (b * a') (b * b')" using assms(1) by (simp add: mult.commute)
  also have "\<dots> = rne a' b'" using assms(2) by (simp add: rne_mult)
  finally show ?thesis .
qed

lemma elog_cong:
  assumes "real a / real b = real a' / real b'" and "1 < B" and "0 < a" and "0 < b" and "0 < a'" and "0 < b'"
  shows "elog B a b = elog B a' b'"
  using elog_bounds [of B a' b'] assms by (intro elog_eqI) simp_all

text \<open>The rounding depends on the value only, not on the fraction that gives it.\<close>

lemma mag_of_frac_cong:
  assumes "real a / real b = real a' / real b'" and "0 < b" and "0 < b'"
  shows "mag_of_frac a b = mag_of_frac a' b'"
proof (cases "a = 0")
  case False
  then have pos: "0 < a" "0 < a'" using assms by (auto intro: gr0I)
  have "real (a * b') = real (a' * b)" using assms by (simp add: field_simps)
  then have x: "a * b' = a' * b" by (simp only: of_nat_eq_iff)
  have "rne_scaled 2 k a b = rne_scaled 2 k a' b'" for k
    unfolding rne_scaled_def using assms x by (intro rne_cong) (simp_all add: algebra_simps)
  then show ?thesis
    using pos elog_cong [OF assms(1), of 2] assms by (simp add: mag_of_frac_def)
qed (use assms in \<open>auto simp: mag_of_frac_def\<close>)

lemma dec_value: "real (N * 10 ^ nat q) / real (10 ^ nat (- q)) = real N * 10 powi q"
  by (cases "0 \<le> q") (simp_all add: power_int_def field_simps)

lemma mag_of_dec_cong: "real N * 10 powi q = real N' * 10 powi q' \<Longrightarrow> mag_of_dec N q = mag_of_dec N' q'"
  unfolding mag_of_dec_def by (rule mag_of_frac_cong) (simp_all only: dec_value, simp_all)

text \<open>The seventeen digits: their value is close enough.\<close>

lemma dec_sig_near:
  assumes "0 < u" and "u < INF_MAG" and "dec_sig p u = (n, E)"
  shows "\<bar>real n * 10 powi (E - int p) - vmag u\<bar> \<le> vmag u / (2 * 10 ^ p)" "10 ^ p \<le> n" "n < 10 ^ (p + 1)"
proof -
  define a b where "a = num_mag u" and "b = den_mag u"
  define E0 where "E0 = elog 10 a b"
  define n0 where "n0 = rne_scaled 10 (E0 - int p) a b"
  define s :: real where "s = 10 powi (E0 - int p)"
  define v where "v = vmag u"
  have s: "0 < s" by (simp add: s_def)
  have v: "real a / real b = v" "0 < b" using frac_mag [of u] by (simp_all add: a_def b_def v_def)
  have "0 < v" using vmag_pos assms by (simp add: v_def)
  then have "0 < a" using v by (auto intro: gr0I)
  have lo: "10 powi E0 \<le> v" "v < 10 powi (E0 + 1)" using elog_bounds [of 10 a b] \<open>0 < a\<close> v by (simp_all add: E0_def)
  have sp: "10 powi E0 = s * 10 ^ p" "10 powi (E0 + 1) = s * 10 ^ (p + 1)"
    by (simp_all add: s_def power_int_diff power_int_add)
  have near: "\<bar>real n0 - v / s\<bar> \<le> 1 / 2"
    using rne_scaled_near [of 10 b "E0 - int p" a] v by (simp add: n0_def s_def)
  have close: "\<bar>real n0 * s - v\<bar> \<le> v / (2 * 10 ^ p)"
  proof -
    have "\<bar>real n0 * s - v\<bar> = \<bar>real n0 - v / s\<bar> * s" using s by (simp add: field_simps abs_mult_pos')
    also have "\<dots> \<le> 1 / 2 * s" using near s by (intro mult_right_mono) auto
    also have "\<dots> \<le> v / (2 * 10 ^ p)" using lo sp by (simp add: field_simps)
    finally show ?thesis .
  qed
  have b: "real (10 ^ p) \<le> v / s" "v / s < real (10 ^ (p + 1))" using lo sp s by (simp_all add: field_simps)
  have "real (10 ^ p) < real n0 + 1" "real n0 < real (10 ^ (p + 1)) + 1" using near b by linarith+
  then have "real (10 ^ p) < real (n0 + 1)" "real n0 < real (10 ^ (p + 1) + 1)" by simp_all
  then have n0: "10 ^ p \<le> n0" "n0 \<le> 10 ^ (p + 1)" unfolding of_nat_less_iff by linarith+
  have d: "dec_sig p u = (if n0 = 10 ^ (p + 1) then (10 ^ p, E0 + 1) else (n0, E0))"
    by (simp add: dec_sig_def Let_def n0_def E0_def a_def b_def)
  have same: "real n * 10 powi (E - int p) = real n0 * s"
  proof (cases "n0 = 10 ^ (p + 1)")
    case True
    then have "n = 10 ^ p" "E = E0 + 1" using d assms(3) by auto
    then show ?thesis using True by (simp add: s_def power_int_diff power_int_add)
  qed (use d assms(3) s_def in auto)
  show "\<bar>real n * 10 powi (E - int p) - vmag u\<bar> \<le> vmag u / (2 * 10 ^ p)" using close same by (simp add: v_def)
  show "10 ^ p \<le> n" "n < 10 ^ (p + 1)" using n0 d assms(3) by (auto split: if_splits)
qed

lemma seventeen_digits:
  assumes "0 < u" and "u < INF_MAG" and "dec_sig 16 u = (n, E)"
  shows "mag_of_dec n (E - 16) = u"
  unfolding mag_of_dec_def
proof (rule mag_of_frac_near)
  note near = dec_sig_near [OF assms]
  show "0 < n * 10 ^ nat (E - 16)" "0 < (10 :: nat) ^ nat (- (E - 16))" using near(2) by (auto intro: gr0I)
  have "vmag u / (2 * 10 ^ 16) < vmag u / 2 ^ 54" using vmag_pos assms(1,2) by (simp add: field_simps)
  then show "\<bar>real (n * 10 ^ nat (E - 16)) / real (10 ^ nat (- (E - 16))) - vmag u\<bar> < vmag u / 2 ^ 54"
    using near(1) unfolding dec_value by simp
qed (use assms in auto)

section \<open>Decimal texts\<close>

definition sg :: "bool \<Rightarrow> byte list" where
  "sg neg = (if neg then [c_minus] else [])"

lemma skip_sign_sg: "s \<noteq> [] \<Longrightarrow> is_digit (hd s) \<Longrightarrow> skip_sign (sg neg @ s) = (neg, s)"
  by (cases s) (auto simp: skip_sign_def sg_def dest: digit_ne)

lemma takeWhile_digits: "all_digits ds \<Longrightarrow> r = [] \<or> \<not> is_digit (hd r) \<Longrightarrow>
  takeWhile is_digit (ds @ r) = ds \<and> dropWhile is_digit (ds @ r) = r"
  by (induction ds) (cases r, auto)

lemma takeWhile_all_digits: "all_digits ds \<Longrightarrow> takeWhile is_digit ds = ds \<and> dropWhile is_digit ds = []"
  by (auto simp: list_all_iff)

lemma split_point_dot:
  "all_digits ip \<Longrightarrow> all_digits fp \<Longrightarrow> r = [] \<or> \<not> is_digit (hd r) \<Longrightarrow> split_point (ip @ c_dot # fp @ r) = (ip, fp, r)"
  using takeWhile_digits [of ip "c_dot # fp @ r"] takeWhile_digits [of fp r] by (simp add: split_point_def)

lemma split_point_plain:
  "all_digits ip \<Longrightarrow> r = [] \<or> \<not> is_digit (hd r) \<and> hd r \<noteq> c_dot \<Longrightarrow> split_point (ip @ r) = (ip, [], r)"
  using takeWhile_digits [of ip r] by (cases r) (simp_all add: split_point_def Let_def takeWhile_all_digits)

lemma atoi_signed: "atoi ((if E < 0 then c_minus else c_plus) # replicate k c_0 @ dec_nat (nat \<bar>E\<bar>)) = E"
proof -
  have "all_digits (replicate k c_0 @ dec_nat n)" for n
    using dec_nat_digits [of n] by (auto simp: list_all_iff)
  note tw = takeWhile_all_digits [OF this, THEN conjunct1]
  show ?thesis by (simp add: atoi_def skip_sign_def tw dec_val_append)
qed

lemma atoi_exp_field [simp]: "atoi (exp_field E) = E"
  using atoi_signed [of E 0] atoi_signed [of E 1] by (auto simp: exp_field_def)

lemma exp_part_e: "exp_part (c_e # t) = atoi t"
  by (simp add: exp_part_def)

text \<open>What \<open>strtod\<close> reads, with and without a point.\<close>

lemma strtod_dot:
  assumes "all_digits ip" and "all_digits fp" and "ip \<noteq> []" and "r = [] \<or> \<not> is_digit (hd r)"
  shows "strtod (sg neg @ ip @ c_dot # fp @ r) = mk_double neg (mag_of_dec (dec_val (ip @ fp)) (exp_part r - int (length fp)))"
proof -
  have "is_digit (hd (ip @ c_dot # fp @ r))" using assms(1,3) by (cases ip) auto
  with skip_sign_sg [of "ip @ c_dot # fp @ r" neg] split_point_dot [OF assms(1,2,4)] assms(3)
  show ?thesis by (simp add: strtod_def)
qed

lemma strtod_plain:
  assumes "all_digits ip" and "ip \<noteq> []" and "r = [] \<or> \<not> is_digit (hd r) \<and> hd r \<noteq> c_dot"
  shows "strtod (sg neg @ ip @ r) = mk_double neg (mag_of_dec (dec_val ip) (exp_part r))"
proof -
  have "is_digit (hd (ip @ r))" using assms(1,2) by (cases ip) auto
  with skip_sign_sg [of "ip @ r" neg] split_point_plain [OF assms(1,3)] assms(2)
  show ?thesis by (simp add: strtod_def)
qed

lemma strtod_snprintf:
  assumes "dec_sig p (mag d) = (n, E)" and "10 ^ p \<le> n" and "n < 10 ^ (p + 1)"
  shows "strtod (snprintf_e p d) = mk_double (signbit d) (mag_of_dec n (E - int p))"
proof -
  have l: "length (dec_nat n) = Suc p" using assms(2,3) by (intro dec_nat_length) auto
  then obtain c cs where ds: "dec_nat n = c # cs" "length cs = p" by (cases "dec_nat n") auto
  have dg: "is_digit c" "all_digits cs" using dec_nat_digits [of n] ds by simp_all
  have v: "dec_val (c # cs) = n" using dec_nat_val [of n] ds by simp
  have s: "snprintf_e p d = sg (signbit d) @ [c] @ (if p = 0 then [] else c_dot # cs) @ c_e # exp_field E"
    by (simp add: snprintf_e_def assms(1) ds sg_def)
  show ?thesis
  proof (cases "p = 0")
    case True
    then show ?thesis using ds dg v strtod_plain [of "[c]" "c_e # exp_field E" "signbit d"]
      unfolding s by (simp add: exp_part_e)
  next
    case False
    then show ?thesis using ds dg v strtod_dot [of "[c]" cs "c_e # exp_field E" "signbit d"]
      unfolding s by (simp add: exp_part_e)
  qed
qed

lemma log_up_if: "a < B * b \<Longrightarrow> log_up B a b = 0" "1 < B \<Longrightarrow> 0 < b \<Longrightarrow> B * b \<le> a \<Longrightarrow> log_up B a b = Suc (log_up B a (B * b))"
  by (simp_all add: log_up.simps)

lemma log_down_if: "b \<le> a \<Longrightarrow> log_down B a b = 0" "1 < B \<Longrightarrow> 0 < a \<Longrightarrow> a < b \<Longrightarrow> log_down B a b = Suc (log_down B (B * a) b)"
  by (simp_all add: log_down.simps)

section \<open>Signs and magnitudes\<close>

lemma mk_double_mag [simp]: "mk_double (signbit d) (mag d) = d"
proof -
  have "unat d < 18446744073709551616" using unsigned_less [of d] by simp
  then have "(if signbit d then 9223372036854775808 else 0) + mag d = unat d"
    by (cases "signbit d") (auto simp: signbit_def mag_def le_mod_geq)
  then show ?thesis by (simp add: mk_double_def)
qed

lemma mag_mk_double [simp]: "u < 9223372036854775808 \<Longrightarrow> mag (mk_double s u) = u"
  "u < 9223372036854775808 \<Longrightarrow> signbit (mk_double s u) = s"
proof -
  assume u: "u < 9223372036854775808"
  have "unat (mk_double s u) = (if s then 9223372036854775808 else 0) + u"
    unfolding mk_double_def using u by (simp add: unat_of_nat take_bit_nat_eq_self del: of_nat_add)
  then show "mag (mk_double s u) = u" "signbit (mk_double s u) = s" using u by (simp_all add: mag_def signbit_def)
qed

section \<open>Integers that are doubles\<close>

definition dval :: "double \<Rightarrow> real" where
  "dval d = (if signbit d then - vmag (mag d) else vmag (mag d))"

definition trunc_real :: "real \<Rightarrow> int" where
  "trunc_real x = (if x < 0 then \<lceil>x\<rceil> else \<lfloor>x\<rfloor>)"

lemma dval_frac: "real_of_int (num_of d) / real (den_mag (mag d)) = dval d"
  using frac_mag(1) [of "mag d"] by (simp add: num_of_def dval_def)

lemma vmag_0 [simp]: "vmag 0 = 0"
  by (simp add: vmag_def mant_def)

lemma exact_int:
  assumes "0 < u" and "u < INF_MAG" and "vmag u = real N"
  shows "mag_of_frac N 1 = u"
  using vmag_pos [OF assms(1,2)] assms by (intro mag_of_frac_near) auto

lemma small_int:
  assumes "0 < N" and "N \<le> 2 ^ 53"
  shows "\<exists>u. 0 < u \<and> u < INF_MAG \<and> vmag u = real N"
proof -
  define k where "k = log_up 2 N 1"
  have k: "2 ^ k \<le> N" "N < 2 ^ Suc k" using log_up_bounds [of 2 1 N] assms(1) by (auto simp: k_def)
  show ?thesis
  proof (cases "k \<le> 52")
    case True
    define m where "m = N * 2 ^ (52 - k)"
    have "(2 :: nat) ^ k * 2 ^ (52 - k) = 4503599627370496" using True by (simp add: power_add [symmetric])
    moreover have "2 ^ k * 2 ^ (52 - k) \<le> m" "m < 2 ^ Suc k * 2 ^ (52 - k)"
      unfolding m_def using k by (intro mult_le_mono1 mult_less_mono1; simp)+
    ultimately have m: "4503599627370496 \<le> m" "m < 9007199254740992" by simp_all
    have "vmag ((k + 1022) * 4503599627370496 + m) = real m * 2 powi (int k - 52)"
      using vmag_encode [of m "k + 1022"] m by simp
    also have "int k - 52 = - int (52 - k)" using True by simp
    also have "real m * 2 powi (- int (52 - k)) = real N" unfolding m_def power_int_minus power_int_of_nat by simp
    finally show ?thesis using m True by (intro exI [of _ "(k + 1022) * 4503599627370496 + m"]) simp
  next
    case False
    then have "(2 :: nat) ^ 53 \<le> 2 ^ k" by (intro power_increasing) auto
    then have "N = 2 ^ 53" using k(1) assms(2) by linarith
    then have "vmag (1075 * 4503599627370496 + 4503599627370496) = real N"
      using vmag_encode [of 4503599627370496 1075] by simp
    then show ?thesis by (intro exI [of _ "1075 * 4503599627370496 + 4503599627370496"]) simp
  qed
qed

lemma small_int_exact:
  assumes "N \<le> 2 ^ 53"
  shows "mag_of_frac N 1 < INF_MAG \<and> vmag (mag_of_frac N 1) = real N"
proof (cases "N = 0")
  case False
  then obtain u where "0 < u" "u < INF_MAG" "vmag u = real N" using small_int [of N] assms by auto
  then show ?thesis using exact_int [of u N] by simp
qed (simp add: mag_of_frac_def)

lemma c_quot_trunc:
  assumes "0 < b"
  shows "c_quot a b = trunc_real (real_of_int a / real_of_int b)"
proof (cases "0 \<le> a")
  case True
  then show ?thesis using assms
    by (auto simp: c_quot_def trunc_real_def floor_divide_of_int_eq sgn_if divide_less_0_iff)
next
  case False
  then have "\<lceil>real_of_int a / real_of_int b\<rceil> = - ((- a) div b)"
    using floor_divide_of_int_eq [of "- a" b, where 'a = real] by (simp add: ceiling_def)
  then show ?thesis using assms False by (simp add: c_quot_def trunc_real_def sgn_if divide_less_0_iff)
qed

lemma trunc_bounds: "0 \<le> x \<Longrightarrow> n \<le> trunc_real x \<longleftrightarrow> real_of_int n \<le> x"
  "x < 0 \<Longrightarrow> trunc_real x \<le> n \<longleftrightarrow> x \<le> real_of_int n"
  by (auto simp: trunc_real_def le_floor_iff ceiling_le_iff)

text \<open>
  A function on fractions that gives an integer near the fraction, on the same side of 0: \<open>to_integral\<close>
  of it is exact, since below 2 to the 52 every integer is a double and from there on every double is
  an integer.
\<close>

locale integral_rounding =
  fixes f :: "int \<Rightarrow> int \<Rightarrow> int"
  assumes of_integer: "0 < b \<Longrightarrow> f (a * b) b = a"
    and close: "0 < b \<Longrightarrow> \<bar>real_of_int (f a b) - real_of_int a / real_of_int b\<bar> \<le> 1"
    and side: "0 < b \<Longrightarrow> 0 \<le> a * f a b"
begin

lemma exact:
  assumes "is_finite d"
  shows "is_finite (to_integral f d) \<and> dval (to_integral f d) = real_of_int (f (num_of d) (int (den_mag (mag d)))) \<and>
    signbit (to_integral f d) = signbit d"
proof -
  define u where "u = mag d"
  define b where "b = int (den_mag u)"
  define R where "R = f (num_of d) b"
  have u: "u < INF_MAG" using assms by (simp add: is_finite_def u_def)
  have b: "0 < b" "real_of_int (num_of d) / real_of_int b = dval d" "\<bar>dval d\<bar> = vmag u"
    using frac_mag(2) [of u] dval_frac [of d] by (auto simp: b_def u_def dval_def vmag_def)
  have "mag_of_frac (nat \<bar>R\<bar>) 1 < INF_MAG \<and> vmag (mag_of_frac (nat \<bar>R\<bar>) 1) = \<bar>real_of_int R\<bar>"
  proof (cases "0 \<le> expo u \<and> u \<noteq> 0")
    case True
    then have "b = 1" by (simp add: b_def den_mag_def)
    then have "\<bar>real_of_int R\<bar> = vmag u" using b(2,3) of_integer [of 1 "num_of d"] by (simp add: R_def)
    then show ?thesis using exact_int [of u "nat \<bar>R\<bar>"] True u by simp
  next
    case False
    have "vmag u \<le> 2 ^ 53 / 2"
    proof (cases "u = 0")
      case False
      then have "(2 :: real) powi expo u \<le> 2 powi (-1)" using \<open>\<not> (0 \<le> expo u \<and> u \<noteq> 0)\<close> by (intro power_int_increasing) auto
      moreover have "real (mant u) \<le> real (2 ^ 53)" using mant_expo(3) [OF u] by (simp only: of_nat_le_iff)
      ultimately have "real (mant u) * 2 powi expo u \<le> real (2 ^ 53) * 2 powi (-1)" by (intro mult_mono) auto
      then show ?thesis by (simp add: vmag_def power_int_minus)
    qed simp
    then have "\<bar>real_of_int R\<bar> \<le> 2 ^ 53" using close [OF b(1), of "num_of d"] b(2,3) by (simp add: R_def)
    then have "real_of_int \<bar>R\<bar> \<le> real_of_int (2 ^ 53)" by simp
    then have "\<bar>R\<bar> \<le> 2 ^ 53" by (simp only: of_int_le_iff)
    then have "nat \<bar>R\<bar> \<le> 2 ^ 53" by simp
    from small_int_exact [OF this] show ?thesis by simp
  qed
  then have m: "mag_of_frac (nat \<bar>R\<bar>) 1 < INF_MAG" "vmag (mag_of_frac (nat \<bar>R\<bar>) 1) = \<bar>real_of_int R\<bar>" by simp_all
  have sd: "signbit d \<Longrightarrow> num_of d \<le> 0" "\<not> signbit d \<Longrightarrow> 0 \<le> num_of d" by (simp_all add: num_of_def)
  show ?thesis
  proof (cases "u = 0")
    case True
    then have "num_of d = 0" by (simp add: num_of_def u_def [symmetric] num_mag_def mant_def)
    moreover have "f 0 b = 0" using of_integer [OF b(1), of 0] by simp
    ultimately show ?thesis using True assms
      by (simp add: to_integral_def is_finite_def isnan_def isinf_def dval_def u_def b_def)
  next
    case False
    then have t: "to_integral f d = mk_double (signbit d) (mag_of_frac (nat \<bar>R\<bar>) 1)"
      using u by (simp add: to_integral_def isnan_def isinf_def u_def R_def b_def)
    have l: "mag_of_frac (nat \<bar>R\<bar>) 1 < 9223372036854775808" using m(1) by simp
    have "num_of d \<noteq> 0" using False mant_expo(6) [OF u] by (auto simp: num_of_def num_mag_def u_def)
    then have "signbit d \<Longrightarrow> R \<le> 0" "\<not> signbit d \<Longrightarrow> 0 \<le> R"
      using side [OF b(1), of "num_of d"] sd unfolding R_def by (auto simp: zero_le_mult_iff)
    then show ?thesis
      unfolding t is_finite_def dval_def mag_mk_double(1) [OF l] mag_mk_double(2) [OF l] m(2) using m(1)
      by (auto simp: R_def b_def u_def)
  qed
qed

end

lemma floor_div_eq: "0 < b \<Longrightarrow> floor_div a b = \<lfloor>real_of_int a / real_of_int b\<rfloor>"
  by (simp add: floor_div_def floor_divide_of_int_eq)

lemma ceil_div_eq: "0 < b \<Longrightarrow> ceil_div a b = \<lceil>real_of_int a / real_of_int b\<rceil>"
  using floor_divide_of_int_eq [of "- a" b, where 'a = real] by (simp add: ceil_div_def ceiling_def)

lemma round_div_eq: "0 < b \<Longrightarrow> round_div a b = sgn a * \<lfloor>\<bar>real_of_int a / real_of_int b\<bar> + 1 / 2\<rfloor>"
proof -
  assume b: "0 < b"
  have "\<bar>real_of_int a / real_of_int b\<bar> + 1 / 2 = real_of_int (2 * \<bar>a\<bar> + b) / real_of_int (2 * b)"
    using b by (simp add: abs_divide field_simps)
  then show ?thesis using floor_divide_of_int_eq [of "2 * \<bar>a\<bar> + b" "2 * b", where 'a = real] by (simp add: round_div_def)
qed

lemma round_div_dval:
  "0 < b \<Longrightarrow> x = real_of_int a / real_of_int b \<Longrightarrow> real_of_int (round_div a b) = sgn x * real_of_int \<lfloor>\<bar>x\<bar> + 1 / 2\<rfloor>"
  using round_div_eq [of b a] by (auto simp: sgn_if divide_less_0_iff zero_less_divide_iff)

interpretation floors: integral_rounding floor_div
proof
  fix a b :: int assume "0 < b"
  then show "floor_div (a * b) b = a" by (simp add: floor_div_def)
  show "\<bar>real_of_int (floor_div a b) - real_of_int a / real_of_int b\<bar> \<le> 1" unfolding floor_div_eq [OF \<open>0 < b\<close>] by linarith
  show "0 \<le> a * floor_div a b" using \<open>0 < b\<close> pos_imp_zdiv_neg_iff [of b a]
    by (cases "a < 0") (auto simp: floor_div_def zero_le_mult_iff pos_imp_zdiv_nonneg_iff)
qed

interpretation ceils: integral_rounding ceil_div
proof
  fix a b :: int assume "0 < b"
  then show "ceil_div (a * b) b = a" by (simp add: ceil_div_def flip: mult_minus_left)
  show "\<bar>real_of_int (ceil_div a b) - real_of_int a / real_of_int b\<bar> \<le> 1" unfolding ceil_div_eq [OF \<open>0 < b\<close>] by linarith
  show "0 \<le> a * ceil_div a b" using \<open>0 < b\<close> pos_imp_zdiv_neg_iff [of b "- a"]
    by (cases "0 < a") (auto simp: ceil_div_def mult_le_0_iff pos_imp_zdiv_nonneg_iff)
qed

interpretation rounds: integral_rounding round_div
proof
  fix a b :: int assume b: "0 < b"
  have "(2 * \<bar>a * b\<bar> + b) div (2 * b) = \<bar>a\<bar>"
  proof -
    have "2 * \<bar>a * b\<bar> + b = b + \<bar>a\<bar> * (2 * b)" using b by (simp add: abs_mult)
    then show ?thesis using b by (simp only: div_mult_self1) (simp add: div_pos_pos_trivial)
  qed
  then show "round_div (a * b) b = a" using b by (simp add: round_div_def sgn_mult sgn_mult_abs)
  show "0 \<le> a * round_div a b" using b by (simp add: round_div_def abs_sgn [symmetric] mult.assoc [symmetric] pos_imp_zdiv_nonneg_iff)
  have "\<bar>sgn x * real_of_int \<lfloor>\<bar>x\<bar> + 1 / 2\<rfloor> - x\<bar> \<le> 1" for x :: real
    by (cases "x < 0"; cases "x = 0") (simp_all add: sgn_if, linarith+)
  then show "\<bar>real_of_int (round_div a b) - real_of_int a / real_of_int b\<bar> \<le> 1"
    unfolding round_div_dval [OF b refl] .
qed

lemma den_pos: "0 < int (den_mag u)"
  using frac_mag(2) [of u] by simp

end
