(* ===== verification/Kod_Test.thy ===== *)
theory Kod_Test
  imports Kod_Stdio Kod_Double
begin

text \<open>
  The test framework of \<open>src/stdlib/runtime.c\<close>: the calls the generated \<open>__run_tests\<close> dispatcher
  makes around every test, the report lines and the summary.

  The clock is read through the answers of \<open>Kod_OS\<close>. A duration is computed and printed as a \<open>double\<close>
  of \<open>Kod_Double\<close>. \<open>getres\<close> is the answer of \<open>clock_getres\<close>.
\<close>

section \<open>State\<close>

record tests = stdio +
  g_kod_test_failed :: int
  g_kod_test_total :: int
  g_kod_test_failures :: int
  g_kod_test_start_ns :: int
  g_kod_test_case_start_ns :: int
  g_kod_test_group_seen :: int
  res_cached :: int

record cenv =
  spill_of :: spill
  getres :: "(int \<times> int) option"

definition chk32 :: "int \<Rightarrow> int option" where
  "chk32 v = (if - 2147483648 \<le> v \<and> v \<le> 2147483647 then Some v else None)"

section \<open>Operations\<close>

definition kod_test_reset :: "'a tests_scheme \<Rightarrow> 'a tests_scheme option" where
  "kod_test_reset w = do {
     (now, w) \<leftarrow> kod_monotonic_ns w;
     let w = (if g_kod_test_start_ns w < 0 then w\<lparr>g_kod_test_start_ns := now\<rparr> else w);
     Some (w\<lparr>g_kod_test_case_start_ns := now, g_kod_test_failed := 0\<rparr>)
   }"

definition kod_test_fail :: "byte list \<Rightarrow> 'a tests_scheme \<Rightarrow> 'a tests_scheme" where
  "kod_test_fail msg w =
     (let w = w\<lparr>g_kod_test_failed := 1\<rparr>;
          w = fflush_stdout w;
          w = fwrite_stderr (bytes_of ''      '') w;
          w = fwrite_stderr msg w
      in fwrite_stderr [10] w)"

definition kod_test_module_begin :: "cenv \<Rightarrow> byte list \<Rightarrow> 'a tests_scheme \<Rightarrow> 'a tests_scheme" where
  "kod_test_module_begin E path w =
     (let w = (if g_kod_test_group_seen w \<noteq> 0 then fwrite_stdout (spill_of E) [10] w else w);
          w = w\<lparr>g_kod_test_group_seen := 1\<rparr>;
          w = fwrite_stdout (spill_of E) path w;
          w = fwrite_stdout (spill_of E) [10] w
      in fflush_stdout w)"

definition monotonic_res_ns :: "cenv \<Rightarrow> 'a tests_scheme \<Rightarrow> (int \<times> 'a tests_scheme) option" where
  "monotonic_res_ns E w =
     (if res_cached w = 0 then do {
        c \<leftarrow> (case getres E of None \<Rightarrow> Some 0 | Some (tv_sec, tv_nsec) \<Rightarrow> ns_of tv_sec tv_nsec);
        let c = (if c \<le> 0 then 1 else c);
        Some (c, w\<lparr>res_cached := c\<rparr>)
      } else Some (res_cached w, w))"

definition micro :: "byte list" where
  "micro = [206, 188, 115]"

definition duration_value :: "int \<Rightarrow> double \<times> byte list" where
  "duration_value ns =
     (if ns < 1000000 then (double_div (double_of_int ns) 1000, micro)
      else if ns < 1000000000 then (double_div (double_of_int ns) 1000000, bytes_of ''ms'')
      else (double_div (double_of_int ns) 1000000000, bytes_of ''s''))"

definition duration_prec :: "double \<Rightarrow> nat" where
  "duration_prec v = (if less_int v 10 then 2 else if less_int v 100 then 1 else 0)"

definition format_duration :: "cenv \<Rightarrow> int \<Rightarrow> nat \<Rightarrow> 'a tests_scheme \<Rightarrow> (byte list \<times> 'a tests_scheme) option" where
  "format_duration E ns out_size w =
     (if ns = 0 then do {
        (r, w) \<leftarrow> monotonic_res_ns E w;
        Some (take (out_size - 1) (bytes_of ''<'' @ snprintf_f 2 (double_div (double_of_int r) 1000) @ [32] @ micro), w)
      } else
        (let (v, unit) = duration_value ns
         in Some (take (out_size - 1) (snprintf_f (duration_prec v) v @ [32] @ unit), w)))"

definition kod_test_report :: "cenv \<Rightarrow> byte list \<Rightarrow> 'a tests_scheme \<Rightarrow> 'a tests_scheme option" where
  "kod_test_report E name w = do {
     t \<leftarrow> chk32 (g_kod_test_total w + 1);
     let w = w\<lparr>g_kod_test_total := t\<rparr>;
     w \<leftarrow> (if g_kod_test_failed w \<noteq> 0 then do {
             f \<leftarrow> chk32 (g_kod_test_failures w + 1);
             let w = w\<lparr>g_kod_test_failures := f\<rparr>;
             Some (fwrite_stdout (spill_of E) (bytes_of ''  FAIL '') w)
           } else Some (fwrite_stdout (spill_of E) (bytes_of ''  ok   '') w));
     let w = fwrite_stdout (spill_of E) name w;
     (now, w) \<leftarrow> kod_monotonic_ns w;
     ns \<leftarrow> chk64 (now - g_kod_test_case_start_ns w);
     (dur, w) \<leftarrow> format_duration E ns 32 w;
     let w = fwrite_stdout (spill_of E) (bytes_of '' ('' @ dur @ bytes_of '')'' @ [10]) w;
     Some (fflush_stdout w)
   }"

definition kod_test_summary :: "cenv \<Rightarrow> 'a tests_scheme \<Rightarrow> (int \<times> 'a tests_scheme) option" where
  "kod_test_summary E w = do {
     (elapsed_ns, w) \<leftarrow> (if g_kod_test_start_ns w \<ge> 0 then do {
         (now, w) \<leftarrow> kod_monotonic_ns w;
         e \<leftarrow> chk64 (now - g_kod_test_start_ns w);
         Some (e, w)
       } else Some (0, w));
     (dur, w) \<leftarrow> format_duration E elapsed_ns 32 w;
     p \<leftarrow> chk32 (g_kod_test_total w - g_kod_test_failures w);
     let w = fwrite_stdout (spill_of E) ([10] @ dec_int p @ bytes_of ''/'' @ dec_int (g_kod_test_total w) @
               bytes_of '' passed in '' @ dur @ [10]) w;
     Some (if g_kod_test_failures w > 0 then 1 else 0, w)
   }"

section \<open>A run of tests\<close>

text \<open>
  What a test does between its reset and its report: it prints lines, and it fails with messages.
  \<open>run_test\<close> is the sequence of calls the dispatcher makes.
\<close>

datatype act = Print "byte list" | Fail_With "byte list"

fun do_act :: "cenv \<Rightarrow> act \<Rightarrow> 'a tests_scheme \<Rightarrow> 'a tests_scheme" where
  "do_act E (Print s) w = snd (kod_puts (spill_of E) s w)"
| "do_act E (Fail_With m) w = kod_test_fail m w"

fun run_test :: "cenv \<Rightarrow> byte list \<times> act list \<Rightarrow> 'a tests_scheme \<Rightarrow> 'a tests_scheme option" where
  "run_test E (name, acts) w = do {
     w \<leftarrow> kod_test_reset w;
     kod_test_report E name (fold (do_act E) acts w)
   }"

fun act_text :: "act \<Rightarrow> byte list" where
  "act_text (Print s) = s @ [10]"
| "act_text (Fail_With m) = bytes_of ''      '' @ m @ [10]"

fun is_fail :: "act \<Rightarrow> bool" where
  "is_fail (Print s) \<longleftrightarrow> False"
| "is_fail (Fail_With m) \<longleftrightarrow> True"

definition failing :: "byte list \<times> act list \<Rightarrow> bool" where
  "failing t \<longleftrightarrow> list_ex is_fail (snd t)"

text \<open>The text a test leaves, with the text of its duration.\<close>

definition test_text :: "byte list \<times> act list \<Rightarrow> byte list \<Rightarrow> byte list" where
  "test_text t dur = concat (map act_text (snd t)) @
     (if failing t then bytes_of ''  FAIL '' else bytes_of ''  ok   '') @ fst t @
     bytes_of '' ('' @ dur @ bytes_of '')'' @ [10]"

definition clock_answer :: "int \<Rightarrow> answer" where
  "clock_answer t = Pair (t div 1000000000) (t mod 1000000000)"

definition clock_ok :: "int \<Rightarrow> bool" where
  "clock_ok t \<longleftrightarrow> 0 \<le> t \<and> t \<le> INT64_MAX"

definition getres_ok :: "cenv \<Rightarrow> bool" where
  "getres_ok E \<longleftrightarrow> (case getres E of None \<Rightarrow> True | Some (s, n) \<Rightarrow> ns_of s n \<noteq> None)"

text \<open>What the stream primitives leave alone.\<close>

named_theorems kept_simps \<open>fields that stream operations do not touch\<close>

lemma fflush_keeps [kept_simps]:
  "answers (fflush_stdout w) = answers w" "g_kod_test_failed (fflush_stdout w) = g_kod_test_failed w"
  "g_kod_test_total (fflush_stdout w) = g_kod_test_total w" "g_kod_test_failures (fflush_stdout w) = g_kod_test_failures w"
  "g_kod_test_start_ns (fflush_stdout w) = g_kod_test_start_ns w"
  "g_kod_test_case_start_ns (fflush_stdout w) = g_kod_test_case_start_ns w"
  "g_kod_test_group_seen (fflush_stdout w) = g_kod_test_group_seen w" "res_cached (fflush_stdout w) = res_cached w"
  by (simp_all add: fflush_stdout_def emit_out_def split: target.splits)

lemma fwrite_stdout_keeps [kept_simps]:
  "answers (fwrite_stdout sp b w) = answers w" "g_kod_test_failed (fwrite_stdout sp b w) = g_kod_test_failed w"
  "g_kod_test_total (fwrite_stdout sp b w) = g_kod_test_total w" "g_kod_test_failures (fwrite_stdout sp b w) = g_kod_test_failures w"
  "g_kod_test_start_ns (fwrite_stdout sp b w) = g_kod_test_start_ns w"
  "g_kod_test_case_start_ns (fwrite_stdout sp b w) = g_kod_test_case_start_ns w"
  "g_kod_test_group_seen (fwrite_stdout sp b w) = g_kod_test_group_seen w" "res_cached (fwrite_stdout sp b w) = res_cached w"
  by (simp_all add: fwrite_stdout_def emit_out_def Let_def split: target.splits)

lemma fwrite_stderr_keeps [kept_simps]:
  "answers (fwrite_stderr b w) = answers w" "g_kod_test_failed (fwrite_stderr b w) = g_kod_test_failed w"
  "g_kod_test_total (fwrite_stderr b w) = g_kod_test_total w" "g_kod_test_failures (fwrite_stderr b w) = g_kod_test_failures w"
  "g_kod_test_start_ns (fwrite_stderr b w) = g_kod_test_start_ns w"
  "g_kod_test_case_start_ns (fwrite_stderr b w) = g_kod_test_case_start_ns w"
  "g_kod_test_group_seen (fwrite_stderr b w) = g_kod_test_group_seen w" "res_cached (fwrite_stderr b w) = res_cached w"
  by (simp_all add: fwrite_stderr_def)

lemma printed_updates [kept_simps]:
  "printed (w\<lparr>g_kod_test_failed := v\<rparr>) = printed w" "printed (w\<lparr>g_kod_test_total := v\<rparr>) = printed w"
  "printed (w\<lparr>g_kod_test_failures := v\<rparr>) = printed w" "printed (w\<lparr>g_kod_test_start_ns := v\<rparr>) = printed w"
  "printed (w\<lparr>g_kod_test_case_start_ns := v\<rparr>) = printed w" "printed (w\<lparr>g_kod_test_group_seen := v\<rparr>) = printed w"
  "printed (w\<lparr>res_cached := v\<rparr>) = printed w" "printed (w\<lparr>answers := as, issued := is\<rparr>) = printed w"
  by (simp_all add: printed_def)

lemma clock_reads:
  assumes "answers w = clock_answer t # as" and "clock_ok t"
  shows "kod_monotonic_ns w = Some (t, w\<lparr>answers := as, issued := issued w @ [Clock_Gettime CLOCK_MONOTONIC_RAW]\<rparr>)"
proof -
  have "in64 t" using assms(2) by (simp add: clock_ok_def range_simps)
  moreover have "in64 (t div 1000000000 * 1000000000)"
  proof -
    have "t div 1000000000 * 1000000000 \<le> t" "0 \<le> t div 1000000000 * 1000000000"
      using assms(2) by (simp_all add: clock_ok_def pos_imp_zdiv_nonneg_iff)
    then show ?thesis using assms(2) by (simp add: clock_ok_def range_simps)
  qed
  ultimately have "ns_of (t div 1000000000) (t mod 1000000000) = Some t"
    by (simp add: ns_of_def div_mult_mod_eq)
  then show ?thesis
    using call_eq [OF assms(1) [unfolded clock_answer_def]] by (simp add: kod_monotonic_ns_def read_clock_def)
qed

text \<open>The text of a duration, without the cache of the clock's resolution.\<close>

definition res_of :: "cenv \<Rightarrow> int" where
  "res_of E = (let c = (case getres E of None \<Rightarrow> 0 | Some (s, n) \<Rightarrow> s * 1000000000 + n) in if c \<le> 0 then 1 else c)"

definition dur_text :: "cenv \<Rightarrow> int \<Rightarrow> byte list" where
  "dur_text E ns =
     (if ns = 0 then take 31 (bytes_of ''<'' @ snprintf_f 2 (double_div (double_of_int (res_of E)) 1000) @ [32] @ micro)
      else let (v, unit) = duration_value ns in take 31 (snprintf_f (duration_prec v) v @ [32] @ unit))"

definition res_ok :: "cenv \<Rightarrow> 'a tests_scheme \<Rightarrow> bool" where
  "res_ok E w \<longleftrightarrow> res_cached w = 0 \<or> res_cached w = res_of E"

lemma format_duration_text:
  assumes "getres_ok E" and "res_ok E w"
  shows "\<exists>c. format_duration E ns 32 w = Some (dur_text E ns, w\<lparr>res_cached := c\<rparr>) \<and> (c = 0 \<or> c = res_of E)"
proof (cases "ns = 0")
  case True
  have r: "\<exists>c. monotonic_res_ns E w = Some (res_of E, w\<lparr>res_cached := c\<rparr>) \<and> (c = 0 \<or> c = res_of E)"
  proof (cases "res_cached w = 0")
    case True
    have "(case getres E of None \<Rightarrow> Some 0 | Some (s, n) \<Rightarrow> ns_of s n) =
        Some (case getres E of None \<Rightarrow> 0 | Some (s, n) \<Rightarrow> s * 1000000000 + n)"
      using assms(1) by (cases "getres E") (auto simp: getres_ok_def ns_of_def split: Option.bind_splits if_splits)
    with True show ?thesis
      by (intro exI [of _ "res_of E"]) (simp add: monotonic_res_ns_def res_of_def Let_def)
  next
    case False
    then have "res_cached w = res_of E" using assms(2) by (simp add: res_ok_def)
    then show ?thesis using False by (intro exI [of _ "res_of E"]) (simp add: monotonic_res_ns_def)
  qed
  then show ?thesis using True by (auto simp: format_duration_def dur_text_def)
next
  case False
  then show ?thesis
    using assms(2)
    by (intro exI [of _ "res_cached w"]) (simp add: format_duration_def dur_text_def Let_def res_ok_def split: prod.split)
qed

lemma acts_run:
  fixes E :: cenv and acts :: "act list" and w :: "'a tests_scheme"
  assumes "out_to w = Shared"
  defines "w' \<equiv> fold (do_act E) acts w"
  shows "out_to w' = Shared \<and> printed w' = printed w @ concat (map act_text acts) \<and>
    g_kod_test_failed w' = (if list_ex is_fail acts then 1 else g_kod_test_failed w) \<and>
    answers w' = answers w \<and> g_kod_test_total w' = g_kod_test_total w \<and>
    g_kod_test_failures w' = g_kod_test_failures w \<and> g_kod_test_start_ns w' = g_kod_test_start_ns w \<and>
    g_kod_test_case_start_ns w' = g_kod_test_case_start_ns w \<and> res_cached w' = res_cached w"
  unfolding w'_def
  using assms(1)
proof (induction acts arbitrary: w)
  case (Cons a acts)
  have "out_to (do_act E a w) = Shared \<and> printed (do_act E a w) = printed w @ act_text a \<and>
    g_kod_test_failed (do_act E a w) = (if is_fail a then 1 else g_kod_test_failed w) \<and>
    answers (do_act E a w) = answers w \<and> g_kod_test_total (do_act E a w) = g_kod_test_total w \<and>
    g_kod_test_failures (do_act E a w) = g_kod_test_failures w \<and> g_kod_test_start_ns (do_act E a w) = g_kod_test_start_ns w \<and>
    g_kod_test_case_start_ns (do_act E a w) = g_kod_test_case_start_ns w \<and> res_cached (do_act E a w) = res_cached w"
    using Cons.prems fflush_shared [of "w\<lparr>g_kod_test_failed := 1\<rparr>"]
    by (cases a) (simp_all add: kod_puts_def kod_test_fail_def Let_def stream_simps kept_simps)
  with Cons.IH [of "do_act E a w"] show ?case by simp
qed simp

text \<open>The state between tests, with the counters and everything printed so far.\<close>

definition between :: "cenv \<Rightarrow> 'a tests_scheme \<Rightarrow> int \<Rightarrow> int \<Rightarrow> byte list \<Rightarrow> bool" where
  "between E w n f pre \<longleftrightarrow> out_to w = Shared \<and> out_buf w = [] \<and> printed w = pre \<and> res_ok E w \<and>
     g_kod_test_total w = n \<and> g_kod_test_failures w = f"

lemma reset_run:
  assumes "answers w = clock_answer t # as" and "clock_ok t"
  shows "\<exists>w'. kod_test_reset w = Some w' \<and> answers w' = as \<and> printed w' = printed w \<and> out_to w' = out_to w \<and>
    g_kod_test_failed w' = 0 \<and> g_kod_test_case_start_ns w' = t \<and> g_kod_test_total w' = g_kod_test_total w \<and>
    g_kod_test_failures w' = g_kod_test_failures w \<and> res_cached w' = res_cached w \<and>
    g_kod_test_start_ns w' = (if g_kod_test_start_ns w < 0 then t else g_kod_test_start_ns w)"
  using clock_reads [OF assms] by (simp add: kod_test_reset_def kept_simps)

lemma report_run:
  assumes "out_to w = Shared" and "answers w = clock_answer e # as" and "clock_ok e" and "getres_ok E" and "res_ok E w"
    and "clock_ok (g_kod_test_case_start_ns w)" and "0 \<le> g_kod_test_failures w"
    and "g_kod_test_failures w \<le> g_kod_test_total w" and "g_kod_test_total w < 2147483647"
  shows "\<exists>w'. kod_test_report E name w = Some w' \<and> answers w' = as \<and>
    between E w' (g_kod_test_total w + 1) (g_kod_test_failures w + (if g_kod_test_failed w \<noteq> 0 then 1 else 0))
      (printed w @ (if g_kod_test_failed w \<noteq> 0 then bytes_of ''  FAIL '' else bytes_of ''  ok   '') @ name @
       bytes_of '' ('' @ dur_text E (e - g_kod_test_case_start_ns w) @ bytes_of '')'' @ [10]) \<and>
    g_kod_test_start_ns w' = g_kod_test_start_ns w"
proof -
  let ?f = "g_kod_test_failed w \<noteq> 0"
  define w1 where "w1 = (if ?f then fwrite_stdout (spill_of E) (bytes_of ''  FAIL '')
      (w\<lparr>g_kod_test_total := g_kod_test_total w + 1, g_kod_test_failures := g_kod_test_failures w + 1\<rparr>)
    else fwrite_stdout (spill_of E) (bytes_of ''  ok   '') (w\<lparr>g_kod_test_total := g_kod_test_total w + 1\<rparr>))"
  define w2 where "w2 = fwrite_stdout (spill_of E) name w1"
  define w3 where "w3 = w2\<lparr>answers := as, issued := issued w2 @ [Clock_Gettime CLOCK_MONOTONIC_RAW]\<rparr>"
  have w1: "out_to w1 = Shared" "printed w1 = printed w @ (if ?f then bytes_of ''  FAIL '' else bytes_of ''  ok   '')"
    using assms(1) fwrite_stdout_shared [of "w\<lparr>g_kod_test_total := g_kod_test_total w + 1,
        g_kod_test_failures := g_kod_test_failures w + 1\<rparr>" "spill_of E" "bytes_of ''  FAIL ''"]
      fwrite_stdout_shared [of "w\<lparr>g_kod_test_total := g_kod_test_total w + 1\<rparr>" "spill_of E" "bytes_of ''  ok   ''"]
    by (simp_all add: w1_def kept_simps)
  have w2: "out_to w2 = Shared" "printed w2 = printed w1 @ name" "answers w2 = clock_answer e # as"
    using w1(1) assms(2) by (simp_all add: w2_def stream_simps kept_simps w1_def)
  have cs: "g_kod_test_case_start_ns w2 = g_kod_test_case_start_ns w" "res_cached w2 = res_cached w"
    "g_kod_test_start_ns w2 = g_kod_test_start_ns w" "g_kod_test_total w2 = g_kod_test_total w + 1"
    "g_kod_test_failures w2 = g_kod_test_failures w + (if ?f then 1 else 0)"
    by (simp_all add: w2_def w1_def kept_simps)
  let ?ns = "e - g_kod_test_case_start_ns w"
  have ns: "in64 ?ns" using assms(3,6) by (auto simp: clock_ok_def range_simps)
  have "res_ok E w3" using assms(5) cs(2) by (simp add: w3_def res_ok_def)
  then obtain c where c: "format_duration E ?ns 32 w3 = Some (dur_text E ?ns, w3\<lparr>res_cached := c\<rparr>)" "c = 0 \<or> c = res_of E"
    using format_duration_text [OF assms(4)] by blast
  let ?line = "bytes_of '' ('' @ dur_text E ?ns @ bytes_of '')'' @ [10]"
  define w4 where "w4 = fwrite_stdout (spill_of E) ?line (w3\<lparr>res_cached := c\<rparr>)"
  have w4: "out_to w4 = Shared" "printed w4 = printed w2 @ ?line"
    using w2(1) fwrite_stdout_shared [of "w3\<lparr>res_cached := c\<rparr>" "spill_of E" ?line]
    by (simp_all add: w4_def w3_def kept_simps)
  have "chk32 (g_kod_test_total w + 1) = Some (g_kod_test_total w + 1)"
    "chk32 (g_kod_test_failures w + 1) = Some (g_kod_test_failures w + 1)"
    using assms(7-9) by (simp_all add: chk32_def)
  then have "kod_test_report E name w = do {
      (now, w) \<leftarrow> kod_monotonic_ns w2;
      ns \<leftarrow> chk64 (now - g_kod_test_case_start_ns w);
      (dur, w) \<leftarrow> format_duration E ns 32 w;
      Some (fflush_stdout (fwrite_stdout (spill_of E) (bytes_of '' ('' @ dur @ bytes_of '')'' @ [10]) w))
    }"
    unfolding kod_test_report_def Let_def w2_def w1_def by simp
  also have "\<dots> = Some (fflush_stdout w4)"
    using clock_reads [OF w2(3) assms(3)] ns c(1) cs(1) by (simp add: w3_def [symmetric] w4_def) (simp add: w3_def)
  finally have "kod_test_report E name w = Some (fflush_stdout w4)" .
  moreover have "between E (fflush_stdout w4) (g_kod_test_total w + 1) (g_kod_test_failures w + (if ?f then 1 else 0))
      (printed w @ (if ?f then bytes_of ''  FAIL '' else bytes_of ''  ok   '') @ name @ ?line)"
    using fflush_shared [OF w4(1)] w4(2) w2(2) w1(2) c(2) cs
    by (simp add: between_def res_ok_def kept_simps w4_def w3_def)
  moreover have "answers (fflush_stdout w4) = as" "g_kod_test_start_ns (fflush_stdout w4) = g_kod_test_start_ns w"
    using cs by (simp_all add: kept_simps w4_def w3_def)
  ultimately show ?thesis by blast
qed

lemma run_test_spec:
  assumes "between E w n f pre" and "answers w = clock_answer s # clock_answer e # as" and "clock_ok s" and "clock_ok e"
    and "getres_ok E" and "0 \<le> f" and "f \<le> n" and "n < 2147483647"
  shows "\<exists>w'. run_test E t w = Some w' \<and> answers w' = as \<and>
    between E w' (n + 1) (f + (if failing t then 1 else 0)) (pre @ test_text t (dur_text E (e - s))) \<and>
    g_kod_test_start_ns w' = (if g_kod_test_start_ns w < 0 then s else g_kod_test_start_ns w)"
proof -
  obtain name acts where t: "t = (name, acts)" by fastforce
  obtain w1 where w1: "kod_test_reset w = Some w1" "answers w1 = clock_answer e # as" "printed w1 = pre" "out_to w1 = Shared"
    "g_kod_test_failed w1 = 0" "g_kod_test_case_start_ns w1 = s" "g_kod_test_total w1 = n" "g_kod_test_failures w1 = f"
    "res_cached w1 = res_cached w" "g_kod_test_start_ns w1 = (if g_kod_test_start_ns w < 0 then s else g_kod_test_start_ns w)"
    using reset_run [OF assms(2,3)] assms(1) by (auto simp: between_def)
  note acts = acts_run [OF w1(4), of E acts]
  have "res_ok E (fold (do_act E) acts w1)" using acts w1(9) assms(1) by (simp add: between_def res_ok_def)
  with report_run [of "fold (do_act E) acts w1" e as E name] acts w1 assms(3-8) t show ?thesis
    by (auto simp: failing_def test_text_def)
qed

definition clock_script :: "(int \<times> int) list \<Rightarrow> answer list" where
  "clock_script ticks = concat (map (\<lambda>(s, e). [clock_answer s, clock_answer e]) ticks)"

definition ticks_ok :: "(int \<times> int) list \<Rightarrow> bool" where
  "ticks_ok ticks \<longleftrightarrow> list_all (\<lambda>(s, e). clock_ok s \<and> clock_ok e) ticks"

definition run_text :: "cenv \<Rightarrow> (byte list \<times> act list) list \<Rightarrow> (int \<times> int) list \<Rightarrow> byte list" where
  "run_text E ts ticks = concat (map (\<lambda>(t, s, e). test_text t (dur_text E (e - s))) (zip ts ticks))"

lemma run_tests_spec:
  assumes "between E w n f pre" and "answers w = clock_script ticks @ as" and "ticks_ok ticks"
    and "length ticks = length ts" and "getres_ok E" and "0 \<le> f" and "f \<le> n" and "n + int (length ts) \<le> 2147483647"
  shows "\<exists>w'. run_ops (run_test E) ts w = Some w' \<and> answers w' = as \<and>
    between E w' (n + int (length ts)) (f + int (length (filter failing ts))) (pre @ run_text E ts ticks) \<and>
    g_kod_test_start_ns w' = (if g_kod_test_start_ns w < 0 \<and> ticks \<noteq> [] then fst (hd ticks) else g_kod_test_start_ns w)"
  using assms
proof (induction ts arbitrary: w n f pre ticks)
  case Nil
  then show ?case by (simp add: run_text_def clock_script_def)
next
  case (Cons t ts)
  obtain s e ticks' where ticks: "ticks = (s, e) # ticks'" using Cons.prems(4) by (cases ticks) auto
  obtain w1 where w1: "run_test E t w = Some w1" "answers w1 = clock_script ticks' @ as"
    "between E w1 (n + 1) (f + (if failing t then 1 else 0)) (pre @ test_text t (dur_text E (e - s)))"
    "g_kod_test_start_ns w1 = (if g_kod_test_start_ns w < 0 then s else g_kod_test_start_ns w)"
    using run_test_spec [OF Cons.prems(1), of s e "clock_script ticks' @ as" t] Cons.prems(2-8) ticks
    by (auto simp: clock_script_def ticks_ok_def)
  have s: "0 \<le> s" using Cons.prems(3) ticks by (simp add: ticks_ok_def clock_ok_def)
  obtain w' where "run_ops (run_test E) ts w1 = Some w'" "answers w' = as"
    "between E w' (n + 1 + int (length ts)) (f + (if failing t then 1 else 0) + int (length (filter failing ts)))
      ((pre @ test_text t (dur_text E (e - s))) @ run_text E ts ticks')"
    "g_kod_test_start_ns w' = (if g_kod_test_start_ns w1 < 0 \<and> ticks' \<noteq> [] then fst (hd ticks') else g_kod_test_start_ns w1)"
  proof -
    have "f + (if failing t then 1 else 0) \<le> n + 1" using Cons.prems(7) by simp
    with Cons.IH [OF w1(3,2)] Cons.prems(3-8) ticks that show thesis by (simp add: ticks_ok_def) blast
  qed
  with w1 ticks s show ?case by (auto simp: run_text_def algebra_simps)
qed

lemma summary_run:
  assumes "between E w n f pre" and "answers w = clock_answer e # as" and "clock_ok e" and "getres_ok E"
    and "0 \<le> f" and "f \<le> n" and "n \<le> 2147483647" and "clock_ok (g_kod_test_start_ns w)"
  shows "\<exists>w'. kod_test_summary E w = Some (if f > 0 then 1 else 0, w') \<and>
    printed w' = pre @ [10] @ dec_int (n - f) @ bytes_of ''/'' @ dec_int n @ bytes_of '' passed in '' @
      dur_text E (e - g_kod_test_start_ns w) @ [10]"
proof -
  define w1 where "w1 = w\<lparr>answers := as, issued := issued w @ [Clock_Gettime CLOCK_MONOTONIC_RAW]\<rparr>"
  let ?ns = "e - g_kod_test_start_ns w"
  have b: "out_to w = Shared" "printed w = pre" "g_kod_test_total w = n" "g_kod_test_failures w = f" "res_ok E w"
    using assms(1) by (simp_all add: between_def)
  have ns: "in64 ?ns" "0 \<le> g_kod_test_start_ns w" using assms(3,8) by (auto simp: clock_ok_def range_simps)
  have "res_ok E w1" using b(5) by (simp add: w1_def res_ok_def)
  then obtain c where c: "format_duration E ?ns 32 w1 = Some (dur_text E ?ns, w1\<lparr>res_cached := c\<rparr>)"
    using format_duration_text [OF assms(4)] by blast
  define w2 where "w2 = fwrite_stdout (spill_of E) ([10] @ dec_int (n - f) @ bytes_of ''/'' @ dec_int n @
      bytes_of '' passed in '' @ dur_text E ?ns @ [10]) (w1\<lparr>res_cached := c\<rparr>)"
  have "chk32 (n - f) = Some (n - f)" using assms(5-7) by (simp add: chk32_def)
  then have "kod_test_summary E w = Some (if f > 0 then 1 else 0, w2)"
    using clock_reads [OF assms(2,3)] ns c b(3,4)
    by (simp add: kod_test_summary_def w1_def [symmetric] w2_def kept_simps) (simp add: w1_def)
  moreover have "printed w2 = pre @ [10] @ dec_int (n - f) @ bytes_of ''/'' @ dec_int n @ bytes_of '' passed in '' @
      dur_text E ?ns @ [10]"
    using fwrite_stdout_shared [of "w1\<lparr>res_cached := c\<rparr>" "spill_of E"] b(1,2)
    by (simp add: w2_def w1_def kept_simps)
  ultimately show ?thesis by blast
qed

definition fresh_tests :: "answer list \<Rightarrow> tests" where
  "fresh_tests as = \<lparr>answers = as, issued = [], g_io_errno = 0, environ = (\<lambda>_. None), out_buf = [], out_to = Shared,
     sink = [], files = (\<lambda>_. None), exit_status = None, g_kod_test_failed = 0, g_kod_test_total = 0,
     g_kod_test_failures = 0, g_kod_test_start_ns = -1, g_kod_test_case_start_ns = -1, g_kod_test_group_seen = 0,
     res_cached = 0\<rparr>"

lemma fresh_between: "between E (fresh_tests as) 0 0 []"
  by (simp add: between_def fresh_tests_def printed_def res_ok_def)

lemma fresh_fields: "answers (fresh_tests as) = as" "g_kod_test_start_ns (fresh_tests as) = -1"
  by (simp_all add: fresh_tests_def)

section \<open>The figures of a duration\<close>

text \<open>From 1 \<open>\<mu>s\<close> up to 1000 s the nanoseconds are a double, and dividing them rounds once.\<close>

lemma duration_quotient:
  assumes "0 < d" and "d \<le> n" and "n < 1000 * d" and "n \<le> 2 ^ 53"
  defines "v \<equiv> double_div (double_of_int (int n)) d"
  shows "mag v < INF_MAG" "\<not> signbit v" "\<bar>vmag (mag v) - real n / real d\<bar> \<le> 1 / 10 ^ 12"
proof -
  define u where "u = mag_of_frac n 1"
  have u: "u < INF_MAG" "vmag u = real n" using small_int_exact [OF assms(4)] by (simp_all add: u_def)
  have v: "v = mk_double False (mag_of_frac (num_mag u) (den_mag u * d))"
    using u(1) by (simp add: v_def double_div_def double_of_int_def u_def)
  have q: "real (num_mag u) / real (den_mag u * d) = real n / real d"
    using frac_mag(1) [of u] u(2) by (simp flip: divide_divide_eq_left)
  have "real n / real d < 1000" "1 \<le> real n / real d" using assms(1-3) of_nat_less_iff [of n "1000 * d", where 'a = real]
    by (simp_all add: field_simps)
  moreover from this(2) have "den_mag u * d \<le> num_mag u"
    unfolding q [symmetric] using assms(1) frac_mag(2) [of u] of_nat_le_iff [of "den_mag u * d" "num_mag u", where 'a = real]
    by (simp add: field_simps)
  ultimately have c: "mag_of_frac (num_mag u) (den_mag u * d) < INF_MAG"
    "\<bar>vmag (mag_of_frac (num_mag u) (den_mag u * d)) - real n / real d\<bar> \<le> 1000 / 2 ^ 53"
    using mag_of_frac_close [of "den_mag u * d" "num_mag u"] assms(1) frac_mag(2) [of u] unfolding q by fastforce+
  then show "mag v < INF_MAG" "\<not> signbit v" "\<bar>vmag (mag v) - real n / real d\<bar> \<le> 1 / 10 ^ 12"
    unfolding v by simp_all
qed

lemma less_int_real:
  assumes "mag v < INF_MAG" and "\<not> signbit v"
  shows "less_int v (int k) \<longleftrightarrow> vmag (mag v) < real k"
proof -
  have "vmag (mag v) < real k \<longleftrightarrow> real (num_mag (mag v)) < real (k * den_mag (mag v))"
    unfolding frac_mag(1) [symmetric] using frac_mag(2) [of "mag v"] by (simp add: field_simps)
  then show ?thesis using assms by (simp add: less_int_def isnan_def isinf_def num_of_def flip: of_nat_mult)
qed

text \<open>
  The shown number has three digits, or it is 1000 without its point: rounding can carry into a
  fourth digit.
\<close>

lemma shown_figures:
  assumes "0 < d" and "d \<le> n" and "n < 1000 * d" and "n \<le> 2 ^ 53"
  defines "v \<equiv> double_div (double_of_int (int n)) d"
  shows "\<exists>N. snprintf_f (duration_prec v) v = fixed_text (duration_prec v) N \<and> 100 \<le> N \<and> N \<le> 1000 \<and>
    \<bar>real N / 10 ^ duration_prec v - real n / real d\<bar> \<le> 1 / 2 / 10 ^ duration_prec v + 1 / 10 ^ 12"
proof -
  note q = duration_quotient [OF assms(1-4), folded v_def]
  define x where "x = vmag (mag v)"
  define p where "p = duration_prec v"
  define N where "N = rne (num_mag (mag v) * 10 ^ p) (den_mag (mag v))"
  have p: "p = (if x < 10 then 2 else if x < 100 then 1 else 0)"
    using less_int_real [OF q(1,2), of 10] less_int_real [OF q(1,2), of 100] by (simp add: p_def duration_prec_def x_def)
  have "real (num_mag (mag v) * 10 ^ p) / real (den_mag (mag v)) = x * 10 ^ p"
    using frac_mag(1) [of "mag v"] by (simp add: x_def flip: times_divide_eq_left)
  then have N: "\<bar>real N - x * 10 ^ p\<bar> \<le> 1 / 2"
    using rne_near [OF frac_mag(2), of "num_mag (mag v) * 10 ^ p" "mag v"] by (simp only: N_def)
  have r: "real n / real d < 1000" "1 \<le> real n / real d"
    using assms(1-3) of_nat_less_iff [of n "1000 * d", where 'a = real] by (simp_all add: field_simps)
  have x: "\<bar>x - real n / real d\<bar> \<le> 1 / 10 ^ 12" using q(3) by (simp add: x_def)
  have "\<bar>real N / 10 ^ p - x\<bar> \<le> 1 / 2 / 10 ^ p" using N by (simp add: field_simps abs_le_iff)
  then have "\<bar>real N / 10 ^ p - real n / real d\<bar> \<le> 1 / 2 / 10 ^ p + 1 / 10 ^ 12" using x by linarith
  moreover have "1 - 1 / 10 ^ 12 \<le> x" "x \<le> 1000 + 1 / 10 ^ 12" using x r by linarith+
  then have "99 < y \<and> y < 1001" if "\<bar>y - x * 10 ^ p\<bar> \<le> 1 / 2" for y
    using that unfolding p by (cases "x < 10"; cases "x < 100"; auto simp: abs_if split: if_splits)
  from this [OF N] have "100 \<le> N \<and> N \<le> 1000" by simp
  ultimately have "100 \<le> N \<and> N \<le> 1000 \<and> \<bar>real N / 10 ^ p - real n / real d\<bar> \<le> 1 / 2 / 10 ^ p + 1 / 10 ^ 12" by blast
  then show ?thesis using q(2) by (intro exI [of _ N]) (simp add: snprintf_f_def p_def N_def)
qed

lemma fixed_text_short: "N \<le> 1000 \<Longrightarrow> p \<le> 2 \<Longrightarrow> length (fixed_text p N) \<le> 10"
proof -
  assume a: "N \<le> 1000" "p \<le> 2"
  have s: "length (dec_nat k) \<le> 4" if "k \<le> 1000" for k
    using that dec_nat_short [of k] dec_nat_length [of 3 k] by (cases "k < 1000") auto
  have "N div 10 ^ p \<le> 1000" using a(1) div_le_dividend le_trans by blast
  moreover have "N mod 10 ^ p \<le> 1000" using a(1) mod_less_eq_dividend le_trans by blast
  ultimately show ?thesis using s [of "N div 10 ^ p"] s [of "N mod 10 ^ p"] a(2)
    by (auto simp: fixed_text_def Let_def)
qed

lemma format_duration_figures:
  assumes "1000 \<le> ns" and "ns < 1000000000000"
  shows "\<exists>p N d unit. format_duration E ns 32 w = Some (fixed_text p N @ [32] @ unit, w) \<and> p \<le> 2 \<and> 100 \<le> N \<and> N \<le> 1000 \<and>
    (d, unit) \<in> {(1000, micro), (1000000, bytes_of ''ms''), (1000000000, bytes_of ''s'')} \<and>
    \<bar>real N / 10 ^ p - real_of_int ns / d\<bar> \<le> 1 / 2 / 10 ^ p + 1 / 10 ^ 12"
proof -
  define n where "n = nat ns"
  have n: "ns = int n" "1000 \<le> n" "n < 1000000000000" using assms by (simp_all add: n_def)
  obtain d unit where d: "duration_value ns = (double_div (double_of_int (int n)) d, unit)" "0 < d" "d \<le> n" "n < 1000 * d"
    "(d, unit) \<in> {(1000, micro), (1000000, bytes_of ''ms''), (1000000000, bytes_of ''s'')}"
  proof (cases "n < 1000000")
    case True
    then show thesis using that [of 1000 micro] n by (simp add: duration_value_def)
  next
    case False
    then show thesis using that [of 1000000 "bytes_of ''ms''"] that [of 1000000000 "bytes_of ''s''"] n
      by (cases "n < 1000000000") (simp_all add: duration_value_def)
  qed
  define v where "v = double_div (double_of_int (int n)) d"
  obtain N where N: "snprintf_f (duration_prec v) v = fixed_text (duration_prec v) N" "100 \<le> N" "N \<le> 1000"
    "\<bar>real N / 10 ^ duration_prec v - real n / real d\<bar> \<le> 1 / 2 / 10 ^ duration_prec v + 1 / 10 ^ 12"
    using shown_figures [OF d(2-4)] n(3) by (auto simp: v_def)
  have p: "duration_prec v \<le> 2" by (simp add: duration_prec_def)
  have "length unit \<le> 3" using d(5) by (auto simp: micro_def bytes_of_def)
  then have "format_duration E ns 32 w = Some (fixed_text (duration_prec v) N @ [32] @ unit, w)"
    using fixed_text_short [OF N(3) p] N(1) d(1) n by (simp add: format_duration_def v_def [symmetric])
  then show ?thesis using N p d(5) n(1)
    by (intro exI [of _ "duration_prec v"] exI [of _ N] exI [of _ "real d"] exI [of _ unit]) auto
qed

text \<open>So 9.999 \<open>\<mu>s\<close> is shown with four figures, not the three the source promises.\<close>

lemma format_duration_four_figures:
  "format_duration E 9999 32 w = Some (bytes_of ''10.00 '' @ micro, w)"
proof -
  define v where "v = double_div (double_of_int (int 9999)) 1000"
  have q: "mag v < INF_MAG" "\<not> signbit v" "\<bar>vmag (mag v) - 9999 / 1000\<bar> \<le> 1 / 10 ^ 12"
    using duration_quotient [of 1000 9999, folded v_def] by simp_all
  then have "vmag (mag v) < 10" by (simp add: abs_if split: if_splits)
  then have p: "duration_prec v = 2" using less_int_real [OF q(1,2), of 10] by (simp add: duration_prec_def)
  then obtain N where N: "snprintf_f 2 v = fixed_text 2 N" "N \<le> 1000" "\<bar>real N / 10 ^ 2 - 9999 / 1000\<bar> \<le> 1 / 2 / 10 ^ 2 + 1 / 10 ^ 12"
    using shown_figures [of 1000 9999, folded v_def] by auto
  have "999 < y" if "\<bar>y / 10 ^ 2 - 9999 / 1000\<bar> \<le> 1 / 2 / 10 ^ 2 + 1 / 10 ^ 12" for y :: real
    using that by (simp add: abs_if split: if_splits)
  from this [OF N(3)] have "999 < real N" .
  then have "N = 1000" using N(2) by simp
  then have "snprintf_f 2 v = bytes_of ''10.00''"
    using N(1) by (simp add: fixed_text_def bytes_of_def dec_nat_step dec_nat_digit)
  then show ?thesis using p
    by (simp add: format_duration_def duration_value_def v_def micro_def bytes_of_def)
qed

section \<open>Properties\<close>

text \<open>
  However the C library buffers standard output, a run of tests leaves its text in program
  order: for each test what it printed and its failure messages, then its \<open>ok\<close> or \<open>FAIL\<close> line
  with its duration, and nothing is left unwritten after a report. The counters count the tests
  and the failed ones, a test with several failures once.
\<close>

theorem test_run_in_order:
  assumes "ticks_ok ticks" and "length ticks = length ts" and "getres_ok E" and "int (length ts) \<le> 2147483647"
  shows "\<exists>w'. run_ops (run_test E) ts (fresh_tests (clock_script ticks @ as)) = Some w' \<and> answers w' = as \<and>
    sink w' = run_text E ts ticks \<and> out_buf w' = [] \<and> g_kod_test_total w' = int (length ts) \<and>
    g_kod_test_failures w' = int (length (filter failing ts))"
  using run_tests_spec [OF fresh_between [of E "clock_script ticks @ as"], of ticks as ts] assms
  by (auto simp: fresh_fields between_def printed_def)

definition demo_cenv :: cenv where
  "demo_cenv = \<lparr>spill_of = (\<lambda>b. 3), getres = Some (0, 42)\<rparr>"

definition demo_tests :: "(byte list \<times> act list) list" where
  "demo_tests = [([97], [Print [120]]), ([98], [Fail_With [121], Fail_With [122]]), ([99], [Fail_With []])]"

lemma demo_ok: "ticks_ok [(5, 7), (8, 8), (9, 20)]" "getres_ok demo_cenv"
  by (simp_all add: ticks_ok_def clock_ok_def INT64_MAX_def getres_ok_def demo_cenv_def ns_of_def range_simps)

theorem test_run_in_order_witness:
  "\<exists>w'. run_ops (run_test demo_cenv) demo_tests (fresh_tests (clock_script [(5, 7), (8, 8), (9, 20)])) = Some w' \<and>
    g_kod_test_total w' = 3 \<and> g_kod_test_failures w' = 2 \<and>
    take 12 (sink w') = [120, 10] @ bytes_of ''  ok   a (''"
proof -
  obtain w' where w': "run_ops (run_test demo_cenv) demo_tests (fresh_tests (clock_script [(5, 7), (8, 8), (9, 20)])) = Some w'"
    "sink w' = run_text demo_cenv demo_tests [(5, 7), (8, 8), (9, 20)]" "g_kod_test_total w' = int (length demo_tests)"
    "g_kod_test_failures w' = int (length (filter failing demo_tests))"
    using test_run_in_order [OF demo_ok(1) _ demo_ok(2), of demo_tests "[]"] by (auto simp: demo_tests_def)
  have "take 12 (run_text demo_cenv demo_tests [(5, 7), (8, 8), (9, 20)]) = [120, 10] @ bytes_of ''  ok   a (''"
    by (simp add: demo_tests_def failing_def run_text_def test_text_def bytes_of_def)
  with w' show ?thesis by (auto simp: demo_tests_def failing_def)
qed

text \<open>
  The summary prints how many of the tests passed and returns 1 when any test failed and 0
  otherwise.
\<close>

theorem test_summary_status:
  assumes "ticks_ok ticks" and "length ticks = length ts" and "getres_ok E" and "int (length ts) \<le> 2147483647"
    and "ts \<noteq> []" and "clock_ok now"
  shows "\<exists>w w'. run_ops (run_test E) ts (fresh_tests (clock_script ticks @ [clock_answer now])) = Some w \<and>
    kod_test_summary E w = Some (if \<exists>t \<in> set ts. failing t then 1 else 0, w') \<and>
    printed w' = sink w @ [10] @ dec_nat (length (filter (\<lambda>t. \<not> failing t) ts)) @ bytes_of ''/'' @ dec_nat (length ts) @
      bytes_of '' passed in '' @ dur_text E (now - fst (hd ticks)) @ [10]"
proof -
  let ?n = "int (length ts)" and ?f = "int (length (filter failing ts))"
  obtain w where w: "run_ops (run_test E) ts (fresh_tests (clock_script ticks @ [clock_answer now])) = Some w"
    "answers w = [clock_answer now]" "between E w ?n ?f (run_text E ts ticks)" "g_kod_test_start_ns w = fst (hd ticks)"
    using run_tests_spec [OF fresh_between [of E "clock_script ticks @ [clock_answer now]"], of ticks "[clock_answer now]" ts] assms
    by (cases ticks) (auto simp: fresh_fields)
  have "clock_ok (fst (hd ticks))" using assms(1,2,5) by (cases ticks) (auto simp: ticks_ok_def)
  then obtain w' where w': "kod_test_summary E w = Some (if ?f > 0 then 1 else 0, w')"
    "printed w' = run_text E ts ticks @ [10] @ dec_int (?n - ?f) @ bytes_of ''/'' @ dec_int ?n @ bytes_of '' passed in '' @
      dur_text E (now - fst (hd ticks)) @ [10]"
    using summary_run [OF w(3,2) assms(6,3)] assms(4) w(4) by auto
  have "sink w = run_text E ts ticks" using w(3) by (auto simp: between_def printed_def)
  moreover have "?n - ?f = int (length (filter (\<lambda>t. \<not> failing t) ts))"
    using sum_length_filter_compl [of failing ts] by simp
  moreover have "?f > 0 \<longleftrightarrow> (\<exists>t \<in> set ts. failing t)" by (simp add: filter_empty_conv)
  ultimately show ?thesis using w(1) w' by (auto simp: dec_int_def)
qed

theorem test_summary_status_witness:
  "\<exists>w w'. run_ops (run_test demo_cenv) demo_tests (fresh_tests (clock_script [(5, 7), (8, 8), (9, 20)] @ [clock_answer 30])) = Some w \<and>
    kod_test_summary demo_cenv w = Some (1, w')"
  using test_summary_status [OF demo_ok(1) _ demo_ok(2), of demo_tests 30]
  by (auto simp: demo_tests_def failing_def clock_ok_def INT64_MAX_def)

end
