(* ===== verification/Kod_Files.thy ===== *)
theory Kod_Files
  imports Kod_Stdio
begin

text \<open>
  Whole files and standard input in \<open>src/stdlib/runtime.c\<close>: \<open>read_file\<close>, \<open>write_file\<close>,
  \<open>kod_is_file\<close>, \<open>read_stdin_line\<close>, \<open>read_stdin_exact\<close> and \<open>stdin_data_ready\<close>.

  A growing buffer is its bytes and its capacity, and a store past the capacity is \<open>None\<close>. The file
  calls count open streams and live \<open>malloc\<close> buffers, so that leaks and double frees show. Standard
  input keeps apart what the C library has read ahead (\<open>sbuf\<close>), what the kernel has for the process
  (\<open>arrived\<close>) and what will arrive later, in pieces; \<open>unread\<close> is all of it. That the arena has room
  for the scratch buffers and results is assumed here; \<open>Kod_Arena\<close> says when it has.
\<close>

section \<open>Files\<close>

record fio =
  open_files :: int
  live_bufs :: int

definition SIZE_MAX :: int where
  "SIZE_MAX = 18446744073709551615"

text \<open>
  The loop of \<open>read_file\<close>: \<open>buf\<close> is what has been read, \<open>rest\<close> what the stream still has. The result
  is the buffer (\<open>None\<close> for NULL) and whether a read came up short, at the end or an error.
\<close>

partial_function (option) read_loop ::
  "(int \<Rightarrow> bool) \<Rightarrow> byte list \<Rightarrow> int \<Rightarrow> byte list \<Rightarrow> fio \<Rightarrow> (byte list option \<times> bool \<times> fio) option" where
  "read_loop realloc_ok buf cap rest w =
     (let n = nat (cap - int (length buf));
          got = take n rest;
          short = (length got < n);
          buf = buf @ got
      in if int (length buf) < cap then Some (Some buf, short, w)
         else if cap * 2 > SIZE_MAX then None
         else if realloc_ok (cap * 2) then read_loop realloc_ok buf (cap * 2) (drop n rest) w
         else Some (None, short, w\<lparr>live_bufs := live_bufs w - 1\<rparr>))"

text \<open>\<open>fopen\<close> gives the bytes the stream will deliver and whether it then fails instead of ending.\<close>

definition read_file :: "(byte list \<Rightarrow> (byte list \<times> bool) option) \<Rightarrow> (int \<Rightarrow> bool) \<Rightarrow> byte list \<Rightarrow> fio \<Rightarrow>
    (byte list \<times> fio) option" where
  "read_file fopen alloc_ok path w =
     (case fopen (c_str path) of
        None \<Rightarrow> Some ([], w)
      | Some (content, err) \<Rightarrow> do {
          let w = w\<lparr>open_files := open_files w + 1\<rparr>;
          (buf, short, w) \<leftarrow> (if alloc_ok 65536
             then read_loop alloc_ok [] 65536 content (w\<lparr>live_bufs := live_bufs w + 1\<rparr>)
             else Some (None, False, w));
          let failed = (buf = None \<or> err \<and> short);
          let w = w\<lparr>open_files := open_files w - 1\<rparr>;
          if failed then Some ([], if buf = None then w else w\<lparr>live_bufs := live_bufs w - 1\<rparr>)
          else Some (the buf, w\<lparr>live_bufs := live_bufs w - 1\<rparr>)
        })"

text \<open>
  \<open>fopen\<close> for writing fails or truncates. The C library passes \<open>early\<close> bytes on during \<open>fwrite\<close> and
  the rest in \<open>fclose\<close>; the disk takes \<open>space\<close> bytes in all. \<open>fwrite\<close> reports a short count only
  when the disk refuses one of the early bytes, and the result of \<open>fclose\<close> is not looked at.
\<close>

definition write_file :: "bool \<Rightarrow> nat \<Rightarrow> nat \<Rightarrow> byte list \<Rightarrow> byte list \<Rightarrow> (byte list \<rightharpoonup> byte list) \<Rightarrow>
    int \<times> (byte list \<rightharpoonup> byte list)" where
  "write_file can_open early space path content fs =
     (if \<not> can_open then (-1, fs)
      else
        (let written = (if min early (length content) \<le> space then length content else space);
             fs = fs(c_str path \<mapsto> take space content)
         in (if written = length content then 0 else -1, fs)))"

text \<open>\<open>stat\<close> gives the mode; \<open>S_ISREG\<close> compares its type bits.\<close>

definition kod_is_file :: "(byte list \<Rightarrow> int option) \<Rightarrow> byte list \<Rightarrow> int" where
  "kod_is_file stat path =
     (case stat (c_str path) of None \<Rightarrow> 0 | Some st_mode \<Rightarrow> if st_mode AND 61440 = 32768 then 1 else 0)"

section \<open>Standard input\<close>

record stdin =
  sbuf :: "byte list"
  arrived :: "byte list"
  later :: "byte list list"
  bufsiz :: nat

definition unread :: "stdin \<Rightarrow> byte list" where
  "unread s = sbuf s @ arrived s @ concat (later s)"

text \<open>The pieces still to come are not empty (an empty read is the end), and the buffer has room.\<close>

definition stdin_ok :: "stdin \<Rightarrow> bool" where
  "stdin_ok s \<longleftrightarrow> 0 < bufsiz s \<and> list_all (\<lambda>c. c \<noteq> []) (later s)"

text \<open>A read of the descriptor waits for the next piece when the kernel has nothing.\<close>

definition wait_input :: "stdin \<Rightarrow> stdin" where
  "wait_input s =
     (if arrived s \<noteq> [] then s
      else case later s of [] \<Rightarrow> s | c # cs \<Rightarrow> s\<lparr>arrived := c, later := cs\<rparr>)"

definition getchar :: "stdin \<Rightarrow> byte option \<times> stdin" where
  "getchar s =
     (case sbuf s of
        b # bs \<Rightarrow> (Some b, s\<lparr>sbuf := bs\<rparr>)
      | [] \<Rightarrow>
          (let s = wait_input s
           in case arrived s of
                [] \<Rightarrow> (None, s)
              | b # bs \<Rightarrow> (Some b, s\<lparr>sbuf := take (bufsiz s - 1) bs, arrived := drop (bufsiz s - 1) bs\<rparr>)))"

lemma getchar_Some: "getchar s = (Some b, s') \<Longrightarrow> unread s = b # unread s'"
  by (auto simp: getchar_def unread_def wait_input_def Let_def split: list.splits if_splits)

text \<open>\<open>fread\<close> of \<open>n\<close> bytes is \<open>n\<close> times \<open>getchar\<close>, until the end.\<close>

fun fread :: "nat \<Rightarrow> stdin \<Rightarrow> byte list \<times> stdin" where
  "fread 0 s = ([], s)"
| "fread (Suc n) s =
     (case getchar s of
        (None, s) \<Rightarrow> ([], s)
      | (Some b, s) \<Rightarrow> (let (bs, s) = fread n s in (b # bs, s)))"

definition stdin_data_ready :: "bool \<Rightarrow> bool \<Rightarrow> stdin \<Rightarrow> int" where
  "stdin_data_ready poll_fails arrives_in_time s =
     (if poll_fails then -1
      else if arrived s \<noteq> [] \<or> later s = [] \<or> arrives_in_time then 1 else 0)"

text \<open>
  The scratch buffer of \<open>read_stdin_line\<close>: the bytes read so far and the capacity, doubled when one
  more byte would fill it.
\<close>

function line_loop :: "byte list \<Rightarrow> int \<Rightarrow> stdin \<Rightarrow> (byte list \<times> stdin) option" where
  "line_loop scratch cap s =
     (case getchar s of
        (None, s') \<Rightarrow> Some (scratch, s')
      | (Some ch, s') \<Rightarrow>
          if ch = 10 then Some (scratch, s')
          else
            (case (if int (length scratch) + 1 \<ge> cap then chk64 (cap * 2) else Some cap) of
               None \<Rightarrow> None
             | Some cap' \<Rightarrow>
                 if int (length scratch) < cap' then line_loop (scratch @ [ch]) cap' s' else None))"
  by pat_completeness auto
termination
  by (relation "measure (\<lambda>(scratch, cap, s). length (unread s))") (auto dest!: getchar_Some [OF sym])

declare line_loop.simps [simp del]

definition read_stdin_line :: "stdin \<Rightarrow> (byte list \<times> stdin) option" where
  "read_stdin_line s = do {
     (scratch, s) \<leftarrow> line_loop [] 64 s;
     Some (if scratch \<noteq> [] \<and> last scratch = 13 then butlast scratch else scratch, s)
   }"

text \<open>The loop of \<open>read_stdin_exact\<close>: \<open>got\<close> is what the \<open>n\<close>-byte buffer holds so far.\<close>

function exact_loop :: "int \<Rightarrow> byte list \<Rightarrow> stdin \<Rightarrow> byte list \<times> stdin" where
  "exact_loop n got s =
     (if int (length got) < n then
        (let (r, s') = fread (nat (n - int (length got))) s
         in if r = [] then (got, s') else exact_loop n (got @ r) s')
      else (got, s))"
  by pat_completeness auto
termination
  by (relation "measure (\<lambda>(n, got, s). nat (n - int (length got)))") auto

declare exact_loop.simps [simp del]

text \<open>A negative \<open>n\<close> has no defined behaviour: \<open>kod_str_alloc\<close> would write before its buffer.\<close>

definition read_stdin_exact :: "int \<Rightarrow> stdin \<Rightarrow> (byte list \<times> stdin) option" where
  "read_stdin_exact n s = (if n < 0 then None else Some (exact_loop n [] s))"

section \<open>Reading a whole file\<close>

lemma read_loop_returns:
  assumes "int (length buf) < cap" and "2 * int (length buf + length rest) \<le> SIZE_MAX"
  shows "\<exists>r short. read_loop alloc_ok buf cap rest w = Some (r, short, if r = None then w\<lparr>live_bufs := live_bufs w - 1\<rparr> else w) \<and>
    (r = Some (buf @ rest) \<and> short \<or> r = None \<and> (\<exists>c \<le> 2 * int (length buf + length rest). \<not> alloc_ok c))"
  using assms
proof (induction "length rest" arbitrary: buf cap rest rule: less_induct)
  case less
  define n where "n = nat (cap - int (length buf))"
  have n: "0 < n" "int n = cap - int (length buf)" using less.prems(1) by (simp_all add: n_def)
  show ?case
  proof (cases "length rest < n")
    case True
    then have "read_loop alloc_ok buf cap rest w = Some (Some (buf @ rest), True, w)"
      using n by (subst read_loop.simps) (simp add: Let_def n_def [symmetric])
    then show ?thesis by auto
  next
    case False
    then have full: "int (length (buf @ take n rest)) = cap" using n by simp
    have cap: "cap * 2 \<le> 2 * int (length buf + length rest)" using False n by simp
    show ?thesis
    proof (cases "alloc_ok (cap * 2)")
      case True
      have e: "read_loop alloc_ok buf cap rest w = read_loop alloc_ok (buf @ take n rest) (cap * 2) (drop n rest) w"
        using full cap less.prems True by (subst read_loop.simps) (simp add: Let_def n_def [symmetric])
      have l: "length (buf @ take n rest) + length (drop n rest) = length buf + length rest"
        and a: "(buf @ take n rest) @ drop n rest = buf @ rest" by auto
      have "length (drop n rest) < length rest" "int (length (buf @ take n rest)) < cap * 2"
        using False n full less.prems(1) by auto
      from less.hyps [OF this] show ?thesis
        using less.prems(2) unfolding e l a by blast
    next
      case False
      then have "read_loop alloc_ok buf cap rest w =
          Some (None, length (take n rest) < n, w\<lparr>live_bufs := live_bufs w - 1\<rparr>)"
        using full cap less.prems by (subst read_loop.simps) (simp add: Let_def n_def [symmetric])
      then show ?thesis using False cap by auto
    qed
  qed
qed

section \<open>Reading standard input\<close>

lemma getchar_None: "stdin_ok s \<Longrightarrow> getchar s = (None, s') \<Longrightarrow> unread s = [] \<and> unread s' = []"
  by (auto simp: getchar_def unread_def wait_input_def stdin_ok_def Let_def split: list.splits if_splits)

lemma getchar_ok: "stdin_ok s \<Longrightarrow> stdin_ok (snd (getchar s))"
  by (auto simp: getchar_def wait_input_def stdin_ok_def Let_def split: list.splits)

lemma fread_spec:
  "stdin_ok s \<Longrightarrow> \<exists>s'. fread n s = (take n (unread s), s') \<and> unread s' = drop n (unread s) \<and> stdin_ok s'"
proof (induction n arbitrary: s)
  case (Suc n)
  obtain c s1 where g: "getchar s = (c, s1)" by fastforce
  have ok: "stdin_ok s1" using getchar_ok [OF Suc.prems] g by simp
  show ?case
  proof (cases c)
    case None
    then show ?thesis using g getchar_None [OF Suc.prems, of s1] ok by simp
  next
    case (Some b)
    then have u: "unread s = b # unread s1" using g getchar_Some by blast
    obtain s' where "fread n s1 = (take n (unread s1), s')" "unread s' = drop n (unread s1)" "stdin_ok s'"
      using Suc.IH [OF ok] by blast
    then show ?thesis using g Some u by simp
  qed
qed simp

lemma line_loop_spec:
  assumes "stdin_ok s" and "int (length scratch) < cap" and "2 * int (length scratch + length (unread s) + 1) \<le> INT64_MAX"
  shows "\<exists>s'. line_loop scratch cap s = Some (scratch @ takeWhile (\<lambda>b. b \<noteq> 10) (unread s), s') \<and>
    unread s' = tl (dropWhile (\<lambda>b. b \<noteq> 10) (unread s)) \<and> stdin_ok s'"
  using assms
proof (induction "length (unread s)" arbitrary: scratch cap s rule: less_induct)
  case less
  obtain c s1 where g: "getchar s = (c, s1)" by fastforce
  have ok: "stdin_ok s1" using getchar_ok [OF less.prems(1)] g by simp
  show ?case
  proof (cases c)
    case None
    then show ?thesis using g getchar_None [OF less.prems(1), of s1] ok by (subst line_loop.simps) simp
  next
    case (Some b)
    then have u: "unread s = b # unread s1" using g getchar_Some by blast
    show ?thesis
    proof (cases "b = 10")
      case True
      then show ?thesis using g Some u ok by (subst line_loop.simps) simp
    next
      case False
      define cap' where "cap' = (if int (length scratch) + 1 \<ge> cap then cap * 2 else cap)"
      have c: "(if int (length scratch) + 1 \<ge> cap then chk64 (cap * 2) else Some cap) = Some cap'"
        "int (length scratch) + 1 < cap'"
        using less.prems(2,3) u by (auto simp: cap'_def range_simps)
      have "line_loop scratch cap s = line_loop (scratch @ [b]) cap' s1"
        using g Some False c by (subst line_loop.simps) simp
      then show ?thesis
        using less.hyps [of s1 "scratch @ [b]" cap'] ok c(2) less.prems(3) u False by simp
    qed
  qed
qed

lemma read_stdin_line_spec:
  assumes "stdin_ok s" and "2 * int (length (unread s) + 1) \<le> INT64_MAX"
  defines "line \<equiv> takeWhile (\<lambda>b. b \<noteq> 10) (unread s)"
  shows "\<exists>s'. read_stdin_line s = Some (if line \<noteq> [] \<and> last line = 13 then butlast line else line, s') \<and>
    unread s' = tl (dropWhile (\<lambda>b. b \<noteq> 10) (unread s)) \<and> stdin_ok s'"
  using line_loop_spec [OF assms(1), of "[]" 64] assms(2) by (auto simp: read_stdin_line_def line_def)

lemma read_stdin_exact_spec:
  assumes "stdin_ok s"
  shows "\<exists>s'. read_stdin_exact (int n) s = Some (take n (unread s), s') \<and> unread s' = drop n (unread s) \<and> stdin_ok s'"
proof -
  obtain s1 where s1: "fread n s = (take n (unread s), s1)" "unread s1 = drop n (unread s)" "stdin_ok s1"
    using fread_spec [OF assms] by blast
  obtain s2 where s2: "fread (n - length (unread s)) s1 = (take (n - length (unread s)) (unread s1), s2)"
      "unread s2 = drop (n - length (unread s)) (unread s1)" "stdin_ok s2"
    using fread_spec [OF s1(3)] by blast
  have e: "nat (int n - int (length (take n (unread s)))) = n - length (unread s)" by simp
  have "\<exists>s'. exact_loop (int n) [] s = (take n (unread s), s') \<and> unread s' = drop n (unread s) \<and> stdin_ok s'"
  proof (cases "n = 0 \<or> unread s = []")
    case True
    then show ?thesis using s1 assms by (subst exact_loop.simps) auto
  next
    case False
    then have "exact_loop (int n) [] s = exact_loop (int n) (take n (unread s)) s1"
      using s1(1) by (subst exact_loop.simps) simp
    also have "\<exists>s'. \<dots> = (take n (unread s), s') \<and> unread s' = drop n (unread s) \<and> stdin_ok s'"
    proof (cases "length (unread s) < n")
      case True
      then have "unread s1 = []" using s1(2) by simp
      then show ?thesis
        using True s1(2) s2 e by (subst exact_loop.simps) (simp add: Let_def)
    next
      case False
      then show ?thesis using s1(2,3) by (subst exact_loop.simps) simp
    qed
    finally show ?thesis .
  qed
  then show ?thesis by (auto simp: read_stdin_exact_def)
qed

text \<open>
  What \<open>write_file\<close> reports. It returns 0 also when the disk refuses bytes that the C library still
  held when \<open>fwrite\<close> returned: those are lost in \<open>fclose\<close>.
\<close>

lemma write_file_status:
  "fst (write_file can_open early space path content fs) = 0 \<longleftrightarrow>
     can_open \<and> (min early (length content) \<le> space \<or> length content = space)"
  by (auto simp: write_file_def Let_def)

lemma write_file_loses_buffered:
  "\<exists>early space content fs. fst (write_file True early space [102] content (\<lambda>_. None)) = 0 \<and>
     snd (write_file True early space [102] content (\<lambda>_. None)) [102] \<noteq> Some content"
  by (intro exI [of _ 0] exI [of _ 0] exI [of _ "[120]"]) (simp add: write_file_def c_str_def)

text \<open>
  \<open>stdin_data_ready\<close> asks the kernel only: a line that the C library has already read ahead does
  not count as data that is ready.
\<close>

lemma stdin_data_ready_misses_read_ahead:
  "\<exists>s. stdin_ok s \<and> unread (snd (getchar s)) = [66, 10, 67] \<and> sbuf (snd (getchar s)) = [66, 10] \<and>
     stdin_data_ready False False (snd (getchar s)) = 0"
  by (intro exI [of _ "\<lparr>sbuf = [], arrived = [65, 66, 10], later = [[67]], bufsiz = 4096\<rparr>"])
    (simp add: stdin_ok_def getchar_def wait_input_def unread_def stdin_data_ready_def)

section \<open>Properties\<close>

text \<open>
  C15. \<open>read_file\<close> always returns, and returns the whole contents of the file, whatever its size up to half the address range, or
  the empty string when the file cannot be opened, the stream fails or memory runs out; on every
  path the stream is closed and the buffer freed exactly once.
\<close>

theorem read_file_correct:
  assumes "\<And>content err. fopen (c_str path) = Some (content, err) \<Longrightarrow> 2 * int (length content) \<le> SIZE_MAX"
  shows "\<exists>bs. read_file fopen alloc_ok path w = Some (bs, w) \<and>
    (case fopen (c_str path) of
       None \<Rightarrow> bs = []
     | Some (content, err) \<Rightarrow> bs = (if err then [] else content) \<or>
         bs = [] \<and> (\<exists>c \<le> max 65536 (2 * int (length content)). \<not> alloc_ok c))"
proof (cases "fopen (c_str path)")
  case None
  then show ?thesis by (simp add: read_file_def)
next
  case (Some ce)
  then obtain content err where f: "fopen (c_str path) = Some (content, err)" by (cases ce) auto
  show ?thesis
  proof (cases "alloc_ok 65536")
    case True
    let ?w = "w\<lparr>open_files := open_files w + 1, live_bufs := live_bufs w + 1\<rparr>"
    obtain r short where r: "read_loop alloc_ok [] 65536 content ?w =
        Some (r, short, if r = None then ?w\<lparr>live_bufs := live_bufs ?w - 1\<rparr> else ?w)"
      "r = Some content \<and> short \<or> r = None \<and> (\<exists>c \<le> 2 * int (length content). \<not> alloc_ok c)"
      using read_loop_returns [of "[]" 65536 content alloc_ok ?w] assms [OF f] by auto
    then show ?thesis using f True by (cases r) (auto simp: read_file_def)
  next
    case False
    then show ?thesis using f by (auto simp: read_file_def intro!: exI [of _ 65536])
  qed
qed

theorem read_file_correct_witness:
  "read_file (\<lambda>p. Some ([104, 105], False)) (\<lambda>_. True) [102] \<lparr>open_files = 0, live_bufs = 0\<rparr> =
    Some ([104, 105], \<lparr>open_files = 0, live_bufs = 0\<rparr>) \<and>
   read_file (\<lambda>p. None) (\<lambda>_. True) [102] \<lparr>open_files = 0, live_bufs = 0\<rparr> = Some ([], \<lparr>open_files = 0, live_bufs = 0\<rparr>)"
  using read_file_correct [of "\<lambda>p. Some ([104, 105], False)" "[102]" "\<lambda>_. True" "\<lparr>open_files = 0, live_bufs = 0\<rparr>"]
    read_file_correct [of "\<lambda>p. None" "[102]" "\<lambda>_. True" "\<lparr>open_files = 0, live_bufs = 0\<rparr>"]
  by (auto simp: SIZE_MAX_def)

text \<open>
  C16. The framing of the language server's messages is read exactly, in whatever pieces the input
  arrives and however the C library reads ahead: a header line without its line end, the empty line,
  a body of the announced length, and then the rest of the input is untouched. At the end of the
  input the body is what there was.
\<close>

theorem stdin_framing:
  assumes "stdin_ok s" and "unread s = header @ [13, 10] @ [13, 10] @ input" and "10 \<notin> set header"
    and "2 * int (length (unread s) + 1) \<le> INT64_MAX"
  shows "\<exists>s1 s2 s3. read_stdin_line s = Some (header, s1) \<and> read_stdin_line s1 = Some ([], s2) \<and>
    read_stdin_exact (int n) s2 = Some (take n input, s3) \<and> unread s3 = drop n input"
proof -
  have t: "takeWhile (\<lambda>b. b \<noteq> 10) (unread s) = header @ [13]" "tl (dropWhile (\<lambda>b. b \<noteq> 10) (unread s)) = [13, 10] @ input"
    using assms(3) by (auto simp: assms(2) takeWhile_append2 dropWhile_append2 intro!: takeWhile_append2)
      (simp_all add: takeWhile_append dropWhile_append)
  obtain s1 where s1: "read_stdin_line s = Some (header, s1)" "unread s1 = [13, 10] @ input" "stdin_ok s1"
    using read_stdin_line_spec [OF assms(1,4)] t by auto
  have "2 * int (length (unread s1) + 1) \<le> INT64_MAX" using assms(2,4) s1(2) by simp
  then obtain s2 where s2: "read_stdin_line s1 = Some ([], s2)" "unread s2 = input" "stdin_ok s2"
    using read_stdin_line_spec [OF s1(3)] s1(2) by auto
  obtain s3 where "read_stdin_exact (int n) s2 = Some (take n input, s3)" "unread s3 = drop n input"
    using read_stdin_exact_spec [OF s2(3), of n] s2(2) by auto
  with s1(1) s2(1) show ?thesis by blast
qed

theorem stdin_framing_witness:
  "\<exists>s1 s2 s3. read_stdin_line \<lparr>sbuf = [], arrived = [72], later = [[58, 13], [10, 13, 10, 120], [121, 122]], bufsiz = 2\<rparr> =
      Some ([72, 58], s1) \<and> read_stdin_line s1 = Some ([], s2) \<and> read_stdin_exact 2 s2 = Some ([120, 121], s3) \<and>
    unread s3 = [122]"
  using stdin_framing [of "\<lparr>sbuf = [], arrived = [72], later = [[58, 13], [10, 13, 10, 120], [121, 122]], bufsiz = 2\<rparr>"
      "[72, 58]" "[120, 121, 122]" 2]
  by (simp add: stdin_ok_def unread_def INT64_MAX_def)

end
