(* ===== verification/Kod_Inflate.thy ===== *)
theory Kod_Inflate
  imports Kod_Prelude
begin

text \<open>
  \<open>src/stdlib/compress/inflate.c\<close>: decompression with the system's zlib, and
  \<open>src/tests/link/zlib_crc.c\<close>.

  zlib is a parameter, the record \<open>zlib\<close>: \<open>z_init\<close> is \<open>inflateInit2\<close> (\<open>None\<close> when it fails), \<open>z_reset\<close>
  is \<open>inflateReset\<close>, and \<open>z_inflate z inp n\<close> is \<open>inflate\<close> with \<open>inp\<close> in \<open>next_in\<close>/\<open>avail_in\<close> and \<open>n\<close>
  bytes of room: a return code, how many bytes it consumed, the bytes it produced, the new state
  and \<open>zs.msg\<close>. What zlib documents is stated as \<open>zlib_bounded\<close>, \<open>zlib_progress\<close> and
  \<open>zlib_decodes\<close>. Live buffers and streams and the sizes asked of \<open>malloc\<close> are recorded.
\<close>

section \<open>State\<close>

datatype zrc = Z_OK | Z_STREAM_END | Z_BUF_ERROR | Z_MEM_ERROR | Z_OTHER

record 'z zlib =
  z_init :: "int \<Rightarrow> 'z option"
  z_reset :: "'z \<Rightarrow> 'z option"
  z_inflate :: "'z \<Rightarrow> byte list \<Rightarrow> nat \<Rightarrow> zrc \<times> nat \<times> byte list \<times> 'z \<times> byte list option"

record inflate_state =
  g_status :: int
  g_message :: "byte list"
  out_bufs :: int
  streams :: int
  asked :: "int list"

definition kod_inflate_status :: "inflate_state \<Rightarrow> int" where
  "kod_inflate_status w = g_status w"

definition kod_inflate_message :: "inflate_state \<Rightarrow> byte list" where
  "kod_inflate_message w = c_str (g_message w)"

section \<open>Operations\<close>

text \<open>\<open>snprintf\<close> into 128 bytes keeps 127 and the terminator.\<close>

definition inflate_failed :: "int \<Rightarrow> byte list option \<Rightarrow> inflate_state \<Rightarrow> byte list \<times> inflate_state" where
  "inflate_failed status message w =
     ([], w\<lparr>g_status := status, g_message := take 127 (c_str (case message of None \<Rightarrow> [] | Some m \<Rightarrow> m))\<rparr>)"

definition free_out :: "inflate_state \<Rightarrow> inflate_state" where
  "free_out w = w\<lparr>out_bufs := out_bufs w - 1\<rparr>"

definition inflate_end :: "inflate_state \<Rightarrow> inflate_state" where
  "inflate_end w = w\<lparr>streams := streams w - 1\<rparr>"

text \<open>
  One pass of the loop. \<open>out\<close> is the output so far, so \<open>len\<close> is its length. The result is \<open>Inl\<close> of what the
  function returns from inside the loop, or \<open>Inr\<close> of \<open>ended\<close>, the output and the state after it.
  Sizes are \<open>size_t\<close>: they wrap at \<open>2 ^ 64\<close>.
\<close>

definition size_wrap :: "int \<Rightarrow> int" where
  "size_wrap n = n mod 18446744073709551616"

type_synonym loop_exit = "(byte list \<times> inflate_state) + (bool \<times> byte list \<times> inflate_state)"

definition after_inflate ::
  "'z zlib \<Rightarrow> int \<Rightarrow> int \<Rightarrow> byte list \<Rightarrow> int \<Rightarrow> byte list \<Rightarrow> inflate_state \<Rightarrow>
   zrc \<times> nat \<times> byte list \<times> 'z \<times> byte list option \<Rightarrow>
   loop_exit + (byte list \<times> int \<times> byte list \<times> 'z \<times> inflate_state)" where
  "after_inflate Z mode limit out cap inp w res =
     (let (rc, used, produced, z, msg) = res;
          out = out @ produced;
          inp = drop used inp
      in if int (length out) > limit then
           Inl (Inl (inflate_failed 2 (Some (bytes_of ''output too large'')) (inflate_end (free_out w))))
         else if rc = Z_STREAM_END then
           (if mode = 0 \<and> inp \<noteq> [] then
              (case z_reset Z z of
                 None \<Rightarrow> Inl (Inl (inflate_failed 1 (Some (bytes_of ''bad stream state'')) (inflate_end (free_out w))))
               | Some z \<Rightarrow> Inr (out, cap, inp, z, w))
            else Inl (Inr (True, out, w)))
         else if rc = Z_BUF_ERROR \<and> inp = [] then Inl (Inr (False, out, w))
         else if rc \<noteq> Z_OK \<and> rc \<noteq> Z_BUF_ERROR then
           Inl (Inl (inflate_failed (if rc = Z_MEM_ERROR then 3 else 1)
             (Some (if rc = Z_MEM_ERROR then bytes_of ''out of memory''
                    else case msg of Some m \<Rightarrow> m | None \<Rightarrow> bytes_of ''invalid data''))
             (inflate_end (free_out w))))
         else Inr (out, cap, inp, z, w))"

definition inflate_body ::
  "'z zlib \<Rightarrow> (int \<Rightarrow> bool) \<Rightarrow> int \<Rightarrow> int \<Rightarrow> byte list \<Rightarrow> int \<Rightarrow> byte list \<Rightarrow> 'z \<Rightarrow> inflate_state \<Rightarrow>
   loop_exit + (byte list \<times> int \<times> byte list \<times> 'z \<times> inflate_state)" where
  "inflate_body Z alloc_ok mode limit out cap inp z w =
     (let grown = size_wrap (cap * 2);
          grown = (if grown > size_wrap (limit + 1) then size_wrap (limit + 1) else grown);
          full = (int (length out) = cap);
          w = (if full \<and> grown > cap then w\<lparr>asked := grown # asked w\<rparr> else w)
      in if full \<and> \<not> (grown > cap \<and> alloc_ok grown) then
           Inl (Inl (if grown > cap then inflate_failed 3 (Some (bytes_of ''out of memory'')) (inflate_end (free_out w))
                     else inflate_failed 2 (Some (bytes_of ''output too large'')) (inflate_end (free_out w))))
         else
           (let cap = (if full then grown else cap);
                room = cap - int (length out);
                avail_out = (if room > 1073741824 then 1073741824 else room)
            in after_inflate Z mode limit out cap inp w (z_inflate Z z inp (nat avail_out))))"

partial_function (option) inflate_loop ::
  "'z zlib \<Rightarrow> (int \<Rightarrow> bool) \<Rightarrow> int \<Rightarrow> int \<Rightarrow> byte list \<Rightarrow> int \<Rightarrow> byte list \<Rightarrow> 'z \<Rightarrow> inflate_state \<Rightarrow> loop_exit option" where
  "inflate_loop Z alloc_ok mode limit out cap inp z w =
     (case inflate_body Z alloc_ok mode limit out cap inp z w of
        Inl r \<Rightarrow> Some r
      | Inr (out, cap, inp, z, w) \<Rightarrow> inflate_loop Z alloc_ok mode limit out cap inp z w)"

text \<open>What follows the loop.\<close>

fun inflate_finish :: "loop_exit \<Rightarrow> byte list \<times> inflate_state" where
  "inflate_finish (Inl res) = res"
| "inflate_finish (Inr (ended, out, w)) =
     (let w = inflate_end w
      in if \<not> ended then inflate_failed 1 (Some (bytes_of ''truncated'')) (free_out w)
         else (out, (free_out w)\<lparr>g_status := 0\<rparr>))"

definition window_bits :: "int \<Rightarrow> int" where
  "window_bits mode = (if mode = 0 then 15 + 16 else if mode = 1 then 15 else -15)"

definition start_cap :: "int \<Rightarrow> int" where
  "start_cap limit = (if limit < 4096 then limit + 1 else 4096)"

definition avail_input :: "byte list \<Rightarrow> byte list" where
  "avail_input input = take (length input mod 4294967296) input"

definition kod_inflate ::
  "'z zlib \<Rightarrow> (int \<Rightarrow> bool) \<Rightarrow> byte list \<Rightarrow> int \<Rightarrow> int \<Rightarrow> inflate_state \<Rightarrow> (byte list \<times> inflate_state) option" where
  "kod_inflate Z alloc_ok input mode max_output w =
     (case z_init Z (window_bits mode) of
        None \<Rightarrow> Some (inflate_failed 3 (Some (bytes_of ''out of memory'')) w)
      | Some z \<Rightarrow>
          (let limit = size_wrap max_output;
               cap = start_cap limit;
               w = w\<lparr>streams := streams w + 1, asked := cap # asked w\<rparr>
           in if \<not> alloc_ok cap then
                Some (inflate_failed 3 (Some (bytes_of ''out of memory'')) (inflate_end w))
              else map_option inflate_finish
                (inflate_loop Z alloc_ok mode limit [] cap (avail_input input) z (w\<lparr>out_bufs := out_bufs w + 1\<rparr>))))"

text \<open>\<open>crc32\<close> of zlib is a parameter of the caller in \<open>tests/link/zlib_crc.c\<close>.\<close>

definition kod_zlib_crc32 :: "(int \<Rightarrow> byte list \<Rightarrow> int) \<Rightarrow> byte list \<Rightarrow> int" where
  "kod_zlib_crc32 crc32 s =
     (let crc = crc32 0 [] in crc32 crc (take (length s mod 4294967296) s))"

section \<open>What zlib promises\<close>

definition zlib_bounded :: "'z zlib \<Rightarrow> bool" where
  "zlib_bounded Z \<longleftrightarrow> (\<forall>z inp n rc used produced z' msg.
     z_inflate Z z inp n = (rc, used, produced, z', msg) \<longrightarrow> used \<le> length inp \<and> length produced \<le> n)"

definition is_fresh :: "'z zlib \<Rightarrow> 'z \<Rightarrow> bool" where
  "is_fresh Z z \<longleftrightarrow> (\<exists>v. z_init Z v = Some z) \<or> (\<exists>y. z_reset Z y = Some z)"

text \<open>
  \<open>Z_OK\<close> means that some progress was made; a stream does not end before it has begun; and
  \<open>Z_BUF_ERROR\<close> means that no progress was possible, which input and room together rule out.
\<close>

definition zlib_progress :: "'z zlib \<Rightarrow> bool" where
  "zlib_progress Z \<longleftrightarrow> (\<forall>z inp n rc used produced z' msg.
     0 < n \<and> z_inflate Z z inp n = (rc, used, produced, z', msg) \<longrightarrow>
     (rc = Z_OK \<or> rc = Z_STREAM_END \<and> is_fresh Z z \<longrightarrow> 0 < used + length produced) \<and>
     (rc = Z_BUF_ERROR \<longrightarrow> inp = []))"

text \<open>
  \<open>rel z fed gave\<close> is zlib's view of a state: what it has been fed and what it has given back since
  it was set up. When the stream ends the bytes it was fed are one member, which \<open>decode\<close> maps to
  what it gave.
\<close>

definition zlib_decodes :: "'z zlib \<Rightarrow> ('z \<Rightarrow> byte list \<Rightarrow> byte list \<Rightarrow> bool) \<Rightarrow> (byte list \<Rightarrow> byte list option) \<Rightarrow> bool" where
  "zlib_decodes Z rel decode \<longleftrightarrow>
     (\<forall>z. is_fresh Z z \<longrightarrow> rel z [] []) \<and>
     (\<forall>z fed gave inp n rc used produced z' msg.
        rel z fed gave \<and> z_inflate Z z inp n = (rc, used, produced, z', msg) \<longrightarrow>
        (rc \<in> {Z_OK, Z_STREAM_END, Z_BUF_ERROR} \<longrightarrow> rel z' (fed @ take used inp) (gave @ produced)) \<and>
        (rc = Z_STREAM_END \<longrightarrow> decode (fed @ take used inp) = Some (gave @ produced)))"

lemma zlib_boundedD:
  assumes "zlib_bounded Z" and "z_inflate Z z inp n = (rc, used, produced, z', msg)"
  shows "used \<le> length inp" and "length produced \<le> n"
  using assms unfolding zlib_bounded_def by blast+

lemma zlib_progressD:
  assumes "zlib_progress Z" and "0 < n" and "z_inflate Z z inp n = (rc, used, produced, z', msg)"
  shows "rc = Z_OK \<or> rc = Z_STREAM_END \<and> is_fresh Z z \<Longrightarrow> 0 < used + length produced"
    and "rc = Z_BUF_ERROR \<Longrightarrow> inp = []"
  using assms unfolding zlib_progress_def by blast+

lemma zlib_decodesD:
  assumes "zlib_decodes Z rel decode" and "rel z fed gave" and "z_inflate Z z inp n = (rc, used, produced, z', msg)"
  shows "rc \<in> {Z_OK, Z_STREAM_END, Z_BUF_ERROR} \<Longrightarrow> rel z' (fed @ take used inp) (gave @ produced)"
    and "rc = Z_STREAM_END \<Longrightarrow> decode (fed @ take used inp) = Some (gave @ produced)"
  using assms unfolding zlib_decodes_def by blast+

section \<open>One pass of the loop\<close>

definition loop_inv :: "int \<Rightarrow> byte list \<Rightarrow> int \<Rightarrow> inflate_state \<Rightarrow> bool" where
  "loop_inv limit out cap w \<longleftrightarrow> int (length out) \<le> limit \<and> int (length out) \<le> cap \<and> 0 < cap \<and> cap \<le> limit + 1 \<and>
     list_all (\<lambda>n. n \<le> limit + 1) (asked w)"

definition same_resources :: "inflate_state \<Rightarrow> inflate_state \<Rightarrow> bool" where
  "same_resources w w' \<longleftrightarrow> out_bufs w' = out_bufs w \<and> streams w' = streams w"

text \<open>How the loop may be left: with an error and everything freed, or with an output in bounds.\<close>

fun exit_ok :: "int \<Rightarrow> inflate_state \<Rightarrow> loop_exit \<Rightarrow> bool" where
  "exit_ok limit w (Inl (res, w')) \<longleftrightarrow> res = [] \<and> g_status w' \<in> {1, 2, 3} \<and>
     out_bufs w' = out_bufs w - 1 \<and> streams w' = streams w - 1 \<and> list_all (\<lambda>n. n \<le> limit + 1) (asked w')"
| "exit_ok limit w (Inr (ended, out, w')) \<longleftrightarrow> int (length out) \<le> limit \<and> same_resources w w' \<and>
     list_all (\<lambda>n. n \<le> limit + 1) (asked w')"

definition work_left :: "'z zlib \<Rightarrow> int \<Rightarrow> byte list \<Rightarrow> byte list \<Rightarrow> 'z \<Rightarrow> nat" where
  "work_left Z limit out inp z =
     2 * (length inp + nat (limit + 1 - int (length out))) + (if is_fresh Z z then 0 else 1)"

lemma exit_failed:
  "exit_ok limit w (Inl (inflate_failed st m (inflate_end (free_out w')))) \<longleftrightarrow>
     st \<in> {1, 2, 3} \<and> same_resources w w' \<and> list_all (\<lambda>n. n \<le> limit + 1) (asked w')"
  by (auto simp: inflate_failed_def inflate_end_def free_out_def same_resources_def)

lemma body_grows:
  assumes "loop_inv limit out cap w" and "0 \<le> limit" and "limit \<le> INT64_MAX"
  defines "grown \<equiv> (if cap * 2 > limit + 1 then limit + 1 else cap * 2)"
  shows "int (length out) = cap \<Longrightarrow>
      (if size_wrap (cap * 2) > size_wrap (limit + 1) then size_wrap (limit + 1) else size_wrap (cap * 2)) = grown"
    and "int (length out) = cap \<Longrightarrow> cap < grown" and "grown \<le> limit + 1"
proof -
  show "(if size_wrap (cap * 2) > size_wrap (limit + 1) then size_wrap (limit + 1) else size_wrap (cap * 2)) = grown"
    if "int (length out) = cap"
    using assms that by (auto simp: size_wrap_def grown_def loop_inv_def INT64_MAX_def)
  show "int (length out) = cap \<Longrightarrow> cap < grown" "grown \<le> limit + 1"
    using assms(1) by (auto simp: grown_def loop_inv_def)
qed

lemma body_call:
  assumes inv: "loop_inv limit out cap w" and "0 \<le> limit" and "limit \<le> INT64_MAX"
  obtains (no_memory) m m' where "inflate_body Z alloc_ok mode limit out cap inp z w = Inl (Inl (inflate_failed 3 m
      (inflate_end (free_out (w\<lparr>asked := m' # asked w\<rparr>)))))" "m' \<le> limit + 1"
  | (called) cap' w' n where "loop_inv limit out cap' w'" "same_resources w w'" "0 < n"
      "int (length out) + int n \<le> cap'"
      "inflate_body Z alloc_ok mode limit out cap inp z w = after_inflate Z mode limit out cap' inp w' (z_inflate Z z inp n)"
proof -
  define grown where "grown = (if cap * 2 > limit + 1 then limit + 1 else cap * 2)"
  define full where "full \<longleftrightarrow> int (length out) = cap"
  note g = body_grows [OF assms, folded grown_def]
  define w' where "w' = (if full then w\<lparr>asked := grown # asked w\<rparr> else w)"
  define cap' where "cap' = (if full then grown else cap)"
  define n where "n = nat (if cap' - int (length out) > 1073741824 then 1073741824 else cap' - int (length out))"
  define G where "G = (if size_wrap (cap * 2) > size_wrap (limit + 1) then size_wrap (limit + 1) else size_wrap (cap * 2))"
  have G: "full \<Longrightarrow> G = grown" "full \<Longrightarrow> cap < grown" using g(1,2) by (simp_all add: G_def full_def)
  show thesis
  proof (cases "full \<and> \<not> alloc_ok grown")
    case True
    then have "inflate_body Z alloc_ok mode limit out cap inp z w =
        Inl (Inl (inflate_failed 3 (Some (bytes_of ''out of memory'')) (inflate_end (free_out (w\<lparr>asked := grown # asked w\<rparr>)))))"
      using g(1,2) by (simp add: inflate_body_def Let_def full_def)
    then show thesis using no_memory g(3) by blast
  next
    case False
    have e: "(full \<and> \<not> (cap < G \<and> alloc_ok G)) = False"
      "(if full \<and> cap < G then w\<lparr>asked := G # asked w\<rparr> else w) = w'" "(if full then G else cap) = cap'"
      using G False by (auto simp: w'_def cap'_def)
    have "inflate_body Z alloc_ok mode limit out cap inp z w = after_inflate Z mode limit out cap' inp w' (z_inflate Z z inp n)"
      unfolding inflate_body_def Let_def full_def [symmetric] G_def [symmetric] e n_def [symmetric] if_False ..
    moreover have "loop_inv limit out cap' w'" "int (length out) < cap'"
      using inv g(2,3) by (auto simp: loop_inv_def cap'_def w'_def full_def)
    moreover from this have "0 < n" "int (length out) + int n \<le> cap'" by (auto simp: n_def)
    moreover have "same_resources w w'" by (simp add: same_resources_def w'_def)
    ultimately show thesis using called by blast
  qed
qed

lemma less_by_progress:
  "A + d = B \<Longrightarrow> 0 < d \<or> f \<and> \<not> g \<Longrightarrow> 2 * A + (if f then 0 else 1) < 2 * B + (if g then 0 else 1 :: nat)"
  by auto

lemma body_returns:
  assumes inv: "loop_inv limit out cap w" and l: "0 \<le> limit" "limit \<le> INT64_MAX" and b: "zlib_bounded Z" and p: "zlib_progress Z"
  shows "case inflate_body Z alloc_ok mode limit out cap inp z w of
    Inl r \<Rightarrow> exit_ok limit w r
  | Inr (out', cap', inp', z', w') \<Rightarrow> loop_inv limit out' cap' w' \<and> same_resources w w' \<and>
      work_left Z limit out' inp' z' < work_left Z limit out inp z"
proof (rule body_call [OF inv l])
  fix m m'
  assume "inflate_body Z alloc_ok mode limit out cap inp z w = Inl (Inl (inflate_failed 3 m
      (inflate_end (free_out (w\<lparr>asked := m' # asked w\<rparr>)))))" "m' \<le> limit + 1"
  then show ?thesis using inv by (simp add: exit_failed same_resources_def loop_inv_def)
next
  fix cap' w' n
  assume c: "loop_inv limit out cap' w'" "same_resources w w'" "0 < n" "int (length out) + int n \<le> cap'"
    and e: "inflate_body Z alloc_ok mode limit out cap inp z w = after_inflate Z mode limit out cap' inp w' (z_inflate Z z inp n)"
  obtain rc used produced z' msg where z: "z_inflate Z z inp n = (rc, used, produced, z', msg)"
    by (cases "z_inflate Z z inp n") auto
  note bnd = zlib_boundedD [OF b z] and prog = zlib_progressD [OF p c(3) z]
  have inv': "loop_inv limit (out @ produced) cap' w'" if "int (length (out @ produced)) \<le> limit"
    using c(1,4) bnd(2) that by (auto simp: loop_inv_def)
  have asked: "list_all (\<lambda>n. n \<le> limit + 1) (asked w')" using c(1) by (simp add: loop_inv_def)
  have dec: "work_left Z limit (out @ produced) (drop used inp) y < work_left Z limit out inp z"
    if "0 < used + length produced \<or> is_fresh Z y \<and> \<not> is_fresh Z z" "int (length (out @ produced)) \<le> limit" for y
  proof -
    have "length (drop used inp) + nat (limit + 1 - int (length (out @ produced))) + (used + length produced) =
        length inp + nat (limit + 1 - int (length out))"
      using that(2) bnd(1) by simp
    from less_by_progress [OF this that(1)] show ?thesis unfolding work_left_def .
  qed
  have fresh: "z_reset Z z' = Some y \<Longrightarrow> is_fresh Z y" for y by (auto simp: is_fresh_def)
  consider (big) "int (length (out @ produced)) > limit"
    | (reset) y where "int (length (out @ produced)) \<le> limit" "rc = Z_STREAM_END" "mode = 0" "drop used inp \<noteq> []" "z_reset Z z' = Some y"
    | (again) "int (length (out @ produced)) \<le> limit" "rc = Z_OK"
    | (left) r where "after_inflate Z mode limit out cap' inp w' (rc, used, produced, z', msg) = Inl r" "exit_ok limit w r"
    using prog(2) c(2) asked
    by (cases rc; cases "z_reset Z z'"; cases "int (length (out @ produced)) > limit"; cases "mode = 0 \<and> drop used inp \<noteq> []")
      (auto simp: after_inflate_def Let_def exit_failed not_less)
  then show ?thesis
  proof cases
    case big
    then show ?thesis using c(2) asked by (simp add: e z after_inflate_def exit_failed)
  next
    case reset
    then have "work_left Z limit (out @ produced) (drop used inp) y < work_left Z limit out inp z"
      using dec [of y] prog(1) fresh [of y] by blast
    then show ?thesis using reset c(2) inv' unfolding e z by (simp add: after_inflate_def)
  next
    case again
    then have "work_left Z limit (out @ produced) (drop used inp) z' < work_left Z limit out inp z"
      using dec [of z'] prog(1) by blast
    then show ?thesis using again c(2) inv' unfolding e z by (simp add: after_inflate_def)
  next
    case left
    then show ?thesis by (simp add: e z)
  qed
qed

lemma loop_returns:
  assumes "loop_inv limit out cap w" and l: "0 \<le> limit" "limit \<le> INT64_MAX" and "zlib_bounded Z" and "zlib_progress Z"
  shows "\<exists>r. inflate_loop Z alloc_ok mode limit out cap inp z w = Some r \<and> exit_ok limit w r"
  using assms(1)
proof (induction "work_left Z limit out inp z" arbitrary: out cap inp z w rule: less_induct)
  case less
  note body = body_returns [OF less.prems l assms(4,5), where alloc_ok = alloc_ok and mode = mode and inp = inp and z = z]
  show ?case
  proof (cases "inflate_body Z alloc_ok mode limit out cap inp z w")
    case (Inl r)
    then show ?thesis using body by (subst inflate_loop.simps) simp
  next
    case (Inr x)
    obtain out' cap' inp' z' w' where x: "x = (out', cap', inp', z', w')" by (cases x)
    have i: "loop_inv limit out' cap' w'" "same_resources w w'" "work_left Z limit out' inp' z' < work_left Z limit out inp z"
      using body Inr x by simp_all
    obtain r where r: "inflate_loop Z alloc_ok mode limit out' cap' inp' z' w' = Some r" "exit_ok limit w' r"
      using less.hyps [OF i(3,1)] by blast
    have "exit_ok limit w r" using r(2) i(2) by (cases r) (auto simp: same_resources_def)
    then show ?thesis using Inr x r(1) by (subst inflate_loop.simps) simp
  qed
qed

text \<open>
  What the output is made of: whole members, decoded, and what the member that is being read has
  given so far.
\<close>

definition members :: "('z \<Rightarrow> byte list \<Rightarrow> byte list \<Rightarrow> bool) \<Rightarrow> (byte list \<Rightarrow> byte list option) \<Rightarrow>
    byte list \<Rightarrow> byte list \<Rightarrow> byte list \<Rightarrow> 'z \<Rightarrow> bool" where
  "members rel decode input out inp z \<longleftrightarrow> (\<exists>ms fed gave. input = concat ms @ fed @ inp \<and>
     list_all (\<lambda>m. decode m \<noteq> None) ms \<and> out = concat (map (\<lambda>m. the (decode m)) ms) @ gave \<and> rel z fed gave)"

definition decoded :: "(byte list \<Rightarrow> byte list option) \<Rightarrow> byte list \<Rightarrow> int \<Rightarrow> byte list \<Rightarrow> bool" where
  "decoded decode input mode out \<longleftrightarrow> (\<exists>ms rest. input = concat ms @ rest \<and> ms \<noteq> [] \<and>
     list_all (\<lambda>m. decode m \<noteq> None) ms \<and> out = concat (map (\<lambda>m. the (decode m)) ms) \<and> (mode = 0 \<longrightarrow> rest = []))"

lemma body_decodes:
  assumes inv: "loop_inv limit out cap w" and l: "0 \<le> limit" "limit \<le> INT64_MAX" and d: "zlib_decodes Z rel decode"
    and m: "members rel decode input out inp z"
  shows "inflate_body Z alloc_ok mode limit out cap inp z w = Inl (Inr (True, out', w')) \<Longrightarrow> decoded decode input mode out'"
    and "inflate_body Z alloc_ok mode limit out cap inp z w = Inr (out', cap', inp', z', w') \<Longrightarrow> members rel decode input out' inp' z'"
proof -
  obtain ms fed gave where ms: "input = concat ms @ fed @ inp" "list_all (\<lambda>m. decode m \<noteq> None) ms"
    "out = concat (map (\<lambda>m. the (decode m)) ms) @ gave" "rel z fed gave"
    using m by (auto simp: members_def)
  have call: "(r = Inl (Inr (True, out', w')) \<longrightarrow> decoded decode input mode out') \<and>
      (r = Inr (out', cap', inp', z', w') \<longrightarrow> members rel decode input out' inp' z')"
    if r: "r = after_inflate Z mode limit out c inp v (z_inflate Z z inp n)" for r c v n
  proof -
    obtain rc used produced y msg where z: "z_inflate Z z inp n = (rc, used, produced, y, msg)"
      by (cases "z_inflate Z z inp n") auto
    note D = zlib_decodesD [OF d ms(4) z]
    have i: "input = concat ms @ (fed @ take used inp) @ drop used inp" using ms(1) by simp
    have ended: "rc = Z_STREAM_END \<Longrightarrow> input = concat (ms @ [fed @ take used inp]) @ drop used inp \<and>
        list_all (\<lambda>m. decode m \<noteq> None) (ms @ [fed @ take used inp]) \<and>
        out @ produced = concat (map (\<lambda>m. the (decode m)) (ms @ [fed @ take used inp]))"
      using D(2) ms by simp
    have "decoded decode input mode (out @ produced)" if "rc = Z_STREAM_END" "mode = 0 \<Longrightarrow> drop used inp = []"
      using ended that unfolding decoded_def by blast
    moreover have "members rel decode input (out @ produced) (drop used inp) y'" if "rc = Z_STREAM_END" "z_reset Z y = Some y'" for y'
    proof -
      have "rel y' [] []" using that(2) d unfolding zlib_decodes_def is_fresh_def by blast
      with ended [OF that(1)] show ?thesis unfolding members_def
        by (intro exI [of _ "ms @ [fed @ take used inp]"] exI [of _ "[]"]) simp
    qed
    moreover have "members rel decode input (out @ produced) (drop used inp) y" if "rc \<in> {Z_OK, Z_BUF_ERROR}"
      using D(1) that i ms(2,3) unfolding members_def
      by (intro exI [of _ ms] exI [of _ "fed @ take used inp"] exI [of _ "gave @ produced"]) auto
    ultimately show ?thesis
      unfolding r z after_inflate_def Let_def prod.case by (auto split: if_splits option.splits)
  qed
  have "(inflate_body Z alloc_ok mode limit out cap inp z w = Inl (Inr (True, out', w')) \<longrightarrow> decoded decode input mode out') \<and>
      (inflate_body Z alloc_ok mode limit out cap inp z w = Inr (out', cap', inp', z', w') \<longrightarrow> members rel decode input out' inp' z')"
    by (rule body_call [OF inv l, where Z = Z and alloc_ok = alloc_ok and mode = mode and inp = inp and z = z]) (use call in \<open>auto simp: inflate_failed_def\<close>)
  then show "inflate_body Z alloc_ok mode limit out cap inp z w = Inl (Inr (True, out', w')) \<Longrightarrow> decoded decode input mode out'"
    and "inflate_body Z alloc_ok mode limit out cap inp z w = Inr (out', cap', inp', z', w') \<Longrightarrow> members rel decode input out' inp' z'"
    by blast+
qed

lemma loop_decodes:
  assumes "loop_inv limit out cap w" and l: "0 \<le> limit" "limit \<le> INT64_MAX" and "zlib_bounded Z" and "zlib_progress Z"
    and d: "zlib_decodes Z rel decode" and "members rel decode input out inp z"
    and "inflate_loop Z alloc_ok mode limit out cap inp z w = Some (Inr (True, out', w'))"
  shows "decoded decode input mode out'"
  using assms(1,7,8)
proof (induction "work_left Z limit out inp z" arbitrary: out cap inp z w rule: less_induct)
  case less
  note body = body_returns [OF less.prems(1) l assms(4,5), where alloc_ok = alloc_ok and mode = mode and inp = inp and z = z]
    and dec = body_decodes [OF less.prems(1) l d less.prems(2), where alloc_ok = alloc_ok and mode = mode]
  show ?case
  proof (cases "inflate_body Z alloc_ok mode limit out cap inp z w")
    case (Inl r)
    then show ?thesis using less.prems(3) dec(1) by (subst (asm) inflate_loop.simps) simp
  next
    case (Inr x)
    obtain out1 cap1 inp1 z1 w1 where x: "x = (out1, cap1, inp1, z1, w1)" by (cases x)
    have "inflate_loop Z alloc_ok mode limit out1 cap1 inp1 z1 w1 = Some (Inr (True, out', w'))"
      using less.prems(3) Inr x by (subst (asm) inflate_loop.simps) simp
    then show ?thesis using less.hyps [of out1 inp1 z1 cap1 w1] body dec(2) Inr x by simp
  qed
qed

section \<open>The whole call\<close>

definition in_range :: "int \<Rightarrow> bool" where
  "in_range max_output \<longleftrightarrow> 0 \<le> max_output \<and> max_output \<le> INT64_MAX"

text \<open>The three ways the call can go.\<close>

lemma kod_inflate_cases:
  assumes "in_range max_output" and "asked w = []"
  obtains (no_stream) "kod_inflate Z alloc_ok input mode max_output w = Some (inflate_failed 3 (Some (bytes_of ''out of memory'')) w)"
  | (no_buffer) cap where "cap \<le> max_output + 1" "kod_inflate Z alloc_ok input mode max_output w =
      Some (inflate_failed 3 (Some (bytes_of ''out of memory'')) (w\<lparr>asked := [cap]\<rparr>))"
  | (loop) cap w1 z where "loop_inv max_output [] cap w1" "out_bufs w1 = out_bufs w + 1" "streams w1 = streams w + 1"
      "is_fresh Z z" "kod_inflate Z alloc_ok input mode max_output w =
        map_option inflate_finish (inflate_loop Z alloc_ok mode max_output [] cap (avail_input input) z w1)"
proof -
  have wrap: "size_wrap max_output = max_output" using assms(1) by (simp add: size_wrap_def in_range_def INT64_MAX_def)
  have cap: "0 < start_cap max_output" "start_cap max_output \<le> max_output + 1"
    using assms(1) by (auto simp: start_cap_def in_range_def)
  let ?w = "w\<lparr>streams := streams w + 1, asked := [start_cap max_output], out_bufs := out_bufs w + 1\<rparr>"
  show thesis
  proof (cases "z_init Z (window_bits mode)")
    case None
    then show thesis using no_stream by (simp add: kod_inflate_def)
  next
    case (Some z)
    show thesis
    proof (cases "alloc_ok (start_cap max_output)")
      case True
      have "loop_inv max_output [] (start_cap max_output) ?w" using cap assms(1) by (simp add: loop_inv_def in_range_def)
      moreover have "is_fresh Z z" using Some unfolding is_fresh_def by blast
      ultimately show thesis using loop [of "start_cap max_output" ?w z] Some True assms(2) by (simp add: kod_inflate_def wrap Let_def)
    next
      case False
      then show thesis using no_buffer [of "start_cap max_output"] Some cap(2) assms(2)
        by (simp add: kod_inflate_def wrap Let_def inflate_end_def)
    qed
  qed
qed

text \<open>Of an input of 4 GiB or more only the length modulo \<open>2 ^ 32\<close> is read.\<close>

lemma kod_inflate_truncates_input:
  "kod_inflate Z alloc_ok input mode max_output w = kod_inflate Z alloc_ok (avail_input input) mode max_output w"
proof -
  have "avail_input (avail_input input) = avail_input input" by (simp add: avail_input_def min_def)
  then show ?thesis by (simp only: kod_inflate_def)
qed

text \<open>
  A zlib that meets the assumptions, for a format of one length byte and that many literal bytes. It
  takes one byte of input at a time; its state is the number of literals to come.
\<close>

fun toy_inflate :: "nat option \<Rightarrow> byte list \<Rightarrow> nat \<Rightarrow> zrc \<times> nat \<times> byte list \<times> nat option \<times> byte list option" where
  "toy_inflate z [] n = (Z_BUF_ERROR, 0, [], z, None)"
| "toy_inflate z (b # bs) 0 = (Z_OTHER, 0, [], z, None)"
| "toy_inflate None (b # bs) (Suc n) = (if b = 0 then (Z_STREAM_END, 1, [], Some 0, None) else (Z_OK, 1, [], Some (unat b), None))"
| "toy_inflate (Some 0) (b # bs) (Suc n) = (Z_OTHER, 0, [], Some 0, None)"
| "toy_inflate (Some (Suc k)) (b # bs) (Suc n) = (if k = 0 then Z_STREAM_END else Z_OK, 1, [b], Some k, None)"

definition toy :: "nat option zlib" where
  "toy = \<lparr>z_init = (\<lambda>_. Some None), z_reset = (\<lambda>_. Some None), z_inflate = toy_inflate\<rparr>"

fun toy_decode :: "byte list \<Rightarrow> byte list option" where
  "toy_decode [] = None"
| "toy_decode (b # bs) = (if length bs = unat b then Some bs else None)"

fun toy_rel :: "nat option \<Rightarrow> byte list \<Rightarrow> byte list \<Rightarrow> bool" where
  "toy_rel None fed gave \<longleftrightarrow> fed = [] \<and> gave = []"
| "toy_rel (Some k) fed gave \<longleftrightarrow> (\<exists>b. fed = b # gave \<and> length gave + k = unat b)"

lemma toy_ok: "zlib_bounded toy" "zlib_progress toy" "zlib_decodes toy toy_rel toy_decode"
proof -
  have "toy_inflate z inp n = (rc, used, produced, z', msg) \<Longrightarrow> used \<le> length inp \<and> length produced \<le> n \<and>
      (0 < n \<longrightarrow> (rc = Z_OK \<or> rc = Z_STREAM_END \<longrightarrow> 0 < used + length produced) \<and> (rc = Z_BUF_ERROR \<longrightarrow> inp = []))"
    for z inp n rc used produced z' msg
    by (cases "(z, inp, n)" rule: toy_inflate.cases) (auto split: if_splits)
  then show "zlib_bounded toy" "zlib_progress toy"
    unfolding zlib_bounded_def zlib_progress_def by (simp_all add: toy_def) blast+
  have a: "toy_rel z fed gave \<and> z_inflate toy z inp n = (rc, used, produced, z', msg) \<longrightarrow>
     (rc \<in> {Z_OK, Z_STREAM_END, Z_BUF_ERROR} \<longrightarrow> toy_rel z' (fed @ take used inp) (gave @ produced)) \<and>
     (rc = Z_STREAM_END \<longrightarrow> toy_decode (fed @ take used inp) = Some (gave @ produced))"
    for z inp n rc used produced z' msg fed gave
    by (cases "(z, inp, n)" rule: toy_inflate.cases) (auto simp: toy_def split: if_splits)
  have f: "is_fresh toy z \<longrightarrow> toy_rel z [] []" for z by (auto simp: is_fresh_def toy_def)
  show "zlib_decodes toy toy_rel toy_decode"
    unfolding zlib_decodes_def by (intro conjI allI) (rule f, rule a)
qed

definition idle :: inflate_state where
  "idle = \<lparr>g_status = 0, g_message = [], out_bufs = 0, streams = 0, asked = []\<rparr>"

section \<open>Properties\<close>

text \<open>
  C17. Decompression always returns, whatever the input. The result has at most \<open>max_output\<close> bytes;
  the status is 0, or 1, 2 or 3 with an empty result; no buffer is ever larger than one byte more
  than the limit; and the stream and the buffer are released exactly once on every path.
\<close>

theorem kod_inflate_bounded:
  assumes "in_range max_output" and "zlib_bounded Z" and "zlib_progress Z" and "asked w = []"
  shows "\<exists>out w'. kod_inflate Z alloc_ok input mode max_output w = Some (out, w') \<and>
    int (length out) \<le> max_output \<and> kod_inflate_status w' \<in> {0, 1, 2, 3} \<and> (kod_inflate_status w' \<noteq> 0 \<longrightarrow> out = []) \<and>
    out_bufs w' = out_bufs w \<and> streams w' = streams w \<and> list_all (\<lambda>n. n \<le> max_output + 1) (asked w')"
proof (rule kod_inflate_cases [OF assms(1,4), where Z = Z and alloc_ok = alloc_ok and input = input and mode = mode])
  fix cap w1 z
  assume w1: "loop_inv max_output [] cap w1" "out_bufs w1 = out_bufs w + 1" "streams w1 = streams w + 1"
    and e: "kod_inflate Z alloc_ok input mode max_output w =
      map_option inflate_finish (inflate_loop Z alloc_ok mode max_output [] cap (avail_input input) z w1)"
  obtain r where r: "inflate_loop Z alloc_ok mode max_output [] cap (avail_input input) z w1 = Some r" "exit_ok max_output w1 r"
    using loop_returns [OF w1(1) _ _ assms(2,3)] assms(1) unfolding in_range_def by blast
  show ?thesis
  proof (cases r)
    case (Inl res)
    then show ?thesis using r w1 e assms(1) by (cases res) (auto simp: kod_inflate_status_def in_range_def)
  next
    case (Inr x)
    obtain ended out w2 where "x = (ended, out, w2)" by (cases x)
    then show ?thesis
      using r w1 e assms(1) Inr by (cases ended)
        (auto simp: inflate_failed_def inflate_end_def free_out_def same_resources_def kod_inflate_status_def in_range_def)
  qed
qed (use assms(1,4) in \<open>auto simp: inflate_failed_def kod_inflate_status_def in_range_def\<close>)

theorem kod_inflate_bounded_witness:
  "\<exists>out w'. kod_inflate toy (\<lambda>_. True) [2, 65, 66, 1, 67] 0 2 idle = Some (out, w') \<and> length out \<le> 2 \<and> streams w' = 0"
  using kod_inflate_bounded [OF _ toy_ok(1,2), of 2 idle "\<lambda>_. True" "[2, 65, 66, 1, 67]" 0]
  by (auto simp: in_range_def INT64_MAX_def idle_def)

text \<open>
  C18. A success is a decompression: the output is what the members of the input decode to, in order,
  for gzip all of the input, for the other formats one stream at its start.
\<close>

theorem kod_inflate_decodes:
  assumes "in_range max_output" and "zlib_bounded Z" and "zlib_progress Z" and "zlib_decodes Z rel decode"
    and "length input < 4294967296" and "asked w = []"
    and "kod_inflate Z alloc_ok input mode max_output w = Some (out, w')" and "kod_inflate_status w' = 0"
  shows "decoded decode input mode out"
proof (rule kod_inflate_cases [OF assms(1,6), where Z = Z and alloc_ok = alloc_ok and input = input and mode = mode])
  fix cap w1 z
  assume w1: "loop_inv max_output [] cap w1" "is_fresh Z z"
    and e: "kod_inflate Z alloc_ok input mode max_output w =
      map_option inflate_finish (inflate_loop Z alloc_ok mode max_output [] cap (avail_input input) z w1)"
  have lim: "0 \<le> max_output" "max_output \<le> INT64_MAX" using assms(1) by (simp_all add: in_range_def)
  obtain r where r: "inflate_loop Z alloc_ok mode max_output [] cap (avail_input input) z w1 = Some r" "exit_ok max_output w1 r"
    using loop_returns [OF w1(1) lim assms(2,3)] by blast
  have f: "inflate_finish r = (out, w')" using e r(1) assms(7) by simp
  obtain w2 where w2: "r = Inr (True, out, w2)"
  proof (cases r)
    case (Inl res)
    then show thesis using r f assms(8) by (cases res) (auto simp: kod_inflate_status_def)
  next
    case (Inr x)
    obtain ended o2 w2 where "x = (ended, o2, w2)" by (cases x)
    then show thesis using f assms(8) that Inr
      by (cases ended) (auto simp: kod_inflate_status_def inflate_failed_def Let_def)
  qed
  have "avail_input input = input" using assms(5) by (simp add: avail_input_def)
  moreover have "rel z [] []" using assms(4) w1(2) unfolding zlib_decodes_def by blast
  then have "members rel decode input [] input z"
    unfolding members_def by (intro exI [of _ "[]"]) simp
  ultimately show ?thesis using loop_decodes [OF w1(1) lim assms(2-4)] r(1) w2 by simp
qed (use assms(7,8) in \<open>auto simp: inflate_failed_def kod_inflate_status_def\<close>)

theorem kod_inflate_decodes_witness:
  "\<exists>w'. kod_inflate toy (\<lambda>_. True) [2, 65, 66] 1 10 idle = Some ([65, 66], w') \<and> decoded toy_decode [2, 65, 66] 1 [65, 66]"
proof -
  have "unat (2 :: byte) = 2" by simp
  then have u: "unat (2 :: byte) = Suc (Suc 0)" by linarith
  have "toy_inflate None [2, 65, 66] 11 = (Z_OK, 1, [], Some (Suc (Suc 0)), None)"
    "toy_inflate (Some (Suc (Suc 0))) [65, 66] 11 = (Z_OK, 1, [65], Some (Suc 0), None)"
    "toy_inflate (Some (Suc 0)) [66] 10 = (Z_STREAM_END, 1, [66], Some 0, None)"
    using toy_inflate.simps(3) [of 2 "[65, 66]" 10] toy_inflate.simps(5) [of "Suc 0" 65 "[66]" 10]
      toy_inflate.simps(5) [of 0 66 "[]" 9] unfolding u by simp_all
  then have "\<exists>w'. kod_inflate toy (\<lambda>_. True) [2, 65, 66] 1 10 idle = Some ([65, 66], w') \<and> kod_inflate_status w' = 0"
    by (simp add: kod_inflate_def toy_def size_wrap_def start_cap_def window_bits_def avail_input_def
        inflate_loop.simps [of _ _ _ _ _ _ "_ # _"] inflate_body_def after_inflate_def Let_def
        idle_def kod_inflate_status_def inflate_end_def free_out_def)
  then obtain w' where w': "kod_inflate toy (\<lambda>_. True) [2, 65, 66] 1 10 idle = Some ([65, 66], w')" "kod_inflate_status w' = 0"
    by blast
  then show ?thesis
    using kod_inflate_decodes [OF _ toy_ok _ _ w'(1,2)] by (simp add: in_range_def INT64_MAX_def idle_def)
qed

end
