(* ===== verification/Kod_Tcp.thy ===== *)
theory Kod_Tcp
  imports Kod_OS
begin

text \<open>
  \<open>src/stdlib/net/tcp.c\<close>: connecting, listening, accepting and the socket options.

  The kernel answers as in \<open>Kod_OS\<close>. \<open>fds\<close> are the descriptors the kernel has open for the process on
  behalf of these calls, the last one first, and \<open>addr_lists\<close> counts the lists of \<open>getaddrinfo\<close> that
  have not been freed. The resolver is a parameter: for a host (\<open>None\<close> for NULL), a service, an address
  family and the passive flag it gives the addresses, a resolver error with its message, or a system
  error.
\<close>

section \<open>State and parameters\<close>

record addrinfo =
  ai_family :: int
  ai_socktype :: int
  ai_protocol :: int
  ai_addr :: "byte list"

datatype gai_result = Addrs "addrinfo list" | Gai_Error "byte list" | Gai_System int

type_synonym resolver = "byte list option \<Rightarrow> byte list \<Rightarrow> int \<Rightarrow> bool \<Rightarrow> gai_result"

record tcp = io +
  fds :: "int list"
  addr_lists :: int
  g_gai_message :: "byte list"

definition AF_UNSPEC :: int where "AF_UNSPEC = 0"
definition AF_INET :: int where "AF_INET = 2"
definition AF_INET6 :: int where "AF_INET6 = 30"
definition F_SETFD :: int where "F_SETFD = 2"
definition F_GETFL :: int where "F_GETFL = 3"
definition F_SETFL :: int where "F_SETFL = 4"
definition FD_CLOEXEC :: int where "FD_CLOEXEC = 1"
definition O_NONBLOCK :: int where "O_NONBLOCK = 4"
definition SOL_SOCKET :: int where "SOL_SOCKET = 65535"
definition SO_REUSEADDR :: int where "SO_REUSEADDR = 4"
definition SO_NOSIGPIPE :: int where "SO_NOSIGPIPE = 4130"
definition SO_SNDTIMEO :: int where "SO_SNDTIMEO = 4101"
definition SO_RCVTIMEO :: int where "SO_RCVTIMEO = 4102"
definition IPPROTO_TCP :: int where "IPPROTO_TCP = 6"
definition TCP_NODELAY :: int where "TCP_NODELAY = 1"
definition POLLOUT :: int where "POLLOUT = 4"

section \<open>Calls\<close>

text \<open>A call whose result the code does not look at.\<close>

definition ignore_call :: "syscall \<Rightarrow> 'a tcp_scheme \<Rightarrow> 'a tcp_scheme option" where
  "ignore_call c w = map_option snd (call c w)"

text \<open>A new descriptor from \<open>socket\<close> or \<open>accept\<close>: the kernel opens it.\<close>

fun new_fd :: "answer \<times> 'a tcp_scheme \<Rightarrow> ((int + int) \<times> 'a tcp_scheme) option" where
  "new_fd (Ret fd, w) = (if fd < 0 then None else Some (Inr fd, w\<lparr>fds := fd # fds w\<rparr>))"
| "new_fd (Fail e, w) = Some (Inl e, w)"
| "new_fd _ = None"

definition close_fd :: "int \<Rightarrow> 'a tcp_scheme \<Rightarrow> 'a tcp_scheme option" where
  "close_fd fd w = do { w \<leftarrow> ignore_call (Close fd) w; Some (w\<lparr>fds := remove1 fd (fds w)\<rparr>) }"

section \<open>Operations\<close>

definition kod_tcp_gai_message :: "'a tcp_scheme \<Rightarrow> byte list" where
  "kod_tcp_gai_message w = c_str (g_gai_message w)"

definition tcp_fail :: "int \<Rightarrow> 'a tcp_scheme \<Rightarrow> int \<times> 'a tcp_scheme" where
  "tcp_fail err w = (-1, kod_io_set_errno err w)"

definition resolve :: "resolver \<Rightarrow> byte list option \<Rightarrow> int \<Rightarrow> int \<Rightarrow> bool \<Rightarrow> 'a tcp_scheme \<Rightarrow>
    addrinfo list option \<times> 'a tcp_scheme" where
  "resolve gai host port family passive w =
     (let service = take 15 (dec_int port);
          w = w\<lparr>g_gai_message := []\<rparr>
      in case gai (map_option c_str host) service family passive of
           Gai_System e \<Rightarrow> (None, snd (tcp_fail e w))
         | Gai_Error msg \<Rightarrow> (None, kod_io_set_errno 0 (w\<lparr>g_gai_message := take 255 (c_str msg)\<rparr>))
         | Addrs list \<Rightarrow> if list = [] then (None, w) else (Some list, w\<lparr>addr_lists := addr_lists w + 1\<rparr>))"

definition freeaddrinfo :: "'a tcp_scheme \<Rightarrow> 'a tcp_scheme" where
  "freeaddrinfo w = w\<lparr>addr_lists := addr_lists w - 1\<rparr>"

definition new_socket :: "addrinfo \<Rightarrow> 'a tcp_scheme \<Rightarrow> ((int + int) \<times> 'a tcp_scheme) option" where
  "new_socket ai w = do {
     r \<leftarrow> call (Socket (ai_family ai) (ai_socktype ai) (ai_protocol ai)) w;
     (s, w) \<leftarrow> new_fd r;
     case s of
       Inl e \<Rightarrow> Some (Inl e, w)
     | Inr fd \<Rightarrow> do {
         w \<leftarrow> ignore_call (Fcntl fd F_SETFD FD_CLOEXEC) w;
         w \<leftarrow> ignore_call (Setsockopt fd SOL_SOCKET SO_NOSIGPIPE [1]) w;
         Some (Inr fd, w)
       }
   }"

text \<open>0 or an error number. The flags are what \<open>F_GETFL\<close> returned, -1 when it failed.\<close>

definition wait_connected :: "int \<Rightarrow> int \<Rightarrow> 'a tcp_scheme \<Rightarrow> (int \<times> 'a tcp_scheme) option" where
  "wait_connected fd timeout_ms w = do {
     (a, w) \<leftarrow> retry (Poll [(fd, POLLOUT)] (if timeout_ms > 2147483647 then 2147483647 else c_int timeout_ms)) w;
     case a of
       Fail e \<Rightarrow> Some (e, w)
     | Ret ready \<Rightarrow>
         if ready = 0 then Some (ETIMEDOUT, w)
         else do {
           (a, w) \<leftarrow> call (Getsockopt_Error fd) w;
           case a of Fail e \<Rightarrow> Some (e, w) | Ret err \<Rightarrow> Some (err, w) | _ \<Rightarrow> None
         }
     | _ \<Rightarrow> None
   }"

definition connect_within :: "int \<Rightarrow> addrinfo \<Rightarrow> int \<Rightarrow> 'a tcp_scheme \<Rightarrow> (int \<times> 'a tcp_scheme) option" where
  "connect_within fd ai timeout_ms w = do {
     (a, w) \<leftarrow> call (Fcntl fd F_GETFL 0) w;
     flags \<leftarrow> (case a of Ret f \<Rightarrow> Some f | Fail _ \<Rightarrow> Some (-1) | _ \<Rightarrow> None);
     w \<leftarrow> ignore_call (Fcntl fd F_SETFL (flags OR O_NONBLOCK)) w;
     (a, w) \<leftarrow> call (Connect fd (ai_addr ai)) w;
     (err, w) \<leftarrow> (case a of
        Ret _ \<Rightarrow> Some (0, w)
      | Fail e \<Rightarrow> if e \<noteq> EINPROGRESS \<and> e \<noteq> EINTR then Some (e, w) else wait_connected fd timeout_ms w
      | _ \<Rightarrow> None);
     if err \<noteq> 0 then Some (err, w)
     else do {
       w \<leftarrow> ignore_call (Fcntl fd F_SETFL flags) w;
       Some (0, w)
     }
   }"

fun connect_loop :: "addrinfo list \<Rightarrow> int \<Rightarrow> int \<Rightarrow> 'a tcp_scheme \<Rightarrow> (int \<times> 'a tcp_scheme) option" where
  "connect_loop [] timeout_ms lst w = Some (tcp_fail lst (freeaddrinfo w))"
| "connect_loop (ai # ais) timeout_ms lst w = do {
     (s, w) \<leftarrow> new_socket ai w;
     case s of
       Inl e \<Rightarrow> connect_loop ais timeout_ms e w
     | Inr fd \<Rightarrow> do {
         (err, w) \<leftarrow> connect_within fd ai timeout_ms w;
         if err = 0 then do {
           w \<leftarrow> ignore_call (Setsockopt fd IPPROTO_TCP TCP_NODELAY [1]) w;
           Some (fd, kod_io_set_errno 0 (freeaddrinfo w))
         } else do {
           w \<leftarrow> close_fd fd w;
           connect_loop ais timeout_ms err w
         }
       }
   }"

definition kod_tcp_connect :: "resolver \<Rightarrow> byte list \<Rightarrow> int \<Rightarrow> int \<Rightarrow> 'a tcp_scheme \<Rightarrow> (int \<times> 'a tcp_scheme) option" where
  "kod_tcp_connect gai host port timeout_ms w =
     (case resolve gai (Some host) port AF_UNSPEC False w of
        (None, w) \<Rightarrow> Some (-1, w)
      | (Some list, w) \<Rightarrow> connect_loop list timeout_ms ECONNREFUSED w)"

text \<open>\<open>bind(...) == 0 && listen(...) == 0\<close>: 0, or the error of the call that failed.\<close>

definition bind_listen :: "int \<Rightarrow> addrinfo \<Rightarrow> int \<Rightarrow> 'a tcp_scheme \<Rightarrow> (int \<times> 'a tcp_scheme) option" where
  "bind_listen fd ai backlog w = do {
     (a, w) \<leftarrow> call (Bind fd (ai_addr ai)) w;
     case a of
       Fail e \<Rightarrow> Some (e, w)
     | Ret _ \<Rightarrow> do {
         (a, w) \<leftarrow> call (Listen fd (c_int backlog)) w;
         case a of Fail e \<Rightarrow> Some (e, w) | Ret _ \<Rightarrow> Some (0, w) | _ \<Rightarrow> None
       }
     | _ \<Rightarrow> None
   }"

fun listen_loop :: "addrinfo list \<Rightarrow> int \<Rightarrow> int \<Rightarrow> 'a tcp_scheme \<Rightarrow> (int \<times> 'a tcp_scheme) option" where
  "listen_loop [] backlog lst w = Some (tcp_fail lst (freeaddrinfo w))"
| "listen_loop (ai # ais) backlog lst w = do {
     (s, w) \<leftarrow> new_socket ai w;
     case s of
       Inl e \<Rightarrow> listen_loop ais backlog e w
     | Inr fd \<Rightarrow> do {
         w \<leftarrow> ignore_call (Setsockopt fd SOL_SOCKET SO_REUSEADDR [1]) w;
         (err, w) \<leftarrow> bind_listen fd ai backlog w;
         if err = 0 then Some (fd, kod_io_set_errno 0 (freeaddrinfo w))
         else do {
           w \<leftarrow> close_fd fd w;
           listen_loop ais backlog err w
         }
       }
   }"

definition kod_tcp_listen :: "resolver \<Rightarrow> byte list \<Rightarrow> int \<Rightarrow> int \<Rightarrow> 'a tcp_scheme \<Rightarrow> (int \<times> 'a tcp_scheme) option" where
  "kod_tcp_listen gai host port backlog w =
     (let any = (host = [])
      in case resolve gai (if any then None else Some host) port (if any then AF_INET else AF_UNSPEC) True w of
           (None, w) \<Rightarrow> Some (-1, w)
         | (Some list, w) \<Rightarrow> listen_loop list backlog EADDRNOTAVAIL w)"

definition kod_tcp_accept :: "int \<Rightarrow> 'a tcp_scheme \<Rightarrow> (int \<times> 'a tcp_scheme) option" where
  "kod_tcp_accept fd w = do {
     r \<leftarrow> retry (Accept (c_int fd)) w;
     (s, w) \<leftarrow> new_fd r;
     case s of
       Inl e \<Rightarrow> Some (tcp_fail e w)
     | Inr c \<Rightarrow> do {
         w \<leftarrow> ignore_call (Fcntl c F_SETFD FD_CLOEXEC) w;
         w \<leftarrow> ignore_call (Setsockopt c SOL_SOCKET SO_NOSIGPIPE [1]) w;
         w \<leftarrow> ignore_call (Setsockopt c IPPROTO_TCP TCP_NODELAY [1]) w;
         Some (c, kod_io_set_errno 0 w)
       }
   }"

text \<open>\<open>getsockname\<close> answers with the family and the port as it stands in the address, big endian.\<close>

definition ntohs :: "int \<Rightarrow> int" where
  "ntohs p = (p mod 256) * 256 + (p div 256) mod 256"

definition kod_tcp_port :: "int \<Rightarrow> 'a tcp_scheme \<Rightarrow> (int \<times> 'a tcp_scheme) option" where
  "kod_tcp_port fd w = do {
     (a, w) \<leftarrow> call (Getsockname (c_int fd)) w;
     case a of
       Fail e \<Rightarrow> Some (tcp_fail e w)
     | Pair ss_family port \<Rightarrow>
         (let w = kod_io_set_errno 0 w
          in if ss_family = AF_INET6 then Some (ntohs port, w) else Some (ntohs port, w))
     | _ \<Rightarrow> None
   }"

definition kod_tcp_set_timeout :: "int \<Rightarrow> int \<Rightarrow> 'a tcp_scheme \<Rightarrow> (int \<times> 'a tcp_scheme) option" where
  "kod_tcp_set_timeout fd ms w = do {
     let tv = [c_quot ms 1000, c_rem ms 1000 * 1000];
     (a, w) \<leftarrow> call (Setsockopt (c_int fd) SOL_SOCKET SO_RCVTIMEO tv) w;
     case a of
       Fail e \<Rightarrow> Some (tcp_fail e w)
     | Ret _ \<Rightarrow> do {
         (a, w) \<leftarrow> call (Setsockopt (c_int fd) SOL_SOCKET SO_SNDTIMEO tv) w;
         case a of
           Fail e \<Rightarrow> Some (tcp_fail e w)
         | Ret _ \<Rightarrow> Some (0, kod_io_set_errno 0 w)
         | _ \<Rightarrow> None
       }
     | _ \<Rightarrow> None
   }"

definition kod_tcp_idle :: "int \<Rightarrow> 'a tcp_scheme \<Rightarrow> (int \<times> 'a tcp_scheme) option" where
  "kod_tcp_idle fd w = do {
     (a, w) \<leftarrow> retry (Poll [(c_int fd, POLLIN)] 0) w;
     case a of Ret ready \<Rightarrow> Some (if ready = 0 then 1 else 0, w) | Fail _ \<Rightarrow> Some (0, w) | _ \<Rightarrow> None
   }"

section \<open>Descriptors\<close>

text \<open>Calls that open and close nothing.\<close>

definition keeps :: "'a tcp_scheme \<Rightarrow> 'a tcp_scheme \<Rightarrow> bool" where
  "keeps w w' \<longleftrightarrow> fds w' = fds w \<and> addr_lists w' = addr_lists w"

lemma keeps_simps [simp]: "keeps w w" "keeps w (kod_io_set_errno e w') \<longleftrightarrow> keeps w w'"
  by (simp_all add: keeps_def kod_io_set_errno_def)

lemma call_keeps: "call c w = Some (a, w') \<Longrightarrow> keeps w w'"
  by (erule call_cases) (simp add: keeps_def)

lemma ignore_keeps: "ignore_call c w = Some w' \<Longrightarrow> keeps w w'"
  by (auto simp: ignore_call_def dest!: call_keeps)

lemma retry_keeps: "retry c w = Some (a, w') \<Longrightarrow> keeps w w'"
  by (erule retry_cases) (simp add: keeps_def)

lemmas keeps_rules = call_keeps ignore_keeps retry_keeps

lemma new_fd_opens:
  "new_fd (a, w) = Some (r, w') \<Longrightarrow> (case r of Inl e \<Rightarrow> w' = w | Inr fd \<Rightarrow> 0 \<le> fd \<and> w' = w\<lparr>fds := fd # fds w\<rparr>)"
  by (cases "(a, w)" rule: new_fd.cases) (auto split: if_splits)

lemma new_socket_opens:
  assumes "new_socket ai w = Some (r, w')"
  shows "addr_lists w' = addr_lists w \<and> (case r of Inl e \<Rightarrow> fds w' = fds w | Inr fd \<Rightarrow> 0 \<le> fd \<and> fds w' = fd # fds w)"
proof -
  obtain a w1 s w2 where a: "call (Socket (ai_family ai) (ai_socktype ai) (ai_protocol ai)) w = Some (a, w1)"
    "new_fd (a, w1) = Some (s, w2)"
    using assms by (auto simp: new_socket_def split: Option.bind_splits)
  have k: "keeps w w1" using call_keeps [OF a(1)] .
  show ?thesis
  proof (cases s)
    case (Inl e)
    then show ?thesis using assms a new_fd_opens [OF a(2)] k by (auto simp: new_socket_def keeps_def)
  next
    case (Inr fd)
    obtain w3 where w3: "ignore_call (Fcntl fd F_SETFD FD_CLOEXEC) w2 = Some w3"
      "ignore_call (Setsockopt fd SOL_SOCKET SO_NOSIGPIPE [1]) w3 = Some w'" "r = Inr fd"
      using assms a Inr by (auto simp: new_socket_def split: Option.bind_splits)
    then show ?thesis
      using new_fd_opens [OF a(2)] k Inr ignore_keeps [OF w3(1)] ignore_keeps [OF w3(2)] by (simp add: keeps_def)
  qed
qed

lemma wait_keeps: "wait_connected fd t w = Some (e, w') \<Longrightarrow> keeps w w'"
  by (auto simp: wait_connected_def split: Option.bind_splits answer.splits if_splits
      dest!: keeps_rules) (simp_all add: keeps_def)

lemma connect_within_keeps: "connect_within fd ai t w = Some (e, w') \<Longrightarrow> keeps w w'"
  by (auto simp: connect_within_def split: Option.bind_splits answer.splits if_splits
      dest!: keeps_rules wait_keeps) (simp_all add: keeps_def)

lemma bind_listen_keeps: "bind_listen fd ai b w = Some (e, w') \<Longrightarrow> keeps w w'"
  by (auto simp: bind_listen_def split: Option.bind_splits answer.splits if_splits
      dest!: keeps_rules) (simp_all add: keeps_def)

lemma close_fd_closes:
  "close_fd fd w = Some w' \<Longrightarrow> fds w = fd # rest \<Longrightarrow> fds w' = rest \<and> addr_lists w' = addr_lists w"
  by (auto simp: close_fd_def keeps_def split: Option.bind_splits dest!: ignore_keeps)

text \<open>
  The contract of a call that opens a descriptor for its caller: a failure leaves nothing open, a
  success exactly the descriptor it returns and error number 0, and no address list is left over.
\<close>

definition opens_one :: "'a tcp_scheme \<Rightarrow> int \<Rightarrow> 'a tcp_scheme \<Rightarrow> bool" where
  "opens_one w r w' \<longleftrightarrow> (if r = -1 then fds w' = fds w else 0 \<le> r \<and> fds w' = r # fds w \<and> g_io_errno w' = 0)"

locale fd_source =
  fixes opr :: "'x \<Rightarrow> 'a tcp_scheme \<Rightarrow> (int \<times> 'a tcp_scheme) option"
  assumes opens: "opr x w = Some (r, w') \<Longrightarrow> opens_one w r w' \<and> addr_lists w' = addr_lists w"
begin

fun open_all :: "'x list \<Rightarrow> 'a tcp_scheme \<Rightarrow> (int list \<times> 'a tcp_scheme) option" where
  "open_all [] w = Some ([], w)"
| "open_all (x # xs) w = do {
     (r, w) \<leftarrow> opr x w;
     (rs, w) \<leftarrow> open_all xs w;
     Some (r # rs, w)
   }"

lemma open_all_accounts:
  "open_all xs w = Some (rs, w') \<Longrightarrow> fds w' = rev (filter (\<lambda>r. r \<noteq> -1) rs) @ fds w \<and> addr_lists w' = addr_lists w"
proof (induction xs arbitrary: w rs)
  case (Cons x xs)
  then obtain r w1 rs1 where s: "opr x w = Some (r, w1)" "open_all xs w1 = Some (rs1, w')" "rs = r # rs1"
    by (auto split: Option.bind_splits)
  from Cons.IH [OF s(2)] opens [OF s(1)] s(3) show ?case by (auto simp: opens_one_def)
qed simp

end

lemma loop_step_failed:
  assumes "opens_one w2 r w'" and "fds w2 = fds w"
  shows "opens_one w r w'"
  using assms by (simp add: opens_one_def)

lemma freed_fields [simp]:
  "fds (freeaddrinfo w) = fds w" "addr_lists (freeaddrinfo w) = addr_lists w - 1"
  "fds (kod_io_set_errno e w) = fds w" "addr_lists (kod_io_set_errno e w) = addr_lists w"
  "g_io_errno (kod_io_set_errno e w) = e"
  by (simp_all add: freeaddrinfo_def kod_io_set_errno_def)

lemma connect_loop_opens:
  "connect_loop ais t lst w = Some (r, w') \<Longrightarrow> opens_one w r w' \<and> addr_lists w' = addr_lists w - 1"
proof (induction ais arbitrary: lst w)
  case Nil
  then show ?case by (auto simp: tcp_fail_def opens_one_def)
next
  case (Cons ai ais)
  then obtain s w1 where s: "new_socket ai w = Some (s, w1)" by (auto split: Option.bind_splits)
  note o = new_socket_opens [OF s]
  show ?case
  proof (cases s)
    case (Inl e)
    then show ?thesis using Cons s o loop_step_failed [of w1 r w' w] by auto
  next
    case (Inr fd)
    then obtain err w2 where c: "connect_within fd ai t w1 = Some (err, w2)"
      using Cons.prems s by (auto split: Option.bind_splits)
    have k: "fds w2 = fd # fds w" "addr_lists w2 = addr_lists w" "0 \<le> fd"
      using connect_within_keeps [OF c] o Inr by (simp_all add: keeps_def)
    show ?thesis
    proof (cases "err = 0")
      case True
      then obtain w3 where "ignore_call (Setsockopt fd IPPROTO_TCP TCP_NODELAY [1]) w2 = Some w3"
        "r = fd" "w' = kod_io_set_errno 0 (freeaddrinfo w3)"
        using Cons.prems s Inr c by (auto split: Option.bind_splits)
      then show ?thesis using k by (auto simp: opens_one_def keeps_def dest!: ignore_keeps)
    next
      case False
      then obtain w3 where w3: "close_fd fd w2 = Some w3" "connect_loop ais t err w3 = Some (r, w')"
        using Cons.prems s Inr c by (auto split: Option.bind_splits)
      have "fds w3 = fds w" "addr_lists w3 = addr_lists w" using close_fd_closes [OF w3(1) k(1)] k(2) by simp_all
      then show ?thesis using Cons.IH [OF w3(2)] loop_step_failed [of w3 r w' w] by simp
    qed
  qed
qed

lemma listen_loop_opens:
  "listen_loop ais b lst w = Some (r, w') \<Longrightarrow> opens_one w r w' \<and> addr_lists w' = addr_lists w - 1"
proof (induction ais arbitrary: lst w)
  case Nil
  then show ?case by (auto simp: tcp_fail_def opens_one_def)
next
  case (Cons ai ais)
  then obtain s w1 where s: "new_socket ai w = Some (s, w1)" by (auto split: Option.bind_splits)
  note o = new_socket_opens [OF s]
  show ?case
  proof (cases s)
    case (Inl e)
    then show ?thesis using Cons s o loop_step_failed [of w1 r w' w] by auto
  next
    case (Inr fd)
    then obtain w2 err w3 where c: "ignore_call (Setsockopt fd SOL_SOCKET SO_REUSEADDR [1]) w1 = Some w2"
      "bind_listen fd ai b w2 = Some (err, w3)"
      using Cons.prems s by (auto split: Option.bind_splits)
    have k: "fds w3 = fd # fds w" "addr_lists w3 = addr_lists w" "0 \<le> fd"
      using ignore_keeps [OF c(1)] bind_listen_keeps [OF c(2)] o Inr by (simp_all add: keeps_def)
    show ?thesis
    proof (cases "err = 0")
      case True
      then show ?thesis using Cons.prems s Inr c k by (auto simp: opens_one_def)
    next
      case False
      then obtain w4 where w4: "close_fd fd w3 = Some w4" "listen_loop ais b err w4 = Some (r, w')"
        using Cons.prems s Inr c by (auto split: Option.bind_splits)
      have "fds w4 = fds w" "addr_lists w4 = addr_lists w" using close_fd_closes [OF w4(1) k(1)] k(2) by simp_all
      then show ?thesis using Cons.IH [OF w4(2)] loop_step_failed [of w4 r w' w] by simp
    qed
  qed
qed

lemma resolve_opens:
  "resolve gai host port family passive w = (r, w') \<Longrightarrow>
   fds w' = fds w \<and> addr_lists w' = addr_lists w + (if r = None then 0 else 1)"
  by (auto simp: resolve_def tcp_fail_def kod_io_set_errno_def Let_def split: gai_result.splits if_splits)

lemma connect_opens:
  "kod_tcp_connect gai host port t w = Some (r, w') \<Longrightarrow> opens_one w r w' \<and> addr_lists w' = addr_lists w"
  using resolve_opens [of gai "Some host" port AF_UNSPEC False w]
  by (auto simp: kod_tcp_connect_def opens_one_def split: prod.splits option.splits dest!: connect_loop_opens)

lemma listen_opens:
  "kod_tcp_listen gai host port b w = Some (r, w') \<Longrightarrow> opens_one w r w' \<and> addr_lists w' = addr_lists w"
  using resolve_opens [of gai "if host = [] then None else Some host" port "if host = [] then AF_INET else AF_UNSPEC" True w]
  by (auto simp: kod_tcp_listen_def Let_def opens_one_def split: prod.splits option.splits dest!: listen_loop_opens)

lemma accept_opens:
  assumes "kod_tcp_accept fd w = Some (r, w')"
  shows "opens_one w r w' \<and> addr_lists w' = addr_lists w"
proof -
  obtain a w1 s w2 where a: "retry (Accept (c_int fd)) w = Some (a, w1)" "new_fd (a, w1) = Some (s, w2)"
    using assms by (auto simp: kod_tcp_accept_def split: Option.bind_splits)
  note k = retry_keeps [OF a(1)] and n = new_fd_opens [OF a(2)]
  show ?thesis
  proof (cases s)
    case (Inl e)
    then show ?thesis using assms a k n by (auto simp: kod_tcp_accept_def tcp_fail_def opens_one_def keeps_def)
  next
    case (Inr c)
    have e: "kod_tcp_accept fd w = ignore_call (Fcntl c F_SETFD FD_CLOEXEC) w2 \<bind> (\<lambda>w3.
        ignore_call (Setsockopt c SOL_SOCKET SO_NOSIGPIPE [1]) w3 \<bind> (\<lambda>w4.
        ignore_call (Setsockopt c IPPROTO_TCP TCP_NODELAY [1]) w4 \<bind> (\<lambda>w5. Some (c, kod_io_set_errno 0 w5))))"
      unfolding kod_tcp_accept_def by (simp add: a Inr)
    obtain w3 where w3: "ignore_call (Fcntl c F_SETFD FD_CLOEXEC) w2 = Some w3"
      using assms unfolding e by (cases "ignore_call (Fcntl c F_SETFD FD_CLOEXEC) w2") auto
    obtain w4 where w4: "ignore_call (Setsockopt c SOL_SOCKET SO_NOSIGPIPE [1]) w3 = Some w4"
      using assms unfolding e by (cases "ignore_call (Setsockopt c SOL_SOCKET SO_NOSIGPIPE [1]) w3") (auto simp: w3)
    obtain w5 where w5: "ignore_call (Setsockopt c IPPROTO_TCP TCP_NODELAY [1]) w4 = Some w5"
      using assms unfolding e by (cases "ignore_call (Setsockopt c IPPROTO_TCP TCP_NODELAY [1]) w4") (auto simp: w3 w4)
    have "r = c" "w' = kod_io_set_errno 0 w5" using assms unfolding e by (simp_all add: w3 w4 w5)
    then show ?thesis using k n Inr ignore_keeps [OF w3] ignore_keeps [OF w4] ignore_keeps [OF w5]
      by (auto simp: opens_one_def keeps_def)
  qed
qed

interpretation connects: fd_source "\<lambda>(host, port, t). kod_tcp_connect gai host port t" for gai
  by unfold_locales (auto dest: connect_opens)

interpretation listens: fd_source "\<lambda>(host, port, b). kod_tcp_listen gai host port b" for gai
  by unfold_locales (auto dest: listen_opens)

interpretation accepts: fd_source kod_tcp_accept
  by unfold_locales (rule accept_opens)

section \<open>Properties\<close>

text \<open>
  C19. Opening sockets leaks nothing, whatever the kernel and the resolver answer: however many
  addresses a host has and however the attempts fail, a call to connect, listen or accept that
  returns -1 leaves no descriptor open, a call that succeeds leaves exactly the one it returns, with
  error number 0, and every address list is freed.
\<close>

theorem tcp_no_leak:
  "(kod_tcp_connect gai host port t w = Some (r, w') \<or> kod_tcp_listen gai host port b w = Some (r, w') \<or>
    kod_tcp_accept fd w = Some (r, w')) \<Longrightarrow>
   addr_lists w' = addr_lists w \<and>
   (if r = -1 then fds w' = fds w else 0 \<le> r \<and> fds w' = r # fds w \<and> kod_io_errno w' = 0)"
  using connects.opens [of gai "(host, port, t)" w r w'] listens.opens [of gai "(host, port, b)" w r w']
    accepts.opens [of fd w r w']
  by (auto simp: opens_one_def kod_io_errno_def)

definition demo_tcp :: "answer list \<Rightarrow> tcp" where
  "demo_tcp as = \<lparr>answers = as, issued = [], g_io_errno = 0, environ = (\<lambda>_. None), fds = [], addr_lists = 0, g_gai_message = []\<rparr>"

definition demo_gai :: resolver where
  "demo_gai host service family passive =
     Addrs [\<lparr>ai_family = 30, ai_socktype = 1, ai_protocol = 6, ai_addr = [1]\<rparr>,
            \<lparr>ai_family = 2, ai_socktype = 1, ai_protocol = 6, ai_addr = [2]\<rparr>]"

lemmas tcp_eval = kod_tcp_connect_def resolve_def demo_gai_def demo_tcp_def new_socket_def connect_within_def
  wait_connected_def close_fd_def ignore_call_def call_def retry_def tcp_fail_def kod_io_set_errno_def freeaddrinfo_def
  errno_defs Let_def

text \<open>Two addresses: the first is refused, the second connects after an interrupted wait.\<close>

lemma demo_connect:
  "\<exists>w'. kod_tcp_connect demo_gai [104] 80 1000 (demo_tcp
     [Ret 3, Ret 0, Ret 0, Ret 2, Ret 0, Fail ECONNREFUSED, Ret 0,
      Ret 3, Ret 0, Ret 0, Ret 2, Ret 0, Fail EINPROGRESS, Fail EINTR, Ret 1, Ret 0, Ret 0, Ret 0]) = Some (3, w') \<and> fds w' = [3]"
  by (simp add: tcp_eval)

theorem tcp_no_leak_witness:
  "\<exists>w'. kod_tcp_connect demo_gai [104] 80 1000 (demo_tcp
     [Ret 3, Ret 0, Ret 0, Ret 2, Ret 0, Fail ECONNREFUSED, Ret 0,
      Ret 3, Ret 0, Ret 0, Ret 2, Ret 0, Fail EINPROGRESS, Fail EINTR, Ret 1, Ret 0, Ret 0, Ret 0]) = Some (3, w') \<and>
    fds w' = [3] \<and> addr_lists w' = 0 \<and> kod_io_errno w' = 0"
  using demo_connect tcp_no_leak [OF disjI1] by (fastforce simp: demo_tcp_def)

lemma call_issued: "call c w = Some (a, w') \<Longrightarrow> issued w' = issued w @ [c] \<and> answers w = a # answers w'"
  by (erule call_cases) simp

lemma wait_connected_ready:
  assumes "wait_connected fd t w = Some (0, w')" and "\<And>e. Fail e \<in> set (answers w) \<Longrightarrow> 0 < e"
  shows "\<exists>k p. issued w' = issued w @ replicate (Suc k) p @ [Getsockopt_Error fd]"
proof -
  let ?p = "Poll [(fd, POLLOUT)] (if t > 2147483647 then 2147483647 else c_int t)"
  obtain a w1 where a: "retry ?p w = Some (a, w1)"
    using assms(1) by (auto simp: wait_connected_def split: Option.bind_splits)
  obtain k rest where k: "answers w = replicate k (Fail EINTR) @ a # rest"
    "w1 = w\<lparr>answers := rest, issued := issued w @ replicate (Suc k) ?p\<rparr>" using retry_cases [OF a] by metis
  have "a \<noteq> Fail 0" using assms(2) [of 0] k(1) by auto
  then obtain n where n: "a = Ret n" "n \<noteq> 0"
    using assms(1) a by (cases a) (auto simp: wait_connected_def ETIMEDOUT_def split: if_splits)
  then obtain b where "call (Getsockopt_Error fd) w1 = Some (b, w')"
    using assms(1) a by (auto simp: wait_connected_def split: Option.bind_splits answer.splits)
  then show ?thesis using call_issued k(2) by fastforce
qed

text \<open>
  A descriptor that \<open>connect_within\<close> reports as connected is in its original blocking mode again:
  the last call sets the flags that were read before the attempt. And when \<open>connect\<close> did not succeed
  at once, the report comes after a wait and a check that no error is pending on the socket.
\<close>

theorem connect_within_restores:
  assumes "connect_within fd ai t w = Some (0, w')" and "\<And>e. Fail e \<in> set (answers w) \<Longrightarrow> 0 < e"
  shows "\<exists>flags mid. (hd (answers w) = Ret flags \<or> flags = -1) \<and>
    issued w' = issued w @ [Fcntl fd F_GETFL 0, Fcntl fd F_SETFL (flags OR O_NONBLOCK), Connect fd (ai_addr ai)] @
      mid @ [Fcntl fd F_SETFL flags] \<and>
    (mid = [] \<and> (\<exists>rc. answers w ! 2 = Ret rc) \<or> (\<exists>k p. mid = replicate (Suc k) p @ [Getsockopt_Error fd]))"
proof -
  obtain a1 w1 where c1: "call (Fcntl fd F_GETFL 0) w = Some (a1, w1)"
    using assms(1) by (auto simp: connect_within_def split: Option.bind_splits)
  obtain flags where f: "(case a1 of Ret f \<Rightarrow> Some f | Fail _ \<Rightarrow> Some (-1) | _ \<Rightarrow> None) = Some flags"
    using assms(1) c1 by (auto simp: connect_within_def split: Option.bind_splits)
  obtain a2 w2 where c2: "call (Fcntl fd F_SETFL (flags OR O_NONBLOCK)) w1 = Some (a2, w2)"
    using assms(1) c1 f by (auto simp: connect_within_def ignore_call_def split: Option.bind_splits)
  obtain a3 w3 where c3: "call (Connect fd (ai_addr ai)) w2 = Some (a3, w3)"
    using assms(1) c1 f c2 by (auto simp: connect_within_def ignore_call_def split: Option.bind_splits)
  obtain w4 where w4: "(case a3 of Ret _ \<Rightarrow> Some (0, w3)
       | Fail e \<Rightarrow> if e \<noteq> EINPROGRESS \<and> e \<noteq> EINTR then Some (e, w3) else wait_connected fd t w3
       | _ \<Rightarrow> None) = Some (0, w4)" "ignore_call (Fcntl fd F_SETFL flags) w4 = Some w'"
    using assms(1) c1 f c2 c3 by (auto simp: connect_within_def ignore_call_def split: Option.bind_splits if_splits)
  have as: "answers w = a1 # a2 # a3 # answers w3"
    "issued w3 = issued w @ [Fcntl fd F_GETFL 0, Fcntl fd F_SETFL (flags OR O_NONBLOCK), Connect fd (ai_addr ai)]"
    using call_issued [OF c1] call_issued [OF c2] call_issued [OF c3] by simp_all
  have fl: "a1 = Ret flags \<or> flags = -1" using f by (cases a1) auto
  have is': "issued w' = issued w4 @ [Fcntl fd F_SETFL flags]"
    using w4(2) by (auto simp: ignore_call_def dest!: call_issued)
  show ?thesis
  proof (cases "\<exists>rc. a3 = Ret rc")
    case True
    then have "w4 = w3" using w4(1) by auto
    then show ?thesis using as fl is' True by (intro exI [of _ flags] exI [of _ "[]"]) auto
  next
    case False
    then obtain e where e: "a3 = Fail e" using w4(1) by (cases a3) auto
    have "e \<noteq> 0" using assms(2) [of e] as(1) e by auto
    then have "wait_connected fd t w3 = Some (0, w4)" using w4(1) e by (auto split: if_splits)
    then obtain k p where "issued w4 = issued w3 @ replicate (Suc k) p @ [Getsockopt_Error fd]"
      using wait_connected_ready [of fd t w3 w4] assms(2) as(1) by auto
    then show ?thesis
      using as fl is' by (intro exI [of _ flags] exI [of _ "replicate (Suc k) p @ [Getsockopt_Error fd]"]) auto
  qed
qed

theorem connect_within_restores_witness:
  "\<exists>w' mid. connect_within 3 \<lparr>ai_family = 2, ai_socktype = 1, ai_protocol = 6, ai_addr = [2]\<rparr> 1000 (demo_tcp
     [Ret 2, Ret 0, Fail EINPROGRESS, Fail EINTR, Ret 1, Ret 0, Ret 0]) = Some (0, w') \<and>
    issued w' = mid @ [Fcntl 3 F_SETFL 2]"
proof -
  let ?ai = "\<lparr>ai_family = 2, ai_socktype = 1, ai_protocol = 6, ai_addr = [2]\<rparr>"
  let ?w = "demo_tcp [Ret 2, Ret 0, Fail EINPROGRESS, Fail EINTR, Ret 1, Ret 0, Ret 0]"
  obtain w' where w': "connect_within 3 ?ai 1000 ?w = Some (0, w')" "last (issued w') = Fcntl 3 F_SETFL 2"
    by (simp add: tcp_eval)
  have "Fail e \<in> set (answers ?w) \<Longrightarrow> 0 < e" for e by (auto simp: demo_tcp_def errno_defs)
  from connect_within_restores [OF w'(1) this] obtain flags mid where "issued w' = mid @ [Fcntl 3 F_SETFL flags]" by auto
  with w' show ?thesis by auto
qed

end
