(* ===== verification/Kod_Float64.thy ===== *)
theory Kod_Float64
  imports Kod_Double
begin

text \<open>
  \<open>float64\<close> of \<open>src/stdlib/runtime.c\<close>: a Kod float travels as the 64-bit integer of its bit
  pattern. The operations are conversions, rounding, printing with the fewest of up to seventeen
  correctly rounded digits, and parsing. \<open>None\<close> of the printer is a write behind one of its arrays.
\<close>

section \<open>Bit patterns and conversions\<close>

definition f64_of :: "int \<Rightarrow> double" where
  "f64_of bits = word_of_int bits"

definition f64_bits :: "double \<Rightarrow> int" where
  "f64_bits d = sint d"

definition kod_i64_to_f64 :: "int \<Rightarrow> int" where
  "kod_i64_to_f64 n = f64_bits (mk_double (n < 0) (mag_of_frac (nat \<bar>n\<bar>) 1))"

definition kod_f64_to_i64 :: "int \<Rightarrow> int" where
  "kod_f64_to_i64 bits =
     (let d = f64_of bits
      in if \<not> double_eq d d then 0
         else if ge_int d 9223372036854775808 then INT64_MAX
         else if le_int d (-9223372036854775808) then INT64_MIN
         else c_quot (num_of d) (int (den_mag (mag d))))"

definition kod_f64_abs :: "int \<Rightarrow> int" where
  "kod_f64_abs bits = f64_bits (mk_double False (mag (f64_of bits)))"

definition kod_f64_floor :: "int \<Rightarrow> int" where
  "kod_f64_floor bits = f64_bits (to_integral floor_div (f64_of bits))"

definition kod_f64_ceil :: "int \<Rightarrow> int" where
  "kod_f64_ceil bits = f64_bits (to_integral ceil_div (f64_of bits))"

definition kod_f64_round :: "int \<Rightarrow> int" where
  "kod_f64_round bits = f64_bits (to_integral round_div (f64_of bits))"

definition kod_f64_sqrt :: "int \<Rightarrow> int" where
  "kod_f64_sqrt bits = f64_bits (double_sqrt (f64_of bits))"

definition kod_f64_is_nan :: "int \<Rightarrow> int" where
  "kod_f64_is_nan bits = (if isnan (f64_of bits) then 1 else 0)"

definition kod_f64_is_inf :: "int \<Rightarrow> int" where
  "kod_f64_is_inf bits = (if isinf (f64_of bits) then 1 else 0)"

section \<open>Printing\<close>

text \<open>The loop over the precision: the first text that reads back, or the last one.\<close>

fun sci_loop :: "nat list \<Rightarrow> double \<Rightarrow> byte list \<Rightarrow> byte list" where
  "sci_loop [] d sci = sci"
| "sci_loop (prec # ps) d sci =
     (let sci = take 39 (snprintf_e (prec - 1) d)
      in if double_eq (strtod sci) d then sci else sci_loop ps d sci)"

function strip_zeros :: "byte list \<Rightarrow> byte list" where
  "strip_zeros ds = (if length ds > 1 \<and> last ds = c_0 then strip_zeros (butlast ds) else ds)"
  by pat_completeness auto
termination by (relation "measure length") auto

declare strip_zeros.simps [simp del]

text \<open>
  The arrays \<open>digits[24]\<close> and \<open>out[64]\<close> are filled from the front: \<open>None\<close> when a loop would write
  behind one of them.
\<close>

definition layout_int :: "byte list \<Rightarrow> nat \<Rightarrow> byte list" where
  "layout_int digits exp10 =
     map (\<lambda>i. if i < length digits then digits ! i else c_0) [0..<exp10 + 1] @ c_dot #
     (if length digits > exp10 + 1 then drop (exp10 + 1) digits else [c_0])"

definition layout :: "byte list \<Rightarrow> int \<Rightarrow> byte list" where
  "layout digits exp10 =
     (if exp10 \<ge> -6 \<and> exp10 < 21 then
        (if exp10 \<ge> 0 then layout_int digits (nat exp10)
         else c_0 # c_dot # replicate (nat (- exp10 - 1)) c_0 @ digits)
      else hd digits # (if length digits > 1 then c_dot # tl digits else []) @
        c_e # (if exp10 < 0 then c_minus else c_plus) # dec_nat (nat \<bar>exp10\<bar>))"

definition kod_f64_to_str :: "int \<Rightarrow> byte list option" where
  "kod_f64_to_str bits =
     (let d = f64_of bits
      in if isnan d then Some (bytes_of ''nan'')
         else if isinf d then Some (if signbit d then bytes_of ''-inf'' else bytes_of ''inf'')
         else if mag d = 0 then Some (if signbit d then bytes_of ''-0.0'' else bytes_of ''0.0'')
         else
           (let sci = sci_loop [1..<18] d [];
                negative = (sci \<noteq> [] \<and> hd sci = c_minus);
                p = (if negative then tl sci else sci);
                digits = filter (\<lambda>c. c \<noteq> c_dot) (takeWhile (\<lambda>c. c \<noteq> 0 \<and> c \<noteq> c_e) p);
                rest = dropWhile (\<lambda>c. c \<noteq> 0 \<and> c \<noteq> c_e) p;
                exp10 = atoi (tl rest);
                out = (if negative then [c_minus] else []) @ layout (strip_zeros digits) exp10
            in if length digits > 24 \<or> digits = [] \<or> rest = [] \<or> length out > 63 then None else Some out))"

section \<open>Parsing\<close>

fun skip_digits :: "byte list \<Rightarrow> int \<Rightarrow> byte list \<times> int" where
  "skip_digits [] digits = ([], digits)"
| "skip_digits (c # s) digits = (if 48 \<le> c \<and> c \<le> 57 then skip_digits s (digits + 1) else (c # s, digits))"

definition skip_one :: "(byte \<Rightarrow> bool) \<Rightarrow> byte list \<Rightarrow> byte list" where
  "skip_one P s = (if s \<noteq> [] \<and> P (hd s) then tl s else s)"

definition kod_f64_valid :: "byte list \<Rightarrow> int" where
  "kod_f64_valid s =
     (let p = skip_one (\<lambda>c. c = c_plus \<or> c = c_minus) s;
          (p, digits) = skip_digits p 0;
          (p, digits) = (if p \<noteq> [] \<and> hd p = c_dot then skip_digits (tl p) digits else (p, digits))
      in if digits = 0 then 0
         else if p \<noteq> [] \<and> (hd p = c_e \<or> hd p = 69) then
           (let p = skip_one (\<lambda>c. c = c_plus \<or> c = c_minus) (tl p);
                (p, exp_digits) = skip_digits p 0
            in if exp_digits = 0 then 0 else if p = [] then 1 else 0)
         else if p = [] then 1 else 0)"

definition kod_f64_parse :: "byte list \<Rightarrow> int" where
  "kod_f64_parse s = f64_bits (strtod (c_str s))"

section \<open>The numbers the parser accepts\<close>

definition is_sign :: "byte list \<Rightarrow> bool" where
  "is_sign g \<longleftrightarrow> g = [] \<or> g = [c_plus] \<or> g = [c_minus]"

definition is_exponent :: "byte list \<Rightarrow> bool" where
  "is_exponent ex \<longleftrightarrow> ex = [] \<or> (\<exists>c g ds. ex = c # g @ ds \<and> (c = c_e \<or> c = 69) \<and> is_sign g \<and> all_digits ds \<and> ds \<noteq> [])"

definition is_decimal :: "byte list \<Rightarrow> bool" where
  "is_decimal s \<longleftrightarrow> (\<exists>g ip fp ex. is_sign g \<and> all_digits ip \<and> all_digits fp \<and> ip @ fp \<noteq> [] \<and> is_exponent ex \<and>
     (s = g @ ip @ ex \<and> fp = [] \<or> s = g @ ip @ c_dot # fp @ ex))"

lemma skip_digits_eq: "skip_digits s k = (dropWhile is_digit s, k + int (length (takeWhile is_digit s)))"
  by (induction s arbitrary: k) (auto simp: is_digit_def)

lemma skip_one_sign:
  "is_sign g \<Longrightarrow> t = [] \<or> hd t \<noteq> c_plus \<and> hd t \<noteq> c_minus \<Longrightarrow> skip_one (\<lambda>c. c = c_plus \<or> c = c_minus) (g @ t) = t"
  by (auto simp: is_sign_def skip_one_def)

lemma skip_one_splits:
  obtains g where "is_sign g" "s = g @ skip_one (\<lambda>c. c = c_plus \<or> c = c_minus) s"
proof (cases "s \<noteq> [] \<and> (hd s = c_plus \<or> hd s = c_minus)")
  case True
  then show ?thesis by (intro that [of "[hd s]"]) (auto simp: is_sign_def skip_one_def)
next
  case False
  then show ?thesis by (intro that [of "[]"]) (auto simp: is_sign_def skip_one_def)
qed

lemma exponent_head: "is_exponent ex \<Longrightarrow> ex = [] \<or> \<not> is_digit (hd ex) \<and> hd ex \<noteq> c_dot \<and> hd ex \<noteq> c_plus \<and> hd ex \<noteq> c_minus"
  by (auto simp: is_exponent_def)

definition valid_tail :: "byte list \<Rightarrow> int" where
  "valid_tail p =
     (if p \<noteq> [] \<and> (hd p = c_e \<or> hd p = 69) then
        (let (p, n) = skip_digits (skip_one (\<lambda>c. c = c_plus \<or> c = c_minus) (tl p)) 0
         in if n = 0 then 0 else if p = [] then 1 else 0)
      else if p = [] then 1 else 0)"

lemma valid_tail_iff: "valid_tail p = 1 \<longleftrightarrow> is_exponent p"
proof
  assume v: "valid_tail p = 1"
  show "is_exponent p"
  proof (cases "p \<noteq> [] \<and> (hd p = c_e \<or> hd p = 69)")
    case True
    then obtain c t where p: "p = c # t" "c = c_e \<or> c = 69" by (cases p) auto
    obtain g where g: "is_sign g" "t = g @ skip_one (\<lambda>c. c = c_plus \<or> c = c_minus) t" by (rule skip_one_splits)
    define ds where "ds = skip_one (\<lambda>c. c = c_plus \<or> c = c_minus) t"
    have "dropWhile is_digit ds = []" "takeWhile is_digit ds \<noteq> []"
      using v p by (auto simp: valid_tail_def skip_digits_eq ds_def [symmetric] split: if_splits)
    then have "all_digits ds" "ds \<noteq> []" by (auto simp: list_all_iff)
    then show ?thesis using p g unfolding is_exponent_def ds_def [symmetric] by blast
  qed (use v in \<open>auto simp: valid_tail_def is_exponent_def split: if_splits\<close>)
next
  assume "is_exponent p"
  then consider "p = []" | c g ds where "p = c # g @ ds" "c = c_e \<or> c = 69" "is_sign g" "all_digits ds" "ds \<noteq> []"
    by (auto simp: is_exponent_def)
  then show "valid_tail p = 1"
  proof cases
    case 2
    then have "hd ds \<noteq> c_plus \<and> hd ds \<noteq> c_minus" by (cases ds) (auto dest: digit_ne)
    then have "skip_one (\<lambda>c. c = c_plus \<or> c = c_minus) (g @ ds) = ds" using 2 by (intro skip_one_sign) auto
    then show ?thesis using 2 by (simp add: valid_tail_def skip_digits_eq takeWhile_all_digits)
  qed (simp add: valid_tail_def)
qed

lemma valid_eq:
  "kod_f64_valid s = (let p = skip_one (\<lambda>c. c = c_plus \<or> c = c_minus) s; (ip, fp, r) = split_point p
     in if ip @ fp = [] then 0 else valid_tail r)"
proof -
  define p where "p = skip_one (\<lambda>c. c = c_plus \<or> c = c_minus) s"
  have v: "kod_f64_valid s =
     (let (p, digits) = (if dropWhile is_digit p \<noteq> [] \<and> hd (dropWhile is_digit p) = c_dot
          then (dropWhile is_digit (tl (dropWhile is_digit p)), int (length (takeWhile is_digit p)) +
                  int (length (takeWhile is_digit (tl (dropWhile is_digit p)))))
          else (dropWhile is_digit p, int (length (takeWhile is_digit p))))
      in if digits = 0 then 0 else valid_tail p)"
    unfolding kod_f64_valid_def valid_tail_def skip_digits_eq Let_def p_def [symmetric] by simp
  show ?thesis
  proof (cases "dropWhile is_digit p")
    case Nil
    show ?thesis unfolding v p_def [symmetric] by (simp add: split_point_def Let_def Nil)
  next
    case (Cons c r)
    have "int (length xs) + int (length ys) = 0 \<longleftrightarrow> xs = [] \<and> ys = []" for xs ys :: "byte list"
      by (cases xs; cases ys) auto
    then show ?thesis using Cons unfolding v p_def [symmetric] by (simp add: split_point_def Let_def)
  qed
qed

lemma split_point_cases:
  assumes "split_point p = (ip, fp, r)"
  shows "all_digits ip \<and> all_digits fp \<and> (p = ip @ r \<and> fp = [] \<or> p = ip @ c_dot # fp @ r)"
proof -
  have d: "all_digits (takeWhile is_digit t)" for t by (auto simp: list_all_iff dest: set_takeWhileD)
  show ?thesis
  proof (cases "dropWhile is_digit p")
    case Nil
    have e: "takeWhile is_digit p = p" using takeWhile_dropWhile_id [of is_digit p] by (simp only: Nil append_Nil2)
    show ?thesis using assms d [of p] unfolding e by (auto simp: split_point_def Let_def Nil e)
  next
    case (Cons c t)
    then have "p = takeWhile is_digit p @ c # t" using takeWhile_dropWhile_id [of is_digit p] by simp
    then show ?thesis
      using assms Cons d [of p] d [of t] takeWhile_dropWhile_id [of is_digit t]
      by (auto simp: split_point_def Let_def split: if_splits)
  qed
qed

lemma decimal_valid: "is_decimal s \<Longrightarrow> kod_f64_valid s = 1"
proof -
  assume "is_decimal s"
  then obtain g ip fp ex where p: "is_sign g" "all_digits ip" "all_digits fp" "ip @ fp \<noteq> []" "is_exponent ex"
    "s = g @ ip @ ex \<and> fp = [] \<or> s = g @ ip @ c_dot # fp @ ex" by (auto simp: is_decimal_def)
  define t where "t = (if s = g @ ip @ ex \<and> fp = [] then ip @ ex else ip @ c_dot # fp @ ex)"
  have t: "s = g @ t" using p(6) by (auto simp: t_def)
  have sp: "split_point t = (ip, fp, ex)"
    using split_point_plain [of ip ex] split_point_dot [of ip fp ex] p exponent_head [of ex] by (auto simp: t_def)
  have "hd t \<noteq> c_plus \<and> hd t \<noteq> c_minus"
    using p(2,4) by (cases ip) (auto simp: t_def dest: digit_ne)
  then have "skip_one (\<lambda>c. c = c_plus \<or> c = c_minus) s = t" unfolding t using p(1) by (intro skip_one_sign) auto
  then show ?thesis using sp p(4,5) by (auto simp: valid_eq valid_tail_iff Let_def)
qed

lemma valid_decimal: "kod_f64_valid s = 1 \<Longrightarrow> is_decimal s"
proof -
  assume v: "kod_f64_valid s = 1"
  obtain g where g: "is_sign g" "s = g @ skip_one (\<lambda>c. c = c_plus \<or> c = c_minus) s" by (rule skip_one_splits)
  define p where "p = skip_one (\<lambda>c. c = c_plus \<or> c = c_minus) s"
  obtain ip fp r where sp: "split_point p = (ip, fp, r)" by (cases "split_point p")
  have "ip @ fp \<noteq> [] \<and> is_exponent r"
    using v sp by (auto simp: valid_eq p_def [symmetric] Let_def valid_tail_iff [symmetric] split: if_splits)
  then show ?thesis
    using split_point_cases [OF sp] g unfolding p_def [symmetric] is_decimal_def by (metis append.assoc)
qed

section \<open>What the printer lays out\<close>

text \<open>A text with the parts \<open>ip\<close>, \<open>fp\<close> and \<open>ex\<close>, of a value, that shows a point or an exponent.\<close>

definition reads_as :: "byte list \<Rightarrow> nat \<Rightarrow> int \<Rightarrow> bool" where
  "reads_as s N q \<longleftrightarrow> (\<exists>ip fp ex. all_digits ip \<and> ip \<noteq> [] \<and> all_digits fp \<and> is_exponent ex \<and>
     (s = ip @ c_dot # fp @ ex \<or> s = ip @ ex \<and> fp = [] \<and> ex \<noteq> []) \<and>
     real (dec_val (ip @ fp)) * 10 powi (exp_part ex - int (length fp)) = real N * 10 powi q)"

lemma reads_as_strtod:
  assumes "reads_as s N q"
  shows "strtod (sg neg @ s) = mk_double neg (mag_of_dec N q)"
proof -
  obtain ip fp ex where p: "all_digits ip" "ip \<noteq> []" "all_digits fp" "is_exponent ex"
     "s = ip @ c_dot # fp @ ex \<or> s = ip @ ex \<and> fp = [] \<and> ex \<noteq> []"
     "real (dec_val (ip @ fp)) * 10 powi (exp_part ex - int (length fp)) = real N * 10 powi q"
    using assms by (auto simp: reads_as_def)
  have "strtod (sg neg @ s) = mk_double neg (mag_of_dec (dec_val (ip @ fp)) (exp_part ex - int (length fp)))"
    using strtod_dot [OF p(1,3,2), of ex neg] strtod_plain [OF p(1,2), of ex neg] p(5) exponent_head [OF p(4)] by auto
  then show ?thesis using mag_of_dec_cong [OF p(6)] by simp
qed

lemma reads_as_valid:
  assumes "reads_as s N q"
  shows "kod_f64_valid (sg neg @ s) = 1" "0 \<notin> set s"
proof -
  obtain ip fp ex where p: "all_digits ip" "ip \<noteq> []" "all_digits fp" "is_exponent ex"
     "s = ip @ c_dot # fp @ ex \<or> s = ip @ ex \<and> fp = [] \<and> ex \<noteq> []"
    using assms by (auto simp: reads_as_def)
  have "is_sign (sg neg)" by (simp add: is_sign_def sg_def)
  with p show "kod_f64_valid (sg neg @ s) = 1" by (intro decimal_valid) (unfold is_decimal_def, blast)
  have "0 \<notin> set ds" if "all_digits ds" for ds using that by (auto simp: list_all_iff)
  with p show "0 \<notin> set s" by (auto simp: is_exponent_def is_sign_def)
qed

lemma layout_int_reads:
  assumes "all_digits ds" and "ds \<noteq> []"
  shows "reads_as (layout_int ds X) (dec_val ds) (int X - int (length ds) + 1)"
proof (cases "length ds > X + 1")
  case True
  have "map (\<lambda>i. if i < length ds then ds ! i else c_0) [0..<X + 1] = take (X + 1) ds"
    using True by (intro nth_equalityI) (auto simp del: upt_Suc)
  then have l: "layout_int ds X = take (X + 1) ds @ c_dot # drop (X + 1) ds @ []"
    using True by (simp add: layout_int_def del: upt_Suc)
  have "real (dec_val (take (X + 1) ds @ drop (X + 1) ds)) * 10 powi (exp_part [] - int (length (drop (X + 1) ds))) =
    real (dec_val ds) * 10 powi (int X - int (length ds) + 1)"
    using True by (simp add: exp_part_def of_nat_diff algebra_simps)
  moreover have "all_digits (take (X + 1) ds)" "all_digits (drop (X + 1) ds)" "take (X + 1) ds \<noteq> []" "is_exponent []"
    using assms by (auto simp: list_all_iff is_exponent_def dest: in_set_takeD in_set_dropD)
  ultimately show ?thesis unfolding reads_as_def l by blast
next
  case False
  define z where "z = replicate (X + 1 - length ds) c_0"
  have "map (\<lambda>i. if i < length ds then ds ! i else c_0) [0..<X + 1] = ds @ z"
    using False by (intro nth_equalityI) (auto simp: z_def nth_append simp del: upt_Suc)
  then have l: "layout_int ds X = (ds @ z) @ c_dot # [c_0] @ []"
    using False by (simp add: layout_int_def del: upt_Suc)
  have "dec_val ((ds @ z) @ [c_0]) = dec_val ds * 10 ^ (X + 1 - length ds) * 10"
    unfolding dec_val_append by (simp add: z_def) (simp add: dec_val_def)
  moreover have "(10 :: real) powi (int X - int (length ds) + 1) = 10 ^ (X + 1 - length ds)"
    using False power_int_of_nat [of "10 :: real" "X + 1 - length ds"] by (simp add: of_nat_diff algebra_simps)
  ultimately have "real (dec_val ((ds @ z) @ [c_0])) * 10 powi (exp_part [] - int (length [c_0])) =
    real (dec_val ds) * 10 powi (int X - int (length ds) + 1)"
    by (simp add: exp_part_def power_int_minus)
  moreover have "all_digits (ds @ z)" "all_digits [c_0]" "ds @ z \<noteq> []" "is_exponent []"
    using assms by (auto simp: list_all_iff z_def is_exponent_def)
  ultimately show ?thesis unfolding reads_as_def l by blast
qed

lemma layout_frac_reads:
  assumes "all_digits ds" and "ds \<noteq> []" and "X < 0"
  shows "reads_as (c_0 # c_dot # replicate (nat (- X - 1)) c_0 @ ds) (dec_val ds) (X - int (length ds) + 1)"
proof -
  define fp where "fp = replicate (nat (- X - 1)) c_0 @ ds"
  have "dec_val ([c_0] @ fp) = dec_val ds"
    unfolding fp_def dec_val_append by simp (simp add: dec_val_def)
  moreover have "exp_part [] - int (length fp) = X - int (length ds) + 1"
    using assms(3) by (simp add: fp_def exp_part_def)
  ultimately have "real (dec_val ([c_0] @ fp)) * 10 powi (exp_part [] - int (length fp)) =
    real (dec_val ds) * 10 powi (X - int (length ds) + 1)" by simp
  moreover have "all_digits [c_0]" "all_digits fp" "is_exponent []"
    using assms(1) by (auto simp: list_all_iff fp_def is_exponent_def)
  moreover have "c_0 # c_dot # replicate (nat (- X - 1)) c_0 @ ds = [c_0] @ c_dot # fp @ []" by (simp add: fp_def)
  ultimately show ?thesis unfolding reads_as_def by blast
qed

lemma layout_sci_reads:
  assumes "all_digits ds" and "ds \<noteq> []"
  shows "reads_as (hd ds # (if length ds > 1 then c_dot # tl ds else []) @
    c_e # (if X < 0 then c_minus else c_plus) # dec_nat (nat \<bar>X\<bar>)) (dec_val ds) (X - int (length ds) + 1)"
proof -
  define ex where "ex = c_e # [if X < 0 then c_minus else c_plus] @ dec_nat (nat \<bar>X\<bar>)"
  have "is_sign [if X < 0 then c_minus else c_plus]" by (simp add: is_sign_def)
  then have "is_exponent ex"
    unfolding is_exponent_def ex_def using dec_nat_digits [of "nat \<bar>X\<bar>"] dec_nat_Nil [of "nat \<bar>X\<bar>"] by blast
  moreover have "exp_part ex = X" using atoi_signed [of X 0] by (simp add: ex_def exp_part_def)
  moreover obtain c cs where ds: "ds = c # cs" using assms(2) by (cases ds) auto
  ultimately have "real (dec_val ([c] @ cs)) * 10 powi (exp_part ex - int (length cs)) =
    real (dec_val ds) * 10 powi (X - int (length ds) + 1)" by simp
  moreover have "all_digits [c]" "all_digits cs" using assms(1) ds by auto
  moreover have "hd ds # (if length ds > 1 then c_dot # tl ds else []) @ c_e # (if X < 0 then c_minus else c_plus) # dec_nat (nat \<bar>X\<bar>) =
    (if cs = [] then [c] @ ex else [c] @ c_dot # cs @ ex)" by (auto simp: ds ex_def)
  moreover have "ex \<noteq> []" by (simp add: ex_def)
  ultimately show ?thesis using \<open>is_exponent ex\<close> unfolding reads_as_def by (cases "cs = []") (metis list.distinct(1))+
qed

lemma layout_reads:
  "all_digits ds \<Longrightarrow> ds \<noteq> [] \<Longrightarrow> reads_as (layout ds X) (dec_val ds) (X - int (length ds) + 1)"
  using layout_int_reads [of ds "nat X"] layout_frac_reads [of ds X] layout_sci_reads [of ds X]
  by (auto simp: layout_def)

lemma layout_length: "ds \<noteq> [] \<Longrightarrow> length ds \<le> 17 \<Longrightarrow> \<bar>X\<bar> < 1000 \<Longrightarrow> length (layout ds X) \<le> 40"
proof -
  assume ds: "ds \<noteq> []" "length ds \<le> 17" "\<bar>X\<bar> < 1000"
  have "length (dec_nat (nat \<bar>X\<bar>)) \<le> 3" using ds(3) by (intro dec_nat_short) simp
  moreover have "length (layout_int ds (nat X)) \<le> 40" if "0 \<le> X" "X < 21"
  proof -
    have "nat X < 21" using that by simp
    then show ?thesis using ds(2) by (auto simp: layout_int_def)
  qed
  ultimately show ?thesis using ds(2) by (auto simp: layout_def)
qed

lemma strip_zeros_split: "ds \<noteq> [] \<Longrightarrow> \<exists>k. ds = strip_zeros ds @ replicate k c_0 \<and> strip_zeros ds \<noteq> []"
proof (induction ds rule: strip_zeros.induct)
  case (1 ds)
  show ?case
  proof (cases "length ds > 1 \<and> last ds = c_0")
    case True
    then have "butlast ds \<noteq> []" by (cases ds rule: rev_cases) auto
    with 1(1) [OF True] obtain k where k: "butlast ds = strip_zeros (butlast ds) @ replicate k c_0"
      "strip_zeros (butlast ds) \<noteq> []" by blast
    have s: "strip_zeros ds = strip_zeros (butlast ds)" using True by (subst strip_zeros.simps) simp
    have "ds = butlast ds @ [c_0]" using True 1(2) append_butlast_last_id by metis
    then have "ds = strip_zeros ds @ replicate (Suc k) c_0" using k(1) s by (metis append.assoc replicate_append_same replicate_Suc)
    then show ?thesis using k(2) s by metis
  next
    case False
    then have "strip_zeros ds = ds" by (subst strip_zeros.simps) auto
    then show ?thesis using 1(2) by (intro exI [of _ 0]) simp
  qed
qed

section \<open>Printing reads back\<close>

lemma vmag_range:
  assumes "0 < u" and "u < INF_MAG"
  shows "2 powi (-1074) \<le> vmag u" "vmag u < 2 ^ 1024"
proof -
  note me = mant_expo [OF assms(2)]
  have "(1 :: real) * 2 powi (-1074) \<le> real (mant u) * 2 powi expo u"
    using me(1,6) assms(1) by (intro mult_mono power_int_increasing) auto
  then show "2 powi (-1074) \<le> vmag u" by (simp add: vmag_def)
  have "real (mant u) * 2 powi expo u < 2 ^ 53 * 2 powi 971"
  proof (rule mult_less_le_imp_less)
    have "real (mant u) < real (2 ^ 53)" using me(3) by (simp only: of_nat_less_iff)
    then show "real (mant u) < 2 ^ 53" by simp
    show "(2 :: real) powi expo u \<le> 2 powi 971" using me(2) by (intro power_int_increasing) auto
  qed auto
  also have "(2 :: real) ^ 53 * 2 powi 971 = 2 ^ 1024" by simp
  finally show "vmag u < 2 ^ 1024" by (simp add: vmag_def)
qed

lemma dec_sig_exp:
  assumes "0 < u" and "u < INF_MAG" and "dec_sig p u = (n, E)"
  shows "\<bar>E\<bar> < 1000"
proof -
  define E0 where "E0 = elog 10 (num_mag u) (den_mag u)"
  have "0 < num_mag u" using mant_expo(6) [OF assms(2)] assms(1) by (simp add: num_mag_def)
  then have b: "10 powi E0 \<le> vmag u" "vmag u < 10 powi (E0 + 1)"
    using elog_bounds [of 10 "num_mag u" "den_mag u"] frac_mag [of u] by (simp_all add: E0_def)
  have "(2 :: real) ^ 1024 < 10 powi 309" "(10 :: real) powi (-324) < 2 powi (-1074)" by (simp_all add: power_int_minus)
  then have "(10 :: real) powi E0 < 10 powi 309" "(10 :: real) powi (-324) < 10 powi (E0 + 1)"
    using b vmag_range [OF assms(1,2)] by linarith+
  moreover have "(10 :: real) powi i < 10 powi j \<longleftrightarrow> i < j" for i j by (rule powi_less) simp
  ultimately have "E0 < 309" "-324 < E0 + 1" by (simp_all only:)
  moreover have "E = E0 \<or> E = E0 + 1" using assms(3) by (auto simp: dec_sig_def Let_def E0_def split: if_splits)
  ultimately show ?thesis by auto
qed

lemma exp_field_length: "\<bar>E\<bar> < 1000 \<Longrightarrow> length (exp_field E) \<le> 4"
  using dec_nat_short [of "nat \<bar>E\<bar>"] dec_nat_digit [of "nat \<bar>E\<bar>"] by (auto simp: exp_field_def)

definition sci_parts :: "double \<Rightarrow> byte list \<Rightarrow> byte list \<Rightarrow> int \<Rightarrow> bool" where
  "sci_parts d sci ds E \<longleftrightarrow> all_digits ds \<and> ds \<noteq> [] \<and> length ds \<le> 17 \<and> \<bar>E\<bar> < 1000 \<and>
     sci = sg (signbit d) @ hd ds # (if length ds = 1 then [] else c_dot # tl ds) @ c_e # exp_field E \<and>
     strtod sci = mk_double (signbit d) (mag_of_dec (dec_val ds) (E - int (length ds) + 1))"

lemma snprintf_parts:
  assumes "0 < mag d" and "mag d < INF_MAG" and "p \<le> 16"
  shows "\<exists>ds E. sci_parts d (snprintf_e p d) ds E \<and> dec_sig p (mag d) = (dec_val ds, E) \<and> length ds = Suc p"
proof -
  obtain n E where n: "dec_sig p (mag d) = (n, E)" by (cases "dec_sig p (mag d)")
  note b = dec_sig_near(2,3) [OF assms(1,2) n]
  have l: "length (dec_nat n) = Suc p" using b by (intro dec_nat_length) auto
  have "strtod (snprintf_e p d) = mk_double (signbit d) (mag_of_dec n (E - int p))" by (rule strtod_snprintf [OF n b])
  moreover have "snprintf_e p d = sg (signbit d) @ hd (dec_nat n) #
      (if length (dec_nat n) = 1 then [] else c_dot # tl (dec_nat n)) @ c_e # exp_field E"
    using l by (simp add: snprintf_e_def n sg_def Let_def)
  ultimately have "sci_parts d (snprintf_e p d) (dec_nat n) E"
    using l dec_sig_exp [OF assms(1,2) n] assms(3) by (simp add: sci_parts_def)
  then show ?thesis using n l by (metis dec_nat_val)
qed

lemma sci_parts_length: "sci_parts d sci ds E \<Longrightarrow> length sci \<le> 39"
  using exp_field_length [of E] by (auto simp: sci_parts_def sg_def)

lemma sci_loop_reads_back:
  assumes "0 < mag d" and "mag d < INF_MAG" and "set ps \<subseteq> {1..17}" and "17 \<in> set ps"
  shows "\<exists>ds E. sci_parts d (sci_loop ps d sci) ds E \<and> double_eq (strtod (sci_loop ps d sci)) d"
  using assms(3,4)
proof (induction ps arbitrary: sci)
  case (Cons p ps)
  obtain ds E where s: "sci_parts d (snprintf_e (p - 1) d) ds E" "dec_sig (p - 1) (mag d) = (dec_val ds, E)" "length ds = Suc (p - 1)"
    using snprintf_parts [OF assms(1,2) le_diff_conv [THEN iffD2], of p 1] Cons.prems(1) by auto
  have t: "take 39 (snprintf_e (p - 1) d) = snprintf_e (p - 1) d" using sci_parts_length [OF s(1)] by simp
  show ?case
  proof (cases "double_eq (strtod (snprintf_e (p - 1) d)) d")
    case True
    then show ?thesis using s(1) t by (auto simp: Let_def)
  next
    case False
    have "p \<noteq> 17"
    proof
      assume "p = 17"
      have "strtod (snprintf_e (p - 1) d) = mk_double (signbit d) (mag_of_dec (dec_val ds) (E - int (length ds) + 1))"
        using s(1) unfolding sci_parts_def by blast
      then have "strtod (snprintf_e (p - 1) d) = d"
        using s(2,3) \<open>p = 17\<close> seventeen_digits [OF assms(1,2), of "dec_val ds" E] by simp
      then show False using False assms(2) by (simp add: double_eq_def isnan_def)
    qed
    then show ?thesis using Cons False t by (auto simp: Let_def)
  qed
qed simp

lemma sci_scan:
  assumes "sci_parts d sci ds E"
  shows "(sci \<noteq> [] \<and> hd sci = c_minus) \<longleftrightarrow> signbit d"
    and "p = (if signbit d then tl sci else sci) \<Longrightarrow>
      filter (\<lambda>c. c \<noteq> c_dot) (takeWhile (\<lambda>c. c \<noteq> 0 \<and> c \<noteq> c_e) p) = ds \<and>
      dropWhile (\<lambda>c. c \<noteq> 0 \<and> c \<noteq> c_e) p = c_e # exp_field E"
proof -
  obtain c cs where ds: "ds = c # cs" using assms by (cases ds) (auto simp: sci_parts_def)
  have dg: "is_digit c" "all_digits cs" using assms ds by (auto simp: sci_parts_def)
  have sci: "sci = sg (signbit d) @ (c # (if cs = [] then [] else c_dot # cs)) @ c_e # exp_field E"
    using assms ds by (cases cs) (simp_all add: sci_parts_def)
  show "(sci \<noteq> [] \<and> hd sci = c_minus) \<longleftrightarrow> signbit d" using dg(1) by (auto simp: sci sg_def dest: digit_ne)
  define body where "body = c # (if cs = [] then [] else c_dot # cs)"
  assume "p = (if signbit d then tl sci else sci)"
  then have p: "p = body @ c_e # exp_field E" by (simp add: sci sg_def body_def)
  have "\<forall>x \<in> set body. x \<noteq> 0 \<and> x \<noteq> c_e" using dg by (auto simp: body_def list_all_iff dest: digit_ne split: if_splits)
  then have "takeWhile (\<lambda>c. c \<noteq> 0 \<and> c \<noteq> c_e) p = body" "dropWhile (\<lambda>c. c \<noteq> 0 \<and> c \<noteq> c_e) p = c_e # exp_field E"
    unfolding p by (simp_all add: takeWhile_append2 dropWhile_append2)
  moreover have "filter (\<lambda>c. c \<noteq> c_dot) cs = cs" using dg(2) by (auto simp: filter_id_conv list_all_iff dest: digit_ne)
  then have "filter (\<lambda>c. c \<noteq> c_dot) body = ds" using dg(1) ds by (auto simp: body_def dest: digit_ne)
  ultimately show "filter (\<lambda>c. c \<noteq> c_dot) (takeWhile (\<lambda>c. c \<noteq> 0 \<and> c \<noteq> c_e) p) = ds \<and>
      dropWhile (\<lambda>c. c \<noteq> 0 \<and> c \<noteq> c_e) p = c_e # exp_field E" by simp
qed

lemma to_str_nonzero:
  assumes "0 < mag (f64_of bits)" and "mag (f64_of bits) < INF_MAG"
  shows "\<exists>s N q. kod_f64_to_str bits = Some (sg (signbit (f64_of bits)) @ s) \<and> reads_as s N q \<and> length s \<le> 40 \<and>
    (c_dot \<in> set s \<or> c_e \<in> set s) \<and> strtod (sg (signbit (f64_of bits)) @ s) = f64_of bits"
proof -
  define d where "d = f64_of bits"
  define sci where "sci = sci_loop [1..<18] d []"
  obtain ds E where s: "sci_parts d sci ds E" "double_eq (strtod sci) d"
  proof -
    have "set [1..<18] \<subseteq> {1..17}" "17 \<in> set [1..<18]" by auto
    from sci_loop_reads_back [OF assms this, of "[]"] that show thesis by (auto simp: d_def sci_def simp del: upt_Suc)
  qed
  obtain k where k: "ds = strip_zeros ds @ replicate k c_0" "strip_zeros ds \<noteq> []"
    using strip_zeros_split [of ds] s(1) by (auto simp: sci_parts_def)
  define s' where "s' = layout (strip_zeros ds) E"
  have zs: "all_digits (strip_zeros ds)" "length (strip_zeros ds) \<le> 17" "\<bar>E\<bar> < 1000"
  proof -
    have "all_digits (strip_zeros ds @ replicate k c_0)" "length (strip_zeros ds @ replicate k c_0) \<le> 17"
      using s(1) unfolding k(1) [symmetric] by (simp_all add: sci_parts_def)
    then show "all_digits (strip_zeros ds)" "length (strip_zeros ds) \<le> 17" by simp_all
  qed (use s(1) in \<open>simp add: sci_parts_def\<close>)
  have r: "reads_as s' (dec_val (strip_zeros ds)) (E - int (length (strip_zeros ds)) + 1)"
    using layout_reads [OF zs(1) k(2)] by (simp add: s'_def)
  have len: "length s' \<le> 40" using layout_length [OF k(2) zs(2,3)] by (simp add: s'_def)
  have value_kept: "real (dec_val (strip_zeros ds)) * 10 powi (E - int (length (strip_zeros ds)) + 1) =
      real (dec_val ds) * 10 powi (E - int (length ds) + 1)"
  proof -
    have "dec_val ds = dec_val (strip_zeros ds) * 10 ^ k" "length ds = length (strip_zeros ds) + k"
      using arg_cong [OF k(1), of dec_val] arg_cong [OF k(1), of length] by (simp_all add: dec_val_append)
    then show ?thesis
      using power_int_diff [of "10 :: real" "E - int (length (strip_zeros ds)) + 1" "int k"]
      by (simp add: algebra_simps)
  qed
  have "strtod sci = mk_double (signbit d) (mag_of_dec (dec_val ds) (E - int (length ds) + 1))"
    using s(1) unfolding sci_parts_def by blast
  then have "strtod (sg (signbit d) @ s') = strtod sci"
    using reads_as_strtod [OF r, of "signbit d"] mag_of_dec_cong [OF value_kept] by simp
  then have reads_back: "strtod (sg (signbit d) @ s') = d" using s(2) assms(1) by (auto simp: double_eq_def d_def)
  note scan = sci_scan [OF s(1)]
  have n: "\<not> isnan d" "\<not> isinf d" "mag d \<noteq> 0" using assms by (simp_all add: d_def isnan_def isinf_def)
  have l: "length ds \<le> 24" "ds \<noteq> []" "length (sg (signbit d) @ s') \<le> 63" using s(1) len by (simp_all add: sci_parts_def sg_def)
  have "kod_f64_to_str bits = Some (sg (signbit d) @ s')"
    unfolding kod_f64_to_str_def Let_def d_def [symmetric] sci_def [symmetric] scan(1)
      scan(2) [OF refl, THEN conjunct1] scan(2) [OF refl, THEN conjunct2] list.sel atoi_exp_field s'_def [symmetric] sg_def [symmetric]
    using n l by simp
  moreover have "c_dot \<in> set s' \<or> c_e \<in> set s'" by (auto simp: s'_def layout_def layout_int_def)
  ultimately show ?thesis using r len reads_back unfolding d_def by blast
qed

lemma f64_bits_of [simp]: "in64 bits \<Longrightarrow> f64_bits (f64_of bits) = bits"
  by (simp add: f64_bits_def f64_of_def sint_word_ariths sint_sbintrunc' signed_take_bit_int_eq_self in64_def INT64_MIN_def INT64_MAX_def)

lemma zero_text:
  assumes "mag d = 0"
  shows "strtod (sg (signbit d) @ [48, 46, 48]) = d" "kod_f64_valid (sg (signbit d) @ [48, 46, 48]) = 1"
proof -
  have r: "reads_as [48, 46, 48] 0 0"
    unfolding reads_as_def
    by (rule exI [of _ "[48]"], rule exI [of _ "[48]"], rule exI [of _ "[]"]) (simp add: is_exponent_def dec_val_def)
  have "mk_double (signbit d) (mag_of_dec 0 0) = d" using mk_double_mag [of d] by (simp add: mag_of_dec_def mag_of_frac_def assms)
  then show "strtod (sg (signbit d) @ [48, 46, 48]) = d" using reads_as_strtod [OF r, of "signbit d"] by simp
  show "kod_f64_valid (sg (signbit d) @ [48, 46, 48]) = 1" by (rule reads_as_valid(1) [OF r])
qed

lemma to_str_zero:
  assumes "mag (f64_of bits) = 0"
  shows "kod_f64_to_str bits = Some (sg (signbit (f64_of bits)) @ [48, 46, 48])"
  using assms by (simp add: kod_f64_to_str_def Let_def isnan_def isinf_def sg_def bytes_of_def)

lemma to_str_not_finite:
  assumes "\<not> is_finite (f64_of bits)"
  shows "\<exists>s. kod_f64_to_str bits = Some s \<and> length s \<le> 4 \<and> kod_f64_valid s = 0"
  using assms
  by (auto simp: kod_f64_to_str_def Let_def is_finite_def isnan_def isinf_def bytes_of_def kod_f64_valid_def skip_one_def)

section \<open>Conversions\<close>

lemma f64_of_bits [simp]: "f64_of (f64_bits d) = d"
  by (simp add: f64_of_def f64_bits_def)

lemma to_i64_eq:
  "kod_f64_to_i64 bits = (let d = f64_of bits in
     if isnan d then 0 else if isinf d then (if signbit d then INT64_MIN else INT64_MAX)
     else max INT64_MIN (min INT64_MAX (trunc_real (dval d))))"
proof (cases "isnan (f64_of bits) \<or> isinf (f64_of bits)")
  case True
  then show ?thesis by (auto simp: kod_f64_to_i64_def Let_def double_eq_def ge_int_def le_int_def isnan_def isinf_def)
next
  case False
  define d where "d = f64_of bits"
  define b where "b = int (den_mag (mag d))"
  have b: "0 < b" "real_of_int (num_of d) / real_of_int b = dval d"
    using frac_mag(2) [of "mag d"] dval_frac [of d] by (simp_all add: b_def)
  have g: "ge_int d n \<longleftrightarrow> real_of_int n \<le> dval d" "le_int d n \<longleftrightarrow> dval d \<le> real_of_int n" for n
    using False b(1) unfolding b(2) [symmetric] ge_int_def le_int_def d_def [symmetric] b_def [symmetric]
    by (simp_all add: field_simps flip: of_int_mult)
  have "kod_f64_to_i64 bits = (if 9223372036854775808 \<le> dval d then INT64_MAX
      else if dval d \<le> -9223372036854775808 then INT64_MIN else trunc_real (dval d))"
    using False c_quot_trunc [OF b(1), of "num_of d"]
    by (simp add: kod_f64_to_i64_def Let_def d_def [symmetric] b_def [symmetric] g b(2) double_eq_def)
  moreover have "9223372036854775808 \<le> trunc_real (dval d)" if "9223372036854775808 \<le> dval d"
    using that by (subst trunc_bounds(1)) auto
  moreover have "trunc_real (dval d) \<le> -9223372036854775808" if "dval d \<le> -9223372036854775808"
    using that by (subst trunc_bounds(2)) auto
  moreover have "-9223372036854775808 \<le> trunc_real (dval d) \<and> trunc_real (dval d) \<le> 9223372036854775807"
    if "-9223372036854775808 < dval d" "dval d < 9223372036854775808"
    using that by (auto simp: trunc_real_def le_ceiling_iff floor_le_iff ceiling_le_iff le_floor_iff)
  ultimately show ?thesis using False by (auto simp: Let_def d_def [symmetric] INT64_MAX_def INT64_MIN_def)
qed

lemma i64_to_f64_exact:
  assumes "\<bar>n\<bar> \<le> 2 ^ 53"
  shows "is_finite (f64_of (kod_i64_to_f64 n)) \<and> dval (f64_of (kod_i64_to_f64 n)) = real_of_int n"
proof -
  have "nat \<bar>n\<bar> \<le> 2 ^ 53" using assms by simp
  from small_int_exact [OF this] have e: "mag_of_frac (nat \<bar>n\<bar>) 1 < INF_MAG" "vmag (mag_of_frac (nat \<bar>n\<bar>) 1) = \<bar>real_of_int n\<bar>"
    by simp_all
  then have "mag_of_frac (nat \<bar>n\<bar>) 1 < 9223372036854775808" by simp
  from mag_mk_double [OF this, of "n < 0"] e show ?thesis
    unfolding kod_i64_to_f64_def f64_of_bits is_finite_def dval_def by auto
qed

section \<open>Not always the fewest digits\<close>

text \<open>
  The loop tries only the correctly rounded text of each length. At a power of two the gap to the next
  double is smaller below than above, and a text that is not the nearest one of its length may be the
  one that reads back: 2 to the -24 is printed with seventeen digits where sixteen do.
\<close>

lemma sci_loop_last:
  "\<forall>p \<in> set ps. \<not> double_eq (strtod (take 39 (snprintf_e (p - 1) d))) d \<Longrightarrow>
   sci_loop (ps @ [q]) d sci = take 39 (snprintf_e (q - 1) d)"
  by (induction ps arbitrary: sci) (simp_all add: Let_def)

lemma tiny_frac: "num_mag 4499096027743125504 = 4503599627370496" "den_mag 4499096027743125504 = 75557863725914323419136"
  by (simp_all add: num_mag_def den_mag_def mant_def expo_def)

lemma tiny_elog: "elog 10 4503599627370496 75557863725914323419136 = -8"
  by (simp add: elog_def log_down_if)

lemma tiny_sig: "dec_sig p 4499096027743125504 = (let n = rne (4503599627370496 * 10 ^ (p + 8)) 75557863725914323419136 in if n = 10 ^ (p + 1) then (10 ^ p, -7) else (n, -8))"
  by (simp add: dec_sig_def tiny_frac tiny_elog rne_scaled_def Let_def nat_add_distrib add.commute mult.commute)

lemma sixteen_digits_read_back: "mag_of_dec 5960464477539063 (-23) = 4499096027743125504"
  by (simp add: mag_of_dec_def mag_of_frac_def elog_def log_down_if rne_scaled_def rne_def Let_def)

lemma tiny_not_sixteen:
  assumes "p < 16" and "dec_sig p 4499096027743125504 = (n, E)"
  shows "mag_of_dec n (E - int p) \<noteq> 4499096027743125504"
proof -
  from assms(1) have "p = 0 \<or> p = 1 \<or> p = 2 \<or> p = 3 \<or> p = 4 \<or> p = 5 \<or> p = 6 \<or> p = 7 \<or> p = 8 \<or> p = 9 \<or> p = 10 \<or> p = 11 \<or> p = 12 \<or> p = 13 \<or> p = 14 \<or> p = 15" by presburger
  then show ?thesis using assms(2) unfolding tiny_sig
    by (elim disjE) (simp_all add: rne_def mag_of_dec_def mag_of_frac_def elog_def log_down_if rne_scaled_def Let_def)
qed
lemma tiny_word: "mag 4499096027743125504 = 4499096027743125504" "signbit 4499096027743125504 = False"
  by (simp_all add: mag_def signbit_def)

lemma tiny_sig16: "dec_sig 16 4499096027743125504 = (59604644775390625, -8)"
  unfolding tiny_sig by (simp add: rne_def)

lemma tiny_digits: "dec_nat 59604644775390625 = bytes_of ''59604644775390625''"
  by (simp add: dec_nat_step dec_nat_digit bytes_of_def)
lemma dec_nat_8: "dec_nat 8 = [56]"
  by (simp add: dec_nat_step dec_nat_digit bytes_of_def)

lemma tiny_sci: "snprintf_e 16 4499096027743125504 = bytes_of ''5.9604644775390625e-08''"
  by (simp add: snprintf_e_def tiny_word tiny_sig16 tiny_digits dec_nat_8 exp_field_def bytes_of_def)

lemma tiny_to_str: assumes "sci_loop [1..<18] 4499096027743125504 [] = bytes_of ''5.9604644775390625e-08''"
  shows "kod_f64_to_str 4499096027743125504 = Some (bytes_of ''5.9604644775390625e-8'')"
  unfolding kod_f64_to_str_def Let_def f64_of_def of_int_numeral word_of_int_numeral assms tiny_word
  by (simp add: isnan_def isinf_def tiny_word bytes_of_def atoi_def skip_sign_def is_digit_def dec_val_def strip_zeros.simps layout_def dec_nat_8)

lemma sixteen_digits_parse: "kod_f64_parse (bytes_of ''5.960464477539063e-8'') = 4499096027743125504"
proof -
  have "c_str (bytes_of ''5.960464477539063e-8'') = sg False @ bytes_of ''5'' @ c_dot # bytes_of ''960464477539063'' @ bytes_of ''e-8''"
    by (simp add: c_str_def bytes_of_def sg_def)
  moreover have "exp_part (bytes_of ''e-8'') = -8" by (simp add: bytes_of_def exp_part_def atoi_def skip_sign_def is_digit_def dec_val_def)
  moreover have "dec_val (bytes_of ''5'' @ bytes_of ''960464477539063'') = 5960464477539063" by (simp add: bytes_of_def dec_val_def)
  moreover have "all_digits (bytes_of ''5'')" "all_digits (bytes_of ''960464477539063'')" by (simp_all add: bytes_of_def is_digit_def)
  ultimately show ?thesis
    unfolding kod_f64_parse_def using strtod_dot [of "bytes_of ''5''" "bytes_of ''960464477539063''" "bytes_of ''e-8''" False] sixteen_digits_read_back
    by (simp add: bytes_of_def mk_double_def f64_bits_def)
qed
lemma kod_f64_to_str_not_fewest:
  "kod_f64_to_str 4499096027743125504 = Some (bytes_of ''5.9604644775390625e-8'') \<and>
   kod_f64_parse (bytes_of ''5.960464477539063e-8'') = 4499096027743125504"
proof -
  have "\<not> double_eq (strtod (take 39 (snprintf_e (p - 1) 4499096027743125504))) 4499096027743125504" if "p \<in> set [1..<17]" for p
  proof -
    have u: "0 < mag 4499096027743125504" "mag 4499096027743125504 < INF_MAG" "p - 1 \<le> 16" "p - 1 < 16" using that by (auto simp: tiny_word)
    obtain n E where n: "dec_sig (p - 1) (mag 4499096027743125504) = (n, E)" by (cases "dec_sig (p - 1) (mag 4499096027743125504)")
    have "mag_of_dec n (E - int (p - 1)) \<noteq> 4499096027743125504"
      using tiny_not_sixteen [OF u(4)] n unfolding tiny_word by blast
    moreover have "mag_of_dec n (E - int (p - 1)) \<le> INF_MAG" by (simp add: mag_of_dec_def mag_of_frac_def Let_def)
    then have "mag (strtod (snprintf_e (p - 1) 4499096027743125504)) = mag_of_dec n (E - int (p - 1))"
      unfolding strtod_snprintf [OF n dec_sig_near(2,3) [OF u(1,2) n]] by (intro mag_mk_double(1)) linarith
    ultimately have "strtod (snprintf_e (p - 1) 4499096027743125504) \<noteq> 4499096027743125504"
      using tiny_word(1) by metis
    moreover have "take 39 (snprintf_e (p - 1) 4499096027743125504) = snprintf_e (p - 1) 4499096027743125504"
      using snprintf_parts [OF u(1-3)] sci_parts_length by (metis take_all)
    ultimately show ?thesis by (simp add: double_eq_def tiny_word)
  qed
  then have "sci_loop ([1..<17] @ [17]) 4499096027743125504 [] = take 39 (snprintf_e (17 - 1) 4499096027743125504)"
    by (intro sci_loop_last) blast
  moreover have "[1..<17] @ [17] = [1..<18]" by (simp add: upt_rec)
  ultimately have "sci_loop [1..<18] 4499096027743125504 [] = bytes_of ''5.9604644775390625e-08''"
    using tiny_sci by (simp add: bytes_of_def)
  then show ?thesis using tiny_to_str sixteen_digits_parse by simp
qed

section \<open>Properties\<close>

text \<open>
  C20. Every 64-bit pattern prints without writing behind the arrays of the printer. A finite float
  (zeros, subnormals and the sign included) prints as a text that the validator accepts and that the
  parser reads back as exactly the same bits, and the text shows a point or an exponent, so it never
  reads as an integer; infinities and NaN print as texts that are not numbers.
\<close>

theorem kod_f64_round_trip:
  assumes "in64 bits"
  shows "\<exists>s. kod_f64_to_str bits = Some s \<and> length s \<le> 63 \<and>
    (if is_finite (f64_of bits)
     then kod_f64_valid s = 1 \<and> kod_f64_parse s = bits \<and> (c_dot \<in> set s \<or> c_e \<in> set s)
     else kod_f64_valid s = 0)"
proof (cases "is_finite (f64_of bits)")
  case False
  then show ?thesis using to_str_not_finite [of bits] by auto
next
  case True
  then consider "mag (f64_of bits) = 0" | "0 < mag (f64_of bits)" "mag (f64_of bits) < INF_MAG"
    by (auto simp: is_finite_def)
  then show ?thesis
  proof cases
    case 1
    then show ?thesis
      using True to_str_zero [OF 1] zero_text [OF 1] assms by (auto simp: kod_f64_parse_def sg_def)
  next
    case 2
    from to_str_nonzero [OF this] obtain s N q where
      "kod_f64_to_str bits = Some (sg (signbit (f64_of bits)) @ s)" "reads_as s N q" "length s \<le> 40"
      "c_dot \<in> set s \<or> c_e \<in> set s" "strtod (sg (signbit (f64_of bits)) @ s) = f64_of bits" by blast
    moreover have "c_str (sg (signbit (f64_of bits)) @ s) = sg (signbit (f64_of bits)) @ s"
      using reads_as_valid(2) [OF \<open>reads_as s N q\<close>] by (intro c_str_no_NUL) (auto simp: sg_def)
    ultimately show ?thesis
      using True reads_as_valid(1) [of s N q] assms by (auto simp: kod_f64_parse_def sg_def)
  qed
qed

theorem kod_f64_round_trip_witness:
  "\<exists>s. kod_f64_to_str 4591870180066957722 = Some s \<and> kod_f64_parse s = 4591870180066957722"
proof -
  have "in64 4591870180066957722" "is_finite (f64_of 4591870180066957722)"
    by (simp_all add: range_simps is_finite_def mag_def f64_of_def)
  with kod_f64_round_trip [of 4591870180066957722] show ?thesis by auto
qed

text \<open>
  C21. The validator accepts exactly the decimal numbers: an optional sign, digits with an optional
  point and one digit at least, and an optional exponent, signed or not, with digits; nothing before
  and nothing after.
\<close>

theorem kod_f64_valid_iff: "kod_f64_valid s = (if is_decimal s then 1 else 0)"
proof -
  have "kod_f64_valid s \<in> {0, 1}" by (simp add: kod_f64_valid_def Let_def split: prod.splits)
  then show ?thesis using decimal_valid [of s] valid_decimal [of s] by auto
qed

text \<open>
  Converting to an integer drops the fraction and saturates at the ends of the 64-bit range, NaN
  is 0; and an integer of at most 53 bits converts to a float and back unchanged.
\<close>

theorem kod_f64_int_conversion:
  "kod_f64_to_i64 bits =
     (let d = f64_of bits
      in if isnan d then 0
         else if isinf d then (if signbit d then INT64_MIN else INT64_MAX)
         else max INT64_MIN (min INT64_MAX (trunc_real (dval d)))) \<and>
   (\<bar>n\<bar> \<le> 2 ^ 53 \<longrightarrow> kod_f64_to_i64 (kod_i64_to_f64 n) = n)"
proof (intro conjI impI)
  assume n: "\<bar>n\<bar> \<le> 2 ^ 53"
  note e = i64_to_f64_exact [OF n]
  have "trunc_real (real_of_int n) = n" by (simp add: trunc_real_def)
  then show "kod_f64_to_i64 (kod_i64_to_f64 n) = n"
    using e n by (simp add: to_i64_eq Let_def isnan_def isinf_def is_finite_def INT64_MAX_def INT64_MIN_def)
qed (rule to_i64_eq)

theorem kod_f64_int_conversion_witness: "kod_f64_to_i64 (kod_i64_to_f64 (-9007199254740992)) = -9007199254740992"
  using kod_f64_int_conversion [of 0 "-9007199254740992"] by simp

text \<open>
  On finite floats floor, ceil and round (halves away from zero) are exact for every magnitude and
  keep the sign bit, also of a zero result.
\<close>

theorem kod_f64_integral:
  assumes "is_finite (f64_of bits)"
  shows "dval (f64_of (kod_f64_floor bits)) = real_of_int \<lfloor>dval (f64_of bits)\<rfloor> \<and>
    dval (f64_of (kod_f64_ceil bits)) = real_of_int \<lceil>dval (f64_of bits)\<rceil> \<and>
    dval (f64_of (kod_f64_round bits)) = sgn (dval (f64_of bits)) * real_of_int \<lfloor>\<bar>dval (f64_of bits)\<bar> + 1 / 2\<rfloor> \<and>
    (\<forall>g \<in> {kod_f64_floor, kod_f64_ceil, kod_f64_round}.
       is_finite (f64_of (g bits)) \<and> signbit (f64_of (g bits)) = signbit (f64_of bits))"
proof -
  define d where "d = f64_of bits"
  have q: "real_of_int (num_of d) / real_of_int (int (den_mag (mag d))) = dval d" using dval_frac [of d] by simp
  have "is_finite d" using assms by (simp add: d_def)
  note e = floors.exact [OF this] ceils.exact [OF this] rounds.exact [OF this]
  show ?thesis
    using e floor_div_eq [OF den_pos, of "num_of d" "mag d"] ceil_div_eq [OF den_pos, of "num_of d" "mag d"]
      round_div_dval [OF den_pos q [symmetric]]
    unfolding q by (simp add: kod_f64_floor_def kod_f64_ceil_def kod_f64_round_def d_def)
qed

theorem kod_f64_integral_witness:
  "dval (f64_of (kod_f64_floor (-4611686018427387904))) = real_of_int \<lfloor>dval (f64_of (-4611686018427387904))\<rfloor>"
proof -
  have "is_finite (f64_of (-4611686018427387904))" by (simp add: is_finite_def mag_def f64_of_def)
  from kod_f64_integral [OF this] show ?thesis by simp
qed

end
