(* ===== verification/Kod_Process.thy ===== *)
theory Kod_Process
  imports Kod_Stdio "HOL-Library.Multiset" "HOL-Library.Sublist"
begin

text \<open>
  Child processes of \<open>src/stdlib/runtime.c\<close>: running one with its output captured, starting one in
  the background, signalling it, and replacing this process.

  The kernel answers as in \<open>Kod_OS\<close>. \<open>pipe_fds\<close> are the pipe ends this process has open and
  \<open>unreaped\<close> the children it has started and not waited for. \<open>None\<close> also stands for what C leaves
  undefined: a NULL program name. When \<open>waitpid\<close> fails the code reads a status word that nothing has written: \<open>junk\<close> is
  what is in it, and everything here holds for any.
\<close>

section \<open>State\<close>

record proc = stdio +
  pipe_fds :: "int list"
  unreaped :: "int list"

record KodProcessResult =
  status :: int
  stdout_buf :: "byte list"
  stderr_buf :: "byte list"

definition POLLERR :: int where "POLLERR = 8"
definition POLLHUP :: int where "POLLHUP = 16"
definition SIGTERM :: int where "SIGTERM = 15"

definition failed_result :: KodProcessResult where
  "failed_result = \<lparr>status = -1, stdout_buf = [], stderr_buf = []\<rparr>"

section \<open>System calls\<close>

definition sys_pipe :: "'a proc_scheme \<Rightarrow> ((int \<times> int) option \<times> 'a proc_scheme) option" where
  "sys_pipe w = do {
     (a, w) \<leftarrow> call Pipe w;
     case a of
       Pair r s \<Rightarrow> if r < 0 \<or> s < 0 then None else Some (Some (r, s), w\<lparr>pipe_fds := r # s # pipe_fds w\<rparr>)
     | Fail e \<Rightarrow> Some (None, w)
     | _ \<Rightarrow> None
   }"

definition sys_close :: "int \<Rightarrow> 'a proc_scheme \<Rightarrow> 'a proc_scheme option" where
  "sys_close fd w = do {
     (_, w) \<leftarrow> call (Close fd) w;
     Some (w\<lparr>pipe_fds := remove1 fd (pipe_fds w)\<rparr>)
   }"

text \<open>\<open>posix_spawnp\<close>: a new child, or an error number. The program is the first argument.\<close>

definition sys_spawn :: "byte list list \<Rightarrow> file_action list \<Rightarrow> 'a proc_scheme \<Rightarrow> (int option \<times> 'a proc_scheme) option" where
  "sys_spawn argv actions w =
     (if argv = [] then None
      else do {
        (a, w) \<leftarrow> call (Spawn argv actions) w;
        case a of
          Ret pid \<Rightarrow> Some (Some pid, w\<lparr>unreaped := pid # unreaped w\<rparr>)
        | Fail e \<Rightarrow> Some (None, w)
        | _ \<Rightarrow> None
      })"

text \<open>\<open>waitpid\<close>: the status word, when there is one.\<close>

definition sys_waitpid :: "int \<Rightarrow> 'a proc_scheme \<Rightarrow> (int option \<times> 'a proc_scheme) option" where
  "sys_waitpid pid w = do {
     (a, w) \<leftarrow> call (Waitpid pid) w;
     case a of
       Ret st \<Rightarrow> Some (Some st, w\<lparr>unreaped := remove1 pid (unreaped w)\<rparr>)
     | Fail e \<Rightarrow> Some (None, w)
     | _ \<Rightarrow> None
   }"

section \<open>Operations\<close>

text \<open>A capture buffer is its bytes and its capacity.\<close>

type_synonym capture = "byte list \<times> int"

definition append_to_buf :: "capture \<Rightarrow> byte list \<Rightarrow> capture option" where
  "append_to_buf b src =
     (let (buf, cap) = b; need = int (length buf) + int (length src)
      in if need > cap then do { cap \<leftarrow> double_until cap need; Some (buf @ src, cap) }
         else Some (buf @ src, cap))"

definition c_argv :: "byte list list \<Rightarrow> byte list list" where
  "c_argv argv_arr = map c_str argv_arr"

text \<open>The wait status of macOS.\<close>

definition exit_code :: "int \<Rightarrow> int" where
  "exit_code st = (if st mod 128 = 0 then st div 256 mod 256 else -1)"

text \<open>
  The body of the \<open>for\<close> over the two descriptors: \<open>fd\<close> is -1 once the stream has ended. The result is
  the descriptor and the buffer after it; the stream is closed at its end and at any error.
\<close>

definition pump :: "int \<Rightarrow> int \<Rightarrow> capture \<Rightarrow> 'a proc_scheme \<Rightarrow> (int \<times> capture \<times> 'a proc_scheme) option" where
  "pump fd revents b w =
     (if fd < 0 \<or> revents AND (POLLIN OR POLLHUP OR POLLERR) = 0 then Some (fd, b, w)
      else do {
        (a, w) \<leftarrow> call (Read fd 4096) w;
        case a of
          Data bs \<Rightarrow>
            if bs = [] then do { w \<leftarrow> sys_close fd w; Some (-1, b, w) }
            else do { b \<leftarrow> append_to_buf b bs; Some (fd, b, w) }
        | Fail e \<Rightarrow> do { w \<leftarrow> sys_close fd w; Some (-1, b, w) }
        | _ \<Rightarrow> None
      })"

definition open_count :: "int \<Rightarrow> int \<Rightarrow> int" where
  "open_count fo fe = (if fo < 0 then 0 else 1) + (if fe < 0 then 0 else 1)"

partial_function (option) capture_loop ::
  "int \<Rightarrow> int \<Rightarrow> capture \<Rightarrow> capture \<Rightarrow> 'a proc_scheme \<Rightarrow> (capture \<times> capture \<times> 'a proc_scheme) option" where
  "capture_loop fo fe bo be w =
     (if open_count fo fe = 0 then Some (bo, be, w)
      else do {
        (a, w) \<leftarrow> call (Poll [(fo, POLLIN), (fe, POLLIN)] (-1)) w;
        case a of
          Fail e \<Rightarrow> Some (bo, be, w)
        | Events [ro, re] \<Rightarrow> do {
            (fo, bo, w) \<leftarrow> pump fo ro bo w;
            (fe, be, w) \<leftarrow> pump fe re be w;
            capture_loop fo fe bo be w
          }
        | _ \<Rightarrow> None
      })"

text \<open>From the spawned child on.\<close>

definition collect :: "int \<Rightarrow> int \<Rightarrow> int \<Rightarrow> int \<Rightarrow> 'a proc_scheme \<Rightarrow> (KodProcessResult \<times> 'a proc_scheme) option" where
  "collect junk pid fo fe w = do {
     (bo, be, w) \<leftarrow> capture_loop fo fe ([], 256) ([], 256) w;
     (st, w) \<leftarrow> sys_waitpid pid w;
     let st = (case st of Some st \<Rightarrow> st | None \<Rightarrow> junk);
     Some (\<lparr>status = exit_code st, stdout_buf = fst bo, stderr_buf = fst be\<rparr>, w)
   }"

definition pipe_actions :: "int \<times> int \<Rightarrow> int \<Rightarrow> file_action list" where
  "pipe_actions p target = [Add_Close (fst p), Add_Dup2 (snd p) target, Add_Close (snd p)]"

definition run_with_pipes :: "int \<Rightarrow> byte list list \<Rightarrow> int \<times> int \<Rightarrow> int \<times> int \<Rightarrow> 'a proc_scheme \<Rightarrow> (KodProcessResult \<times> 'a proc_scheme) option" where
  "run_with_pipes junk argv out_pipe err_pipe w = do {
     (pid, w) \<leftarrow> sys_spawn argv (pipe_actions out_pipe 1 @ pipe_actions err_pipe 2) w;
     w \<leftarrow> sys_close (snd out_pipe) w;
     w \<leftarrow> sys_close (snd err_pipe) w;
     case pid of
       None \<Rightarrow> do {
         w \<leftarrow> sys_close (fst out_pipe) w;
         w \<leftarrow> sys_close (fst err_pipe) w;
         Some (failed_result, w)
       }
     | Some pid \<Rightarrow> collect junk pid (fst out_pipe) (fst err_pipe) w
   }"

definition kod_run_process :: "int \<Rightarrow> byte list list \<Rightarrow> 'a proc_scheme \<Rightarrow> (KodProcessResult \<times> 'a proc_scheme) option" where
  "kod_run_process junk argv_arr w = do {
     let argv = c_argv argv_arr;
     (out_pipe, w) \<leftarrow> sys_pipe w;
     case out_pipe of
       None \<Rightarrow> Some (failed_result, w)
     | Some out_pipe \<Rightarrow> do {
         (err_pipe, w) \<leftarrow> sys_pipe w;
         case err_pipe of
           None \<Rightarrow> Some (failed_result, w)
         | Some err_pipe \<Rightarrow> run_with_pipes junk argv out_pipe err_pipe w
       }
   }"

definition kod_spawn :: "byte list list \<Rightarrow> 'a proc_scheme \<Rightarrow> (int \<times> 'a proc_scheme) option" where
  "kod_spawn argv_arr w =
     (if argv_arr = [] then Some (-1, w)
      else do {
        let dev_null = bytes_of ''/dev/null'';
        (pid, w) \<leftarrow> sys_spawn (c_argv argv_arr) [Add_Open 0 dev_null 0, Add_Open 1 dev_null 1, Add_Open 2 dev_null 1] w;
        Some (case pid of Some pid \<Rightarrow> pid | None \<Rightarrow> -1, w)
      })"

definition kod_kill :: "int \<Rightarrow> 'a proc_scheme \<Rightarrow> (int \<times> 'a proc_scheme) option" where
  "kod_kill pid w =
     (if pid \<le> 0 then Some (0, w)
      else do {
        (a, w) \<leftarrow> call (Kill (c_int pid) SIGTERM) w;
        case a of
          Fail e \<Rightarrow> Some (0, w)
        | Ret _ \<Rightarrow> do { (_, w) \<leftarrow> sys_waitpid (c_int pid) w; Some (1, w) }
        | _ \<Rightarrow> None
      })"

text \<open>\<open>execvp\<close> returns only when it fails: the result is \<open>None\<close> when this program is gone.\<close>

definition kod_exec :: "byte list list \<Rightarrow> 'a proc_scheme \<Rightarrow> (int option \<times> 'a proc_scheme) option" where
  "kod_exec argv_arr w =
     (if argv_arr = [] then Some (Some (-1), w)
      else do {
        let w = fflush_stdout w;
        (a, w) \<leftarrow> call (Exec (c_argv argv_arr)) w;
        case a of Fail e \<Rightarrow> Some (Some (-1), w) | Ret _ \<Rightarrow> Some (None, w) | _ \<Rightarrow> None
      })"

section \<open>Descriptors and children\<close>

named_theorems proc_steps \<open>what a successful call did to the descriptors and the children\<close>

lemma call_proc [proc_steps]:
  "call c w = Some (a, w') \<Longrightarrow> pipe_fds w' = pipe_fds w \<and> unreaped w' = unreaped w \<and> issued w' = issued w @ [c]"
  by (auto elim!: call_cases)


lemma sys_close_proc [proc_steps]:
  "sys_close fd w = Some w' \<Longrightarrow> mset (pipe_fds w') = mset (pipe_fds w) - {#fd#} \<and> unreaped w' = unreaped w \<and>
     issued w' = issued w @ [Close fd]"
  by (auto simp: sys_close_def split: Option.bind_splits dest!: call_proc)



definition ends :: "int \<Rightarrow> int multiset" where
  "ends fd = (if fd < 0 then {#} else {#fd#})"

lemma pump_proc [proc_steps]:
  assumes "pump fd re b w = Some (fd', b', w')" and "mset (pipe_fds w) = base + ends fd"
  shows "mset (pipe_fds w') = base + ends fd' \<and> unreaped w' = unreaped w"
  using assms
  by (auto simp: pump_def ends_def split: if_splits Option.bind_splits answer.splits dest!: call_proc sys_close_proc)

lemma capture_loop_step:
  assumes "open_count fo fe \<noteq> 0"
  shows "capture_loop fo fe bo be w = do {
        (a, w) \<leftarrow> call (Poll [(fo, POLLIN), (fe, POLLIN)] (-1)) w;
        case a of
          Fail e \<Rightarrow> Some (bo, be, w)
        | Events [ro, re] \<Rightarrow> do {
            (fo, bo, w) \<leftarrow> pump fo ro bo w;
            (fe, be, w) \<leftarrow> pump fe re be w;
            capture_loop fo fe bo be w
          }
        | _ \<Rightarrow> None
      }"
  using assms by (subst capture_loop.simps) simp

lemma capture_loop_done: "open_count fo fe = 0 \<Longrightarrow> capture_loop fo fe bo be w = Some (bo, be, w)"
  by (subst capture_loop.simps) simp












section \<open>Captured output\<close>

text \<open>
  A run of the child as the parent sees it: what \<open>poll\<close> reports of each stream in each round of the loop, and what a read of it then
  finds: some bytes, or its end (no bytes). A stream is read exactly when something is reported of it (\<open>event_ok\<close>); what is
  reported may be any of the flags together, data and hang-up included, as at the end of a child that leaves output in the pipe.
  \<open>script\<close> is what the kernel answers, given which streams are still open.
\<close>

type_synonym event = "int \<times> byte list option"
type_synonym round = "event \<times> event"

definition event_ok :: "event \<Rightarrow> bool" where
  "event_ok c \<longleftrightarrow> (fst c AND (POLLIN OR POLLHUP OR POLLERR) \<noteq> 0) = (snd c \<noteq> None)"

definition reads :: "bool \<Rightarrow> byte list option \<Rightarrow> answer list" where
  "reads isopen c = (if isopen then (case c of None \<Rightarrow> [] | Some bs \<Rightarrow> Data bs # (if bs = [] then [Ret 0] else [])) else [])"

definition stays :: "bool \<Rightarrow> byte list option \<Rightarrow> bool" where
  "stays isopen c \<longleftrightarrow> isopen \<and> c \<noteq> Some []"

fun script :: "bool \<Rightarrow> bool \<Rightarrow> round list \<Rightarrow> answer list" where
  "script ho he [] = []"
| "script ho he ((c, d) # rs) = Events [fst c, fst d] # reads ho (snd c) @ reads he (snd d) @
     script (stays ho (snd c)) (stays he (snd d)) rs"

fun finished :: "bool \<Rightarrow> bool \<Rightarrow> round list \<Rightarrow> bool" where
  "finished ho he [] \<longleftrightarrow> \<not> ho \<and> \<not> he"
| "finished ho he ((c, d) # rs) \<longleftrightarrow> (ho \<or> he) \<and> event_ok c \<and> event_ok d \<and> finished (stays ho (snd c)) (stays he (snd d)) rs"

text \<open>The calls of the parent in such a run: each round polls what is open, reads what is reported and closes what has ended.\<close>

definition asks :: "int \<Rightarrow> byte list option \<Rightarrow> syscall list" where
  "asks fd c = (if fd < 0 then [] else case c of None \<Rightarrow> [] | Some bs \<Rightarrow> Read fd 4096 # (if bs = [] then [Close fd] else []))"

definition next_fd :: "int \<Rightarrow> byte list option \<Rightarrow> int" where
  "next_fd fd c = (if 0 \<le> fd \<and> c = Some [] then -1 else fd)"

lemma next_fd_open: "(0 \<le> next_fd fd c) = stays (0 \<le> fd) c"
  by (auto simp: next_fd_def stays_def)

fun script_calls :: "int \<Rightarrow> int \<Rightarrow> round list \<Rightarrow> syscall list" where
  "script_calls fo fe [] = []"
| "script_calls fo fe ((c, d) # rs) = Poll [(fo, POLLIN), (fe, POLLIN)] (-1) # asks fo (snd c) @ asks fe (snd d) @
     script_calls (next_fd fo (snd c)) (next_fd fe (snd d)) rs"

definition out_of :: "round list \<Rightarrow> byte list option list" where
  "out_of rs = map (snd \<circ> fst) rs"

definition err_of :: "round list \<Rightarrow> byte list option list" where
  "err_of rs = map (snd \<circ> snd) rs"

fun written :: "bool \<Rightarrow> byte list option list \<Rightarrow> byte list" where
  "written isopen [] = []"
| "written isopen (c # cs) = (if isopen then (case c of None \<Rightarrow> [] | Some bs \<Rightarrow> bs) else []) @ written (stays isopen c) cs"

definition buf_ok :: "capture \<Rightarrow> bool" where
  "buf_ok b \<longleftrightarrow> 0 < snd b \<and> int (length (fst b)) \<le> snd b \<and> snd b \<le> INT64_MAX"

lemma append_to_buf_spec:
  assumes "buf_ok b" and "2 * int (length (fst b @ bs)) \<le> INT64_MAX"
  shows "\<exists>cap. append_to_buf b bs = Some (fst b @ bs, cap) \<and> buf_ok (fst b @ bs, cap)"
proof (cases "int (length (fst b)) + int (length bs) > snd b")
  case True
  obtain c where "double_until (snd b) (int (length (fst b)) + int (length bs)) = Some c" "snd b \<le> c"
    "int (length (fst b)) + int (length bs) \<le> c" "c = snd b \<or> c < 2 * (int (length (fst b)) + int (length bs))"
    using double_until_returns [of "snd b" "int (length (fst b)) + int (length bs)"] assms by (auto simp: buf_ok_def)
  then show ?thesis using True assms by (auto simp: append_to_buf_def buf_ok_def Let_def split: prod.splits)
next
  case False
  then show ?thesis using assms by (cases b) (auto simp: append_to_buf_def buf_ok_def)
qed

lemma pump_spec:
  assumes "answers w = reads (0 \<le> fd) c @ as" and "buf_ok b" and "event_ok (re, c)"
    and "2 * int (length (fst b @ written (0 \<le> fd) [c])) \<le> INT64_MAX"
  shows "\<exists>cap w'. pump fd re b w = Some (next_fd fd c, (fst b @ written (0 \<le> fd) [c], cap), w') \<and>
    answers w' = as \<and> issued w' = issued w @ asks fd c \<and> buf_ok (fst b @ written (0 \<le> fd) [c], cap)"
proof -
  consider "fd < 0" | "0 \<le> fd" "c = None" | "0 \<le> fd" "c = Some []" | bs where "0 \<le> fd" "c = Some bs" "bs \<noteq> []"
    by (cases "fd < 0"; cases c; cases "c = Some []") auto
  then show ?thesis
  proof cases
    case 4
    then obtain cap where "append_to_buf b bs = Some (fst b @ bs, cap)" "buf_ok (fst b @ bs, cap)"
      using append_to_buf_spec [of b bs] assms(2,4) by (auto simp: stays_def)
    then show ?thesis
      using 4 assms(1,3) by (auto simp: pump_def event_ok_def reads_def stays_def call_def next_fd_def asks_def)
  qed (use assms in \<open>cases b; auto simp: pump_def event_ok_def reads_def stays_def call_def sys_close_def next_fd_def asks_def\<close>)+
qed

lemma capture_loop_captures:
  assumes "finished (0 \<le> fo) (0 \<le> fe) rs" and "answers w = script (0 \<le> fo) (0 \<le> fe) rs @ as"
    and "buf_ok bo" and "buf_ok be" and "mset (pipe_fds w) = base + ends fo + ends fe"
    and "2 * int (length (fst bo @ written (0 \<le> fo) (out_of rs))) \<le> INT64_MAX"
    and "2 * int (length (fst be @ written (0 \<le> fe) (err_of rs))) \<le> INT64_MAX"
  shows "\<exists>co ce w'. capture_loop fo fe bo be w =
      Some ((fst bo @ written (0 \<le> fo) (out_of rs), co), (fst be @ written (0 \<le> fe) (err_of rs), ce), w') \<and>
    answers w' = as \<and> unreaped w' = unreaped w \<and> mset (pipe_fds w') = base \<and>
    issued w' = issued w @ script_calls fo fe rs"
  using assms
proof (induction rs arbitrary: fo fe bo be w)
  case Nil
  then have "open_count fo fe = 0" "ends fo = {#}" "ends fe = {#}" by (auto simp: open_count_def ends_def)
  then show ?case using Nil capture_loop_done [of fo fe bo be w] by (cases bo; cases be) (auto simp: out_of_def err_of_def)
next
  case (Cons cd rs)
  obtain rc c rd d where cd: "cd = ((rc, c), (rd, d))" by (metis surj_pair)
  let ?ho = "0 \<le> fo" and ?he = "0 \<le> fe"
  define w1 where "w1 = w\<lparr>answers := reads ?ho c @ reads ?he d @ script (stays ?ho c) (stays ?he d) rs @ as,
    issued := issued w @ [Poll [(fo, POLLIN), (fe, POLLIN)] (-1)]\<rparr>"
  have call1: "call (Poll [(fo, POLLIN), (fe, POLLIN)] (-1)) w = Some (Events [rc, rd], w1)"
    using Cons.prems(2) cd by (simp add: call_eq w1_def)
  have oc: "open_count fo fe \<noteq> 0" and ev: "event_ok (rc, c)" "event_ok (rd, d)" using Cons.prems(1) cd by (auto simp: open_count_def)
  have len: "2 * int (length (fst bo @ written ?ho [c])) \<le> INT64_MAX" "2 * int (length (fst be @ written ?he [d])) \<le> INT64_MAX"
    using Cons.prems(6,7) cd by (simp_all add: out_of_def err_of_def)
  obtain co w2 where p1: "pump fo rc bo w1 = Some (next_fd fo c, (fst bo @ written ?ho [c], co), w2)"
    "answers w2 = reads ?he d @ script (stays ?ho c) (stays ?he d) rs @ as" "issued w2 = issued w1 @ asks fo c"
    "buf_ok (fst bo @ written ?ho [c], co)"
    using pump_spec [of w1 fo c "reads ?he d @ script (stays ?ho c) (stays ?he d) rs @ as" bo, OF _ Cons.prems(3) ev(1) len(1)]
    by (auto simp: w1_def)
  obtain ce w3 where p2: "pump fe rd be w2 = Some (next_fd fe d, (fst be @ written ?he [d], ce), w3)"
    "answers w3 = script (stays ?ho c) (stays ?he d) rs @ as" "issued w3 = issued w2 @ asks fe d"
    "buf_ok (fst be @ written ?he [d], ce)"
    using pump_spec [OF p1(2) Cons.prems(4) ev(2) len(2)] by auto
  have "mset (pipe_fds w1) = (base + ends fe) + ends fo" using Cons.prems(5) by (simp add: w1_def ac_simps)
  note q1 = pump_proc [OF p1(1) this]
  then have "mset (pipe_fds w2) = (base + ends (next_fd fo c)) + ends fe" by (simp add: ac_simps)
  note q2 = pump_proc [OF p2(1) this]
  have st: "capture_loop fo fe bo be w = capture_loop (next_fd fo c) (next_fd fe d) (fst bo @ written ?ho [c], co) (fst be @ written ?he [d], ce) w3"
    using oc by (simp add: capture_loop_step call1 p1(1) p2(1))
  from Cons.IH [of "next_fd fo c" "next_fd fe d" w3 "(fst bo @ written ?ho [c], co)" "(fst be @ written ?he [d], ce)"]
  show ?case
    using Cons.prems(1,6,7) cd p1 p2 q1 q2 unfolding st next_fd_open by (auto simp: w1_def out_of_def err_of_def)
qed

section \<open>Properties\<close>

text \<open>
  C22. Running a process never blocks on one pipe while the other fills: however the child spreads its
  output over the two streams and over time, with any chunk sizes, and whatever mix of data and hang-up \<open>poll\<close> reports, the call returns after the child
  has closed both, with exactly the bytes written to each stream and the exit code; all pipe ends are
  closed again and the child is reaped.
\<close>

theorem kod_run_process_captures:
  assumes "argv \<noteq> []" and "finished True True rs"
    and "answers w = [Pair r s, Pair r' s', Ret pid, c1, c2] @ script True True rs @ Ret st # as"
    and "0 \<le> r" and "0 \<le> s" and "0 \<le> r'" and "0 \<le> s'"
    and "2 * int (length (written True (out_of rs))) \<le> INT64_MAX"
    and "2 * int (length (written True (err_of rs))) \<le> INT64_MAX"
  shows "\<exists>w'. kod_run_process junk argv w = Some (\<lparr>status = exit_code st, stdout_buf = written True (out_of rs),
      stderr_buf = written True (err_of rs)\<rparr>, w') \<and>
    answers w' = as \<and> unreaped w' = unreaped w \<and> mset (pipe_fds w') = mset (pipe_fds w) \<and>
    issued w' = issued w @ [Pipe, Pipe, Spawn (c_argv argv) (pipe_actions (r, s) 1 @ pipe_actions (r', s') 2), Close s, Close s'] @
      script_calls r r' rs @ [Waitpid pid]"
proof -
  let ?start = "issued w @ [Pipe, Pipe, Spawn (c_argv argv) (pipe_actions (r, s) 1 @ pipe_actions (r', s') 2), Close s, Close s']"
  have "\<exists>w0. kod_run_process junk argv w = collect junk pid r r' w0 \<and> answers w0 = script True True rs @ Ret st # as \<and> issued w0 = ?start \<and>
      unreaped w0 = pid # unreaped w \<and> pipe_fds w0 = remove1 s' (remove1 s (r' # s' # r # s # pipe_fds w))"
    using assms(1,3-7)
    by (simp add: kod_run_process_def run_with_pipes_def sys_pipe_def sys_spawn_def sys_close_def call_def c_argv_def
        del: remove1.simps) (rule exI, rule conjI, rule refl, simp del: remove1.simps)
  then obtain w0 where r0: "kod_run_process junk argv w = collect junk pid r r' w0"
    and w0: "answers w0 = script True True rs @ Ret st # as" "issued w0 = ?start" "unreaped w0 = pid # unreaped w"
      "pipe_fds w0 = remove1 s' (remove1 s (r' # s' # r # s # pipe_fds w))" by blast
  have "add_mset r' (add_mset s' (add_mset r (add_mset s (mset (pipe_fds w))))) - {#s#} - {#s'#} =
      mset (pipe_fds w) + {#r#} + {#r'#}" by (simp add: multiset_eq_iff)
  then have "mset (pipe_fds w0) = mset (pipe_fds w) + ends r + ends r'"
    using assms(4,6) by (simp add: w0(4) ends_def del: remove1.simps)
  from capture_loop_captures [OF _ _ _ _ this, of rs "Ret st # as" "([], 256)" "([], 256)"]
  obtain co ce w1 where "capture_loop r r' ([], 256) ([], 256) w0 =
      Some ((written True (out_of rs), co), (written True (err_of rs), ce), w1)"
    "answers w1 = Ret st # as" "unreaped w1 = pid # unreaped w" "mset (pipe_fds w1) = mset (pipe_fds w)" "issued w1 = ?start @ script_calls r r' rs"
    using assms w0 by (auto simp: buf_ok_def INT64_MAX_def)
  then show ?thesis unfolding r0 by (simp add: collect_def sys_waitpid_def call_def)
qed

text \<open>The last bytes of the output come with the hang-up.\<close>

theorem kod_run_process_captures_witness:
  "\<exists>w'. kod_run_process 9 [bytes_of ''ls''] \<lparr>answers = [Pair 3 4, Pair 5 6, Ret 77, Ret 0, Ret 0,
      Events [1, 0], Data [104], Events [17, 1], Data [105], Data [33], Events [0, 16], Data [], Ret 0, Events [16, 0], Data [], Ret 0,
      Ret 256], issued = [], g_io_errno = 0, environ = (\<lambda>_. None), out_buf = [], out_to = Shared, sink = [],
      files = (\<lambda>_. None), exit_status = None, pipe_fds = [], unreaped = []\<rparr> =
    Some (\<lparr>status = 1, stdout_buf = [104, 105], stderr_buf = [33]\<rparr>, w') \<and> unreaped w' = []"
proof -
  let ?rs = "[((1, Some [104]), (0, None)), ((17, Some [105]), (1, Some [33])), ((0, None), (16, Some [])), ((16, Some []), (0, None))] :: round list"
  let ?w = "\<lparr>answers = [Pair 3 4, Pair 5 6, Ret 77, Ret 0, Ret 0] @ script True True ?rs @ Ret 256 # [],
      issued = [], g_io_errno = 0, environ = (\<lambda>_. None), out_buf = [], out_to = Shared, sink = [],
      files = (\<lambda>_. None), exit_status = None, pipe_fds = [], unreaped = []\<rparr> :: proc"
  have f: "finished True True ?rs"
    by (simp add: event_ok_def stays_def POLLIN_def POLLHUP_def POLLERR_def)
  have "\<exists>w'. kod_run_process 9 [bytes_of ''ls''] ?w = Some (\<lparr>status = exit_code 256, stdout_buf = written True (out_of ?rs),
      stderr_buf = written True (err_of ?rs)\<rparr>, w') \<and> answers w' = [] \<and> unreaped w' = unreaped ?w \<and>
      mset (pipe_fds w') = mset (pipe_fds ?w) \<and>
      issued w' = issued ?w @ [Pipe, Pipe, Spawn (c_argv [bytes_of ''ls'']) (pipe_actions (3, 4) 1 @ pipe_actions (5, 6) 2), Close 4, Close 6] @
        script_calls 3 5 ?rs @ [Waitpid 77]"
    by (rule kod_run_process_captures [where ?c1.0 = "Ret 0" and ?c2.0 = "Ret 0", OF _ f])
      (simp_all add: stays_def INT64_MAX_def out_of_def err_of_def)
  then show ?thesis by (auto simp: stays_def reads_def exit_code_def out_of_def err_of_def)
qed


definition demo_proc :: "answer list \<Rightarrow> proc" where
  "demo_proc as = \<lparr>answers = as, issued = [], g_io_errno = 0, environ = (\<lambda>_. None), out_buf = [], out_to = Shared, sink = [],
     files = (\<lambda>_. None), exit_status = None, pipe_fds = [], unreaped = []\<rparr>"


text \<open>A signal interrupts \<open>waitpid\<close>: the exit code is made of whatever was in the status word, and the child stays.\<close>

lemma kod_run_process_unreaped:
  "\<exists>w'. kod_run_process junk [[108, 115]] (demo_proc [Pair 3 4, Pair 5 6, Ret 77, Ret 0, Ret 0,
      Events [16, 16], Data [], Ret 0, Data [], Ret 0, Fail EINTR]) =
     Some (\<lparr>status = exit_code junk, stdout_buf = [], stderr_buf = []\<rparr>, w') \<and> unreaped w' = [77]"
  by (simp add: kod_run_process_def run_with_pipes_def sys_pipe_def sys_spawn_def sys_close_def call_def c_argv_def c_str_def
      collect_def capture_loop_step capture_loop_done open_count_def pump_def sys_waitpid_def demo_proc_def POLLIN_def POLLHUP_def POLLERR_def)

text \<open>The guard of \<open>kod_kill\<close> looks at 64 bits, the call at 32: this one signals every process.\<close>

lemma kod_kill_truncates:
  "answers w = Ret 0 # Ret st # as \<Longrightarrow>
   \<exists>w'. kod_kill 4294967295 w = Some (1, w') \<and> issued w' = issued w @ [Kill (-1) SIGTERM, Waitpid (-1)]"
  by (simp add: kod_kill_def c_int_def call_def sys_waitpid_def)

text \<open>Everything printed is out before the program is replaced.\<close>

lemma kod_exec_flushes:
  "argv \<noteq> [] \<Longrightarrow> out_to w = Shared \<Longrightarrow> kod_exec argv w = Some (r, w') \<Longrightarrow> sink w' = printed w \<and> out_buf w' = []"
  by (auto simp: kod_exec_def fflush_stdout_def emit_out_def printed_def split: Option.bind_splits answer.splits elim!: call_cases)

end
