(* ===== verification/Kod_Tls.thy ===== *)
theory Kod_Tls
  imports Kod_OS
begin

text \<open>
  \<open>src/stdlib/net/tls.c\<close>: a TLS client session over a connected descriptor.

  SecureTransport, CoreFoundation and the Security framework are a parameter, the record
  \<open>framework\<close>. A call that may use the connection (\<open>SSLHandshake\<close>, \<open>SSLRead\<close>, \<open>SSLWrite\<close>, \<open>SSLClose\<close>)
  is a finite tree of requests: \<open>Recv\<close> and \<open>Send\<close> are its calls of \<open>read_cb\<close> and \<open>write_cb\<close>, and it
  goes on with what they return. So the callbacks, which are code of this file, run in the model
  whenever the framework calls them, on the kernel's answers.

  The state counts the CoreFoundation objects, the \<open>malloc\<close> blocks and the streams the file holds, and
  logs what is done with the trust objects, in order. \<open>None\<close> is a kernel answer that is not there, a
  handshake that never ends, or \<open>CFRelease(NULL)\<close>, which aborts the program.
\<close>

section \<open>State and parameters\<close>

abbreviation noErr :: int where "noErr \<equiv> 0"
abbreviation errSecSuccess :: int where "errSecSuccess \<equiv> 0"
definition errSSLWouldBlock :: int where "errSSLWouldBlock = -9803"
definition errSSLClosedGraceful :: int where "errSSLClosedGraceful = -9805"
definition errSSLClosedAbort :: int where "errSSLClosedAbort = -9806"
definition errSSLClosedNoNotify :: int where "errSSLClosedNoNotify = -9816"
definition errSSLServerAuthCompleted :: int where "errSSLServerAuthCompleted = -9841"
definition errSecIO :: int where "errSecIO = -36"
definition errSecAllocate :: int where "errSecAllocate = -108"

lemmas osstatus_defs = errSSLWouldBlock_def errSSLClosedGraceful_def errSSLClosedAbort_def
  errSSLClosedNoNotify_def errSSLServerAuthCompleted_def errSecIO_def errSecAllocate_def

record Conn =
  cfd :: int
  io_errno :: int
  timed_out :: bool
  clean_eof :: bool

type_synonym cert = "byte list"

text \<open>What \<open>SecTrustSetAnchorCertificates\<close> and \<open>SecTrustSetAnchorCertificatesOnly\<close> set (\<open>None\<close>: NULL).\<close>

datatype trust_setting = Anchors "cert list option" | Anchors_Only bool

datatype trust_event = Trust_Set trust_setting int | Evaluated bool

record tls = io +
  g_status :: int
  g_message :: "byte list"
  cf_objects :: int
  heap_blocks :: int
  open_streams :: int
  trust_log :: "trust_event list"

datatype 'r request =
    Return 'r
  | Recv nat "int \<Rightarrow> byte list \<Rightarrow> 'r request"
  | Send "byte list" "int \<Rightarrow> nat \<Rightarrow> 'r request"

datatype setting = Set_IO_Funcs | Set_Connection | Set_Min_TLS12 | Set_Peer_Name "byte list" | Set_Break_On_Server_Auth

text \<open>
  \<open>fw_error_text\<close>: the message of a status (\<open>None\<close>: NULL), and its bytes if they could be converted.
  \<open>fw_data\<close>: whether \<open>CFDataCreate\<close> succeeds. \<open>fw_import\<close>: \<open>SecItemImport\<close> of a PEM file.
  \<open>fw_peer_trust\<close>: a trust object for the server's certificates, whose states are the type \<open>'t\<close>.
  \<open>fw_trust_set\<close>: the status of a setting and the object after it. \<open>fw_evaluate\<close>: whether the object
  in this state trusts the certificates, the error object, and its description.
\<close>

record ('c, 't) framework =
  fw_error_text :: "int \<Rightarrow> byte list option option"
  fw_data :: "byte list \<Rightarrow> bool"
  fw_import :: "byte list \<Rightarrow> int \<times> cert list option"
  fw_create :: "'c option"
  fw_set :: "setting \<Rightarrow> 'c \<Rightarrow> int \<times> 'c"
  fw_handshake :: "'c \<Rightarrow> (int \<times> 'c) request"
  fw_peer_trust :: "'c \<Rightarrow> int \<times> 't option"
  fw_trust_set :: "trust_setting \<Rightarrow> 't \<Rightarrow> int \<times> 't"
  fw_evaluate :: "'t \<Rightarrow> bool \<times> byte list option option"
  fw_read :: "'c \<Rightarrow> nat \<Rightarrow> (int \<times> byte list \<times> 'c) request"
  fw_buffered :: "'c \<Rightarrow> nat"
  fw_write :: "'c \<Rightarrow> byte list \<Rightarrow> (int \<times> nat \<times> 'c) request"
  fw_close :: "'c \<Rightarrow> 'c request"

record 'c Session =
  ctx :: 'c
  conn :: Conn
  eof :: bool

section \<open>Failures\<close>

definition kod_tls_status :: "'a tls_scheme \<Rightarrow> int" where
  "kod_tls_status w = g_status w"

definition kod_tls_message :: "'a tls_scheme \<Rightarrow> byte list" where
  "kod_tls_message w = c_str (g_message w)"

definition os_failure :: "int \<Rightarrow> 'a tls_scheme \<Rightarrow> int \<times> 'a tls_scheme" where
  "os_failure err w = (-1, kod_io_set_errno err (w\<lparr>g_status := 1\<rparr>))"

definition tls_failure_text :: "byte list \<Rightarrow> 'a tls_scheme \<Rightarrow> int \<times> 'a tls_scheme" where
  "tls_failure_text txt w = (-1, w\<lparr>g_status := 2, g_message := take 511 (c_str txt)\<rparr>)"

text \<open>The text object is released again, so the count of objects does not change.\<close>

definition tls_failure :: "('c, 't) framework \<Rightarrow> byte list \<Rightarrow> int \<Rightarrow> 'a tls_scheme \<Rightarrow> int \<times> 'a tls_scheme" where
  "tls_failure F what code w =
     (case fw_error_text F code of
        Some (Some txt) \<Rightarrow> (-1, w\<lparr>g_status := 2, g_message := txt\<rparr>)
      | _ \<Rightarrow> tls_failure_text (c_str what @ bytes_of '' (OSStatus '' @ dec_int code @ bytes_of '')'') w)"

section \<open>Callbacks\<close>

text \<open>\<open>got\<close> is what is in the buffer so far. More bytes than asked for are no answer of \<open>read\<close>.\<close>

partial_function (option) read_cb_loop ::
  "nat \<Rightarrow> byte list \<Rightarrow> Conn \<Rightarrow> 'a io_scheme \<Rightarrow> (int \<times> byte list \<times> Conn \<times> 'a io_scheme) option" where
  "read_cb_loop want got c w =
     (if length got < want then do {
        (a, w) \<leftarrow> call (Read (cfd c) (int (want - length got))) w;
        case a of
          Data bs \<Rightarrow>
            if length bs > want - length got then None
            else if bs \<noteq> [] then read_cb_loop want (got @ bs) c w
            else Some (errSSLClosedGraceful, got, if got = [] then c\<lparr>clean_eof := True\<rparr> else c, w)
        | Fail e \<Rightarrow>
            if e = EINTR then read_cb_loop want got c w
            else if e = EAGAIN then Some (errSSLWouldBlock, got, c\<lparr>timed_out := True\<rparr>, w)
            else Some (errSecIO, got, c\<lparr>io_errno := e\<rparr>, w)
        | _ \<Rightarrow> None
      } else Some (noErr, got, c, w))"

definition read_cb :: "nat \<Rightarrow> Conn \<Rightarrow> 'a io_scheme \<Rightarrow> (int \<times> byte list \<times> Conn \<times> 'a io_scheme) option" where
  "read_cb want c w = read_cb_loop want [] c w"

partial_function (option) write_cb_loop ::
  "byte list \<Rightarrow> nat \<Rightarrow> Conn \<Rightarrow> 'a io_scheme \<Rightarrow> (int \<times> nat \<times> Conn \<times> 'a io_scheme) option" where
  "write_cb_loop data put c w =
     (if put < length data then do {
        (a, w) \<leftarrow> call (Write (cfd c) (drop put data)) w;
        case a of
          Ret n \<Rightarrow>
            if n < 0 \<or> nat n > length data - put then None
            else if n > 0 then write_cb_loop data (put + nat n) c w
            else Some (errSecIO, put, c\<lparr>io_errno := EPIPE\<rparr>, w)
        | Fail e \<Rightarrow>
            if e = EINTR then write_cb_loop data put c w
            else if e = EAGAIN then Some (errSSLWouldBlock, put, c\<lparr>timed_out := True\<rparr>, w)
            else Some (errSecIO, put, c\<lparr>io_errno := e\<rparr>, w)
        | _ \<Rightarrow> None
      } else Some (noErr, put, c, w))"

definition write_cb :: "byte list \<Rightarrow> Conn \<Rightarrow> 'a io_scheme \<Rightarrow> (int \<times> nat \<times> Conn \<times> 'a io_scheme) option" where
  "write_cb data c w = write_cb_loop data 0 c w"

text \<open>A framework call with its callbacks.\<close>

primrec serve :: "'r request \<Rightarrow> Conn \<Rightarrow> 'a io_scheme \<Rightarrow> ('r \<times> Conn \<times> 'a io_scheme) option" where
  "serve (Return r) = (\<lambda>c w. Some (r, c, w))"
| "serve (Recv n k) = (\<lambda>c w. do { (st, bs, c, w) \<leftarrow> read_cb n c w; serve (k st bs) c w })"
| "serve (Send bs k) = (\<lambda>c w. do { (st, n, c, w) \<leftarrow> write_cb bs c w; serve (k st n) c w })"

section \<open>Sessions\<close>

definition closed_status :: "int \<Rightarrow> bool" where
  "closed_status st \<longleftrightarrow> st = errSSLClosedGraceful \<or> st = errSSLClosedNoNotify \<or> st = errSSLClosedAbort"

definition tls_failed :: "('c, 't) framework \<Rightarrow> 'c Session \<Rightarrow> int \<Rightarrow> byte list \<Rightarrow> 'a tls_scheme \<Rightarrow> int \<times> 'c Session \<times> 'a tls_scheme" where
  "tls_failed F s st what w =
     (if timed_out (conn s) then
        (let (rc, w) = os_failure EAGAIN w in (rc, s\<lparr>conn := (conn s)\<lparr>timed_out := False\<rparr>\<rparr>, w))
      else if st = errSecIO \<and> io_errno (conn s) \<noteq> 0 then
        (let (rc, w) = os_failure (io_errno (conn s)) w in (rc, s\<lparr>conn := (conn s)\<lparr>io_errno := 0\<rparr>\<rparr>, w))
      else if closed_status st then
        (let (rc, w) = tls_failure_text (bytes_of ''connection closed'') w in (rc, s, w))
      else
        (let (rc, w) = tls_failure F what st w in (rc, s, w)))"

text \<open>
  \<open>fopen\<close> fails with an error number or gives what \<open>ftell\<close> says at the end and the bytes of the stream.
  When \<open>CFDataCreate\<close> fails, its NULL is passed on and then released: \<open>None\<close>.
\<close>

type_synonym trust_store = "byte list \<Rightarrow> int + (int \<times> byte list)"

definition load_certificates :: "('c, 't) framework \<Rightarrow> trust_store \<Rightarrow> (int \<Rightarrow> bool) \<Rightarrow> byte list \<Rightarrow> 'a tls_scheme \<Rightarrow>
    (cert list option \<times> 'a tls_scheme) option" where
  "load_certificates F fopen alloc_ok path w =
     (case fopen (c_str path) of
        Inl e \<Rightarrow> Some (None, snd (os_failure e w))
      | Inr (fsize, content) \<Rightarrow>
          (let w = w\<lparr>open_streams := open_streams w + 1\<rparr>
           in if fsize < 0 \<or> fsize > 16777216 then
                (let w = w\<lparr>open_streams := open_streams w - 1\<rparr>
                 in Some (None, snd (tls_failure_text (bytes_of ''trust file is too large'') w)))
              else
                (let ok = alloc_ok (fsize + 1);
                     w = (if ok then w\<lparr>heap_blocks := heap_blocks w + 1\<rparr> else w);
                     bytes = take (nat fsize) content;
                     w = w\<lparr>open_streams := open_streams w - 1\<rparr>
                 in if \<not> ok \<or> int (length bytes) \<noteq> fsize then
                      (let w = (if ok then w\<lparr>heap_blocks := heap_blocks w - 1\<rparr> else w)
                       in Some (None, snd (os_failure EIO w)))
                    else if \<not> fw_data F bytes then None
                    else
                      (let w = w\<lparr>cf_objects := cf_objects w + 1\<rparr>;
                           w = w\<lparr>heap_blocks := heap_blocks w - 1\<rparr>;
                           (st, items) = fw_import F bytes;
                           w = (if items = None then w else w\<lparr>cf_objects := cf_objects w + 1\<rparr>);
                           w = w\<lparr>cf_objects := cf_objects w - 1\<rparr>
                       in case items of
                            Some cs \<Rightarrow>
                              if st \<noteq> errSecSuccess \<or> cs = [] then
                                (let w = w\<lparr>cf_objects := cf_objects w - 1\<rparr>
                                 in Some (None, snd (tls_failure_text (bytes_of ''trust file holds no certificate'') w)))
                              else Some (Some cs, w)
                          | None \<Rightarrow> Some (None, snd (tls_failure_text (bytes_of ''trust file holds no certificate'') w))))))"

text \<open>One setting of the trust object. The code does not look at the status.\<close>

definition trust_set :: "('c, 't) framework \<Rightarrow> trust_setting \<Rightarrow> 't \<Rightarrow> 'a tls_scheme \<Rightarrow> 't \<times> 'a tls_scheme" where
  "trust_set F x t w = (let (st, t) = fw_trust_set F x t in (t, w\<lparr>trust_log := trust_log w @ [Trust_Set x st]\<rparr>))"

text \<open>The trust, error and text objects are released before the function returns.\<close>

definition check_trust :: "('c, 't) framework \<Rightarrow> 'c \<Rightarrow> cert list option \<Rightarrow> 'a tls_scheme \<Rightarrow> int \<times> 'a tls_scheme" where
  "check_trust F c anchors w =
     (let (st, trust) = fw_peer_trust F c
      in case trust of
           Some t \<Rightarrow>
             if st \<noteq> errSecSuccess then tls_failure F (bytes_of ''no server certificate'') st w
             else
               (let (t, w) = trust_set F (Anchors anchors) t w;
                    (t, w) = trust_set F (Anchors_Only True) t w;
                    (ok, err) = fw_evaluate F t;
                    w = w\<lparr>trust_log := trust_log w @ [Evaluated ok]\<rparr>
                in if ok then (0, w)
                   else
                     (let (rc, w) = tls_failure_text (bytes_of ''certificate is not trusted'') w
                      in (rc, case err of Some (Some txt) \<Rightarrow> w\<lparr>g_message := txt\<rparr> | _ \<Rightarrow> w)))
         | None \<Rightarrow> tls_failure F (bytes_of ''no server certificate'') st w)"

fun set_all :: "('c, 't) framework \<Rightarrow> setting list \<Rightarrow> 'c \<Rightarrow> int \<times> 'c" where
  "set_all F [] c = (noErr, c)"
| "set_all F (x # xs) c = (let (st, c) = fw_set F x c in if st = noErr then set_all F xs c else (st, c))"

partial_function (option) handshake_loop ::
  "('c, 't) framework \<Rightarrow> cert list option \<Rightarrow> 'c Session \<Rightarrow> 'a tls_scheme \<Rightarrow> (int \<times> 'c Session \<times> 'a tls_scheme) option" where
  "handshake_loop F anchors s w = do {
     ((st, c), cn, w) \<leftarrow> serve (fw_handshake F (ctx s)) (conn s) w;
     let s = s\<lparr>ctx := c, conn := cn\<rparr>;
     if st = errSSLServerAuthCompleted then
       (let (rc, w) = check_trust F (ctx s) anchors w
        in if rc < 0 then Some (rc, s, w) else handshake_loop F anchors s w)
     else if st \<noteq> noErr then Some (tls_failed F s st (bytes_of ''TLS handshake failed'') w)
     else Some (0, s, w)
   }"

definition release :: "cert list option \<Rightarrow> 'a tls_scheme \<Rightarrow> 'a tls_scheme" where
  "release anchors w = (if anchors = None then w else w\<lparr>cf_objects := cf_objects w - 1\<rparr>)"

definition session_settings :: "byte list \<Rightarrow> cert list option \<Rightarrow> setting list" where
  "session_settings host anchors =
     [Set_IO_Funcs, Set_Connection, Set_Min_TLS12, Set_Peer_Name host] @
     (if anchors = None then [] else [Set_Break_On_Server_Auth])"

text \<open>With the session allocated: \<open>None\<close> as the session is -1.\<close>

definition open_session :: "('c, 't) framework \<Rightarrow> int \<Rightarrow> byte list \<Rightarrow> cert list option \<Rightarrow> 'a tls_scheme \<Rightarrow>
    ('c Session option \<times> 'a tls_scheme) option" where
  "open_session F fd host anchors w =
     (case fw_create F of
        None \<Rightarrow> None
      | Some c \<Rightarrow> do {
          let w = w\<lparr>cf_objects := cf_objects w + 1\<rparr>;
          let (st, c) = set_all F (session_settings host anchors) c;
          let s = \<lparr>ctx = c, conn = \<lparr>cfd = c_int fd, io_errno = 0, timed_out = False, clean_eof = False\<rparr>, eof = False\<rparr>;
          (rc, s, w) \<leftarrow> (if st \<noteq> noErr
             then (let (rc, w) = tls_failure F (bytes_of ''could not set up the session'') st w in Some (rc, s, w))
             else handshake_loop F anchors s w);
          let w = release anchors w;
          if rc < 0 then Some (None, w\<lparr>cf_objects := cf_objects w - 1, heap_blocks := heap_blocks w - 1\<rparr>)
          else Some (Some s, w\<lparr>g_status := 0\<rparr>)
        })"

definition kod_tls_open :: "('c, 't) framework \<Rightarrow> trust_store \<Rightarrow> (int \<Rightarrow> bool) \<Rightarrow> int \<Rightarrow> byte list \<Rightarrow> byte list \<Rightarrow> 'a tls_scheme \<Rightarrow>
    ('c Session option \<times> 'a tls_scheme) option" where
  "kod_tls_open F fopen alloc_ok fd host trust_file w = do {
     (anchors, w) \<leftarrow> (if trust_file = [] then Some (None, w) else load_certificates F fopen alloc_ok trust_file w);
     if trust_file \<noteq> [] \<and> anchors = None then Some (None, w)
     else if \<not> alloc_ok 32 then Some (None, snd (os_failure ENOMEM (release anchors w)))
     else open_session F fd host anchors (w\<lparr>heap_blocks := heap_blocks w + 1\<rparr>)
   }"

section \<open>Reading, writing and closing\<close>

definition kod_tls_read :: "('c, 't) framework \<Rightarrow> 'c Session \<Rightarrow> int \<Rightarrow> 'a tls_scheme \<Rightarrow> (byte list \<times> 'c Session \<times> 'a tls_scheme) option" where
  "kod_tls_read F s maxlen w = do {
     let w = w\<lparr>g_status := 0\<rparr>;
     let maxlen = (if maxlen > 65536 then 65536 else maxlen);
     if maxlen \<le> 0 \<or> eof s then Some ([], s, w)
     else do {
       ((st, got, c), cn, w) \<leftarrow> serve (fw_read F (ctx s) 1) (conn s) w;
       let s = s\<lparr>ctx := c, conn := cn\<rparr>;
       let buffered = fw_buffered F (ctx s);
       if length got + buffered > 0 then do {
         let room = nat maxlen - length got;
         let ask = (if buffered < room then buffered else room);
         (got, s, w) \<leftarrow> (if ask > 0 then do {
              ((st2, more, c), cn, w) \<leftarrow> serve (fw_read F (ctx s) ask) (conn s) w;
              Some (if st2 = noErr then got @ more else got, s\<lparr>ctx := c, conn := cn\<rparr>, w)
            } else Some (got, s, w));
         Some (got, if closed_status st then s\<lparr>eof := True\<rparr> else s, w)
       }
       else if st = errSSLClosedGraceful \<or> st = errSSLClosedNoNotify \<or> st = errSSLClosedAbort \<and> clean_eof (conn s)
       then Some ([], s\<lparr>eof := True\<rparr>, w)
       else if st = errSSLClosedAbort
       then Some ([], s, snd (tls_failure_text (bytes_of ''connection closed in the middle of a record'') w))
       else (let (rc, s, w) = tls_failed F s st (bytes_of ''TLS read failed'') w in Some ([], s, w))
     }
   }"

definition kod_tls_write :: "('c, 't) framework \<Rightarrow> 'c Session \<Rightarrow> byte list \<Rightarrow> 'a tls_scheme \<Rightarrow> (int \<times> 'c Session \<times> 'a tls_scheme) option" where
  "kod_tls_write F s data w = do {
     let w = w\<lparr>g_status := 0\<rparr>;
     if data = [] then Some (0, s, w)
     else do {
       ((st, n, c), cn, w) \<leftarrow> serve (fw_write F (ctx s) data) (conn s) w;
       let s = s\<lparr>ctx := c, conn := cn\<rparr>;
       if st \<noteq> noErr then Some (tls_failed F s st (bytes_of ''TLS write failed'') w)
       else Some (int n, s, w)
     }
   }"

definition kod_tls_close :: "('c, 't) framework \<Rightarrow> 'c Session \<Rightarrow> 'a tls_scheme \<Rightarrow> 'a tls_scheme option" where
  "kod_tls_close F s w = do {
     (_, _, w) \<leftarrow> serve (fw_close F (ctx s)) (conn s) w;
     Some (w\<lparr>cf_objects := cf_objects w - 1, heap_blocks := heap_blocks w - 1\<rparr>)
   }"

section \<open>What the callbacks leave\<close>

text \<open>\<open>read\<close> delivers nonempty chunks and is interrupted, until an answer that ends the loop.\<close>

definition arrives :: "answer \<Rightarrow> bool" where
  "arrives a \<longleftrightarrow> a = Fail EINTR \<or> (\<exists>bs. a = Data bs \<and> bs \<noteq> [])"

fun received :: "answer list \<Rightarrow> byte list" where
  "received [] = []"
| "received (Data bs # as) = bs @ received as"
| "received (_ # as) = received as"

definition read_end :: "answer \<Rightarrow> bool \<Rightarrow> Conn \<Rightarrow> int \<times> Conn" where
  "read_end a first c =
     (case a of
        Fail e \<Rightarrow> if e = EAGAIN then (errSSLWouldBlock, c\<lparr>timed_out := True\<rparr>) else (errSecIO, c\<lparr>io_errno := e\<rparr>)
      | _ \<Rightarrow> (errSSLClosedGraceful, if first then c\<lparr>clean_eof := True\<rparr> else c))"

lemma read_cb_loop_step:
  "length got < want \<Longrightarrow> read_cb_loop want got c w = do {
        (a, w) \<leftarrow> call (Read (cfd c) (int (want - length got))) w;
        case a of
          Data bs \<Rightarrow>
            if length bs > want - length got then None
            else if bs \<noteq> [] then read_cb_loop want (got @ bs) c w
            else Some (errSSLClosedGraceful, got, if got = [] then c\<lparr>clean_eof := True\<rparr> else c, w)
        | Fail e \<Rightarrow>
            if e = EINTR then read_cb_loop want got c w
            else if e = EAGAIN then Some (errSSLWouldBlock, got, c\<lparr>timed_out := True\<rparr>, w)
            else Some (errSecIO, got, c\<lparr>io_errno := e\<rparr>, w)
        | _ \<Rightarrow> None
      }"
  by (subst read_cb_loop.simps) simp

lemma read_cb_loop_done: "want \<le> length got \<Longrightarrow> read_cb_loop want got c w = Some (noErr, got, c, w)"
  by (subst read_cb_loop.simps) simp

text \<open>Each call asks for what is still missing after the answers before it.\<close>

fun read_asks :: "int \<Rightarrow> nat \<Rightarrow> answer list \<Rightarrow> syscall list" where
  "read_asks fd want [] = []"
| "read_asks fd want (a # as) = Read fd (int want) # read_asks fd (want - length (received [a])) as"

lemma read_cb_loop_runs:
  assumes "list_all arrives es" and "answers w = es @ as" and "length (got @ received es) < want"
  shows "read_cb_loop want got c w = read_cb_loop want (got @ received es) c
    (w\<lparr>answers := as, issued := issued w @ read_asks (cfd c) (want - length got) es\<rparr>)"
  using assms
proof (induction es arbitrary: got w)
  case Nil
  then show ?case by (cases w) simp
next
  case (Cons e es)
  define w1 where "w1 = w\<lparr>answers := es @ as, issued := issued w @ [Read (cfd c) (int (want - length got))]\<rparr>"
  have c1: "call (Read (cfd c) (int (want - length got))) w = Some (e, w1)" using Cons.prems(2) by (simp add: call_eq w1_def)
  have lt: "length got < want" using Cons.prems(3) by simp
  have r: "received (e # es) = received [e] @ received es" by (cases e) auto
  have "read_cb_loop want got c w = read_cb_loop want (got @ received [e]) c w1"
    using read_cb_loop_step [OF lt, of c w] c1 Cons.prems(1,3) by (auto simp: arrives_def)
  also have "\<dots> = read_cb_loop want ((got @ received [e]) @ received es) c
      (w1\<lparr>answers := as, issued := issued w1 @ read_asks (cfd c) (want - length (got @ received [e])) es\<rparr>)"
    using Cons.prems by (intro Cons.IH) (auto simp: w1_def r)
  finally show ?case by (simp add: r w1_def)
qed

lemma read_asks_snoc: "length (received es) \<le> want \<Longrightarrow>
    read_asks fd want (es @ [a]) = read_asks fd want es @ [Read fd (int (want - length (received es)))]"
proof (induction es arbitrary: want)
  case (Cons e es)
  then show ?case by (cases e) auto
qed simp

lemma read_cb_all:
  assumes "list_all arrives es" and "answers w = es @ Data bs # as" and "bs \<noteq> []" and "length (received es @ bs) = want"
  shows "read_cb want c w = Some (noErr, received es @ bs, c,
    w\<lparr>answers := as, issued := issued w @ read_asks (cfd c) want (es @ [Data bs])\<rparr>)"
proof -
  have lt: "length ([] @ received es) < want" using assms(3,4) by (cases bs) auto
  show ?thesis
    using read_cb_loop_runs [OF assms(1,2) lt, of c] lt assms(3,4)
    by (auto simp: read_cb_def read_cb_loop_step read_cb_loop_done call_eq read_asks_snoc)
qed

lemma read_cb_ends:
  assumes "list_all arrives es" and "answers w = es @ a # as" and "length (received es) < want"
    and "a = Data [] \<or> (\<exists>e. a = Fail e \<and> e \<noteq> EINTR)"
  shows "read_cb want c w = Some (fst (read_end a (received es = []) c), received es, snd (read_end a (received es = []) c),
    w\<lparr>answers := as, issued := issued w @ read_asks (cfd c) want (es @ [a])\<rparr>)"
proof -
  have lt: "length ([] @ received es) < want" using assms(3) by simp
  show ?thesis
    using read_cb_loop_runs [OF assms(1,2) lt, of c] assms(3,4)
    by (auto simp: read_cb_def read_cb_loop_step call_eq read_end_def read_asks_snoc)
qed

text \<open>\<open>write\<close> takes some of the bytes and is interrupted, until an answer that ends the loop.\<close>

definition accepts :: "answer \<Rightarrow> bool" where
  "accepts a \<longleftrightarrow> a = Fail EINTR \<or> (\<exists>n > 0. a = Ret n)"

fun taken :: "answer list \<Rightarrow> nat" where
  "taken [] = 0"
| "taken (Ret n # as) = nat n + taken as"
| "taken (_ # as) = taken as"

definition write_end :: "answer \<Rightarrow> Conn \<Rightarrow> int \<times> Conn" where
  "write_end a c =
     (case a of
        Fail e \<Rightarrow> if e = EAGAIN then (errSSLWouldBlock, c\<lparr>timed_out := True\<rparr>) else (errSecIO, c\<lparr>io_errno := e\<rparr>)
      | _ \<Rightarrow> (errSecIO, c\<lparr>io_errno := EPIPE\<rparr>))"

lemma write_cb_loop_step:
  "put < length data \<Longrightarrow> write_cb_loop data put c w = do {
        (a, w) \<leftarrow> call (Write (cfd c) (drop put data)) w;
        case a of
          Ret n \<Rightarrow>
            if n < 0 \<or> nat n > length data - put then None
            else if n > 0 then write_cb_loop data (put + nat n) c w
            else Some (errSecIO, put, c\<lparr>io_errno := EPIPE\<rparr>, w)
        | Fail e \<Rightarrow>
            if e = EINTR then write_cb_loop data put c w
            else if e = EAGAIN then Some (errSSLWouldBlock, put, c\<lparr>timed_out := True\<rparr>, w)
            else Some (errSecIO, put, c\<lparr>io_errno := e\<rparr>, w)
        | _ \<Rightarrow> None
      }"
  by (subst write_cb_loop.simps) simp

lemma write_cb_loop_done: "length data \<le> put \<Longrightarrow> write_cb_loop data put c w = Some (noErr, put, c, w)"
  by (subst write_cb_loop.simps) simp

fun write_asks :: "int \<Rightarrow> byte list \<Rightarrow> answer list \<Rightarrow> syscall list" where
  "write_asks fd data [] = []"
| "write_asks fd data (a # as) = Write fd data # write_asks fd (drop (taken [a]) data) as"

lemma write_cb_loop_runs:
  assumes "list_all accepts es" and "answers w = es @ as" and "put + taken es < length data"
  shows "write_cb_loop data put c w = write_cb_loop data (put + taken es) c
    (w\<lparr>answers := as, issued := issued w @ write_asks (cfd c) (drop put data) es\<rparr>)"
  using assms
proof (induction es arbitrary: put w)
  case Nil
  then show ?case by (cases w) simp
next
  case (Cons e es)
  define w1 where "w1 = w\<lparr>answers := es @ as, issued := issued w @ [Write (cfd c) (drop put data)]\<rparr>"
  have c1: "call (Write (cfd c) (drop put data)) w = Some (e, w1)" using Cons.prems(2) by (simp add: call_eq w1_def)
  have lt: "put < length data" using Cons.prems(3) by simp
  have k: "taken (e # es) = taken [e] + taken es" by (cases e) auto
  have "write_cb_loop data put c w = write_cb_loop data (put + taken [e]) c w1"
    using write_cb_loop_step [OF lt, of c w] c1 Cons.prems(1,3) by (auto simp: accepts_def)
  also have "\<dots> = write_cb_loop data (put + taken [e] + taken es) c
      (w1\<lparr>answers := as, issued := issued w1 @ write_asks (cfd c) (drop (put + taken [e]) data) es\<rparr>)"
    using Cons.prems k by (intro Cons.IH) (auto simp: w1_def)
  finally show ?case by (simp add: k w1_def ac_simps)
qed

lemma write_asks_snoc:
  "write_asks fd data (es @ [a]) = write_asks fd data es @ [Write fd (drop (taken es) data)]"
proof (induction es arbitrary: data)
  case (Cons e es)
  then show ?case by (cases e) (auto simp: add.commute)
qed simp

lemma write_cb_all:
  assumes "list_all accepts es" and "answers w = es @ Ret n # as" and "0 < n" and "taken es + nat n = length data"
  shows "write_cb data c w = Some (noErr, length data, c,
    w\<lparr>answers := as, issued := issued w @ write_asks (cfd c) data (es @ [Ret n])\<rparr>)"
proof -
  have lt: "0 + taken es < length data" using assms(3,4) by simp
  show ?thesis
    using write_cb_loop_runs [OF assms(1,2) lt, of c] assms(3,4) lt
    by (auto simp: write_cb_def write_cb_loop_step write_cb_loop_done call_eq write_asks_snoc)
qed

lemma write_cb_ends:
  assumes "list_all accepts es" and "answers w = es @ a # as" and "taken es < length data"
    and "a = Ret 0 \<or> (\<exists>e. a = Fail e \<and> e \<noteq> EINTR)"
  shows "write_cb data c w = Some (fst (write_end a c), taken es, snd (write_end a c),
    w\<lparr>answers := as, issued := issued w @ write_asks (cfd c) data (es @ [a])\<rparr>)"
proof -
  have lt: "0 + taken es < length data" using assms(3) by simp
  show ?thesis
    using write_cb_loop_runs [OF assms(1,2) lt, of c] assms(3,4)
    by (auto simp: write_cb_def write_cb_loop_step call_eq write_end_def write_asks_snoc)
qed

section \<open>What a framework call leaves\<close>

definition only_io :: "'a io_scheme \<Rightarrow> 'a io_scheme \<Rightarrow> bool" where
  "only_io w w' \<longleftrightarrow> (\<exists>as is. w' = w\<lparr>answers := as, issued := is\<rparr>)"

lemma only_io_refl [simp]: "only_io w w"
  by (auto simp: only_io_def intro!: exI [of _ "answers w"] exI [of _ "issued w"])

lemma only_io_trans: "only_io w w' \<Longrightarrow> only_io w' w'' \<Longrightarrow> only_io w w''"
  unfolding only_io_def by (elim exE) (simp, intro exI, rule refl)

lemma call_only_io: "call c w = Some (a, w') \<Longrightarrow> only_io w w'"
  by (auto simp: only_io_def elim!: call_cases)

lemma read_cb_only_io:
  "read_cb_loop want got c w = Some r \<Longrightarrow> only_io w (snd (snd (snd r)))"
proof (induct want got c w r rule: read_cb_loop.raw_induct [rotated 1, consumes 1, case_names 1])
  case (1 loop want got c w r)
  show ?case
  proof (cases "length got < want")
    case True
    then obtain a w1 where c: "call (Read (cfd c) (int (want - length got))) w = Some (a, w1)"
      using 1(2) by (auto split: Option.bind_splits)
    have "only_io w1 (snd (snd (snd r)))"
      using 1(2) True c by (auto split: answer.splits if_splits dest!: 1(1))
    then show ?thesis using call_only_io [OF c] only_io_trans by blast
  qed (use 1(2) in auto)
qed

lemma write_cb_only_io:
  "write_cb_loop data put c w = Some r \<Longrightarrow> only_io w (snd (snd (snd r)))"
proof (induct data put c w r rule: write_cb_loop.raw_induct [rotated 1, consumes 1, case_names 1])
  case (1 loop data put c w r)
  show ?case
  proof (cases "put < length data")
    case True
    then obtain a w1 where c: "call (Write (cfd c) (drop put data)) w = Some (a, w1)"
      using 1(2) by (auto split: Option.bind_splits)
    have "only_io w1 (snd (snd (snd r)))"
      using 1(2) True c by (auto split: answer.splits if_splits dest!: 1(1))
    then show ?thesis using call_only_io [OF c] only_io_trans by blast
  qed (use 1(2) in auto)
qed

lemma serve_spec:
  "serve q c w = Some (r, c', w') \<Longrightarrow> r \<in> set_request q \<and> only_io w w'"
proof (induction q arbitrary: c w)
  case (Recv n k)
  then obtain st bs c1 w1 where r: "read_cb n c w = Some (st, bs, c1, w1)" "serve (k st bs) c1 w1 = Some (r, c', w')"
    by (auto split: Option.bind_splits)
  have "only_io w w1" using read_cb_only_io [of n "[]" c w] r(1) by (auto simp: read_cb_def)
  then show ?case using Recv.IH [OF _ _ r(2)] only_io_trans by (auto intro: rangeI)
next
  case (Send bs k)
  then obtain st n c1 w1 where r: "write_cb bs c w = Some (st, n, c1, w1)" "serve (k st n) c1 w1 = Some (r, c', w')"
    by (auto split: Option.bind_splits)
  have "only_io w w1" using write_cb_only_io [of bs 0 c w] r(1) by (auto simp: write_cb_def)
  then show ?case using Send.IH [OF _ _ r(2)] only_io_trans by (auto intro: rangeI)
qed simp

section \<open>Opening\<close>

text \<open>What the file holds, and what a step that only reports a failure keeps.\<close>

definition held :: "'a tls_scheme \<Rightarrow> int \<times> int \<times> int" where
  "held w = (cf_objects w, heap_blocks w, open_streams w)"

definition fails_only :: "'a tls_scheme \<Rightarrow> 'a tls_scheme \<Rightarrow> bool" where
  "fails_only w w' \<longleftrightarrow> g_status w' \<in> {1, 2} \<and> held w' = held w \<and> trust_log w' = trust_log w"

lemma only_io_keeps:
  "only_io w w' \<Longrightarrow> held w' = held w \<and> trust_log w' = trust_log w \<and> g_status w' = g_status w"
  by (auto simp: only_io_def held_def)

lemma os_failure_only: "os_failure e w = (rc, w') \<Longrightarrow> rc = -1 \<and> fails_only w w'"
  by (auto simp: os_failure_def fails_only_def held_def kod_io_set_errno_def)

lemma tls_failure_text_only: "tls_failure_text t w = (rc, w') \<Longrightarrow> rc = -1 \<and> fails_only w w'"
  by (auto simp: tls_failure_text_def fails_only_def held_def)

lemma tls_failure_only: "tls_failure F t st w = (rc, w') \<Longrightarrow> rc = -1 \<and> fails_only w w'"
  by (auto simp: tls_failure_def fails_only_def held_def split: option.splits dest!: tls_failure_text_only)

lemmas failure_only = os_failure_only tls_failure_text_only tls_failure_only

lemma tls_failed_only: "tls_failed F s st what w = (rc, s', w') \<Longrightarrow> rc = -1 \<and> fails_only w w' \<and> eof s' = eof s"
  by (auto simp: tls_failed_def Let_def split: if_splits prod.splits dest!: failure_only)





text \<open>
  The status of the two settings is not looked at: when neither takes effect, the certificates are
  checked against whatever the trust object uses without them.
\<close>

lemma trust_settings_unchecked:
  assumes "fw_peer_trust F c = (errSecSuccess, Some t)" and "\<And>x. fw_trust_set F x t = (errSecAllocate, t)"
    and "fw_evaluate F t = (True, e)"
  shows "fst (check_trust F c anchors w) = 0"
  using assms by (simp add: check_trust_def trust_set_def)






section \<open>Reading\<close>

text \<open>
  What SecureTransport documents of \<open>SSLRead\<close> and \<open>SSLGetBufferedReadSize\<close>: no more bytes than asked for,
  and what is buffered is delivered without touching the connection.
\<close>

definition delivers :: "('c, 't) framework \<Rightarrow> bool" where
  "delivers F \<longleftrightarrow>
     (\<forall>c n st bs c'. (st, bs, c') \<in> set_request (fw_read F c n) \<longrightarrow> length bs \<le> n) \<and>
     (\<forall>c n. 0 < n \<longrightarrow> n \<le> fw_buffered F c \<longrightarrow> (\<exists>bs c'. fw_read F c n = Return (noErr, bs, c') \<and> bs \<noteq> []))"

lemma read_more:
  assumes "delivers F" and "0 < length got + fw_buffered F c" and "length got \<le> 1" and "0 < m"
    and "ask = (if fw_buffered F c < m - length got then fw_buffered F c else m - length got)"
    and "(if ask > 0 then do {
              ((st2, more, c), cn, w) \<leftarrow> serve (fw_read F c ask) cn w;
              Some (if st2 = noErr then got @ more else got, s\<lparr>ctx := c, conn := cn\<rparr>, w)
            } else Some (got, s, w)) = Some (r, s', w')"
  shows "r \<noteq> [] \<and> length r \<le> m \<and> w' = w \<and> eof s' = eof s"
proof (cases "ask > 0")
  case True
  then have "ask \<le> fw_buffered F c" "length got + ask \<le> m" using assms(3,4,5) by (auto split: if_splits)
  then obtain bs c' where f: "fw_read F c ask = Return (noErr, bs, c')" "bs \<noteq> []"
    using assms(1) True unfolding delivers_def by blast
  moreover have "(noErr, bs, c') \<in> set_request (fw_read F c ask)" using f(1) by simp
  ultimately have "length bs \<le> ask" using assms(1) unfolding delivers_def by blast
  then show ?thesis using assms(6) True f \<open>length got + ask \<le> m\<close> by auto
next
  case False
  then have "got \<noteq> []" using assms(2,3,4,5) by (cases got) (auto split: if_splits)
  then show ?thesis using False assms(3,4,6) by auto
qed

lemma read_failed:
  assumes "(let (rc, s, w) = tls_failed F s1 st what w1 in Some ([], s, w)) = Some (r, s', w')"
  shows "r = [] \<and> g_status w' \<in> {1, 2} \<and> eof s' = eof s1"
  using assms tls_failed_only by (fastforce simp: fails_only_def split: prod.splits)

text \<open>
  When \<open>SSLCreateContext\<close> fails, the path that reports the failure releases the context all the same:
  \<open>CFRelease(NULL)\<close> aborts the program.
\<close>

lemma kod_tls_open_aborts:
  assumes "fw_create F = None" and "alloc_ok 32"
  shows "kod_tls_open F fopen alloc_ok fd host [] w = None"
  using assms by (simp add: kod_tls_open_def open_session_def)

text \<open>Closing gives back what opening took, whatever the close notice meets on the connection.\<close>

lemma kod_tls_close_releases:
  assumes "kod_tls_close F s w = Some w'"
  shows "held w' = (cf_objects w - 1, heap_blocks w - 1, open_streams w) \<and> kod_tls_status w' = kod_tls_status w"
proof -
  obtain c cn w1 where sv: "serve (fw_close F (ctx s)) (conn s) w = Some (c, cn, w1)"
    and w': "w' = w1\<lparr>cf_objects := cf_objects w1 - 1, heap_blocks := heap_blocks w1 - 1\<rparr>"
    using assms by (auto simp: kod_tls_close_def split: Option.bind_splits)
  show ?thesis using w' serve_spec [OF sv] only_io_keeps [of w w1] by (simp add: held_def kod_tls_status_def)
qed

text \<open>A write is all or a failure with its status, when \<open>SSLWrite\<close> succeeds only with all the data taken.\<close>

lemma kod_tls_write_spec:
  assumes "kod_tls_write F s data w = Some (n, s', w')"
    and "\<And>c bs n c'. (noErr, n, c') \<in> set_request (fw_write F c bs) \<Longrightarrow> n = length bs"
  shows "if kod_tls_status w' = 0 then n = int (length data) else n = -1"
proof (cases "data = []")
  case False
  then obtain st k c cn w1 where sv: "serve (fw_write F (ctx s) data) (conn s) (w\<lparr>g_status := 0\<rparr>) = Some ((st, k, c), cn, w1)"
    and r: "(if st \<noteq> noErr then tls_failed F (s\<lparr>ctx := c, conn := cn\<rparr>) st (bytes_of ''TLS write failed'') w1
        else (int k, s\<lparr>ctx := c, conn := cn\<rparr>, w1)) = (n, s', w')"
    using assms(1) by (auto simp: kod_tls_write_def Let_def split: Option.bind_splits if_splits)
  have "g_status w1 = 0" using serve_spec [OF sv] only_io_keeps [of "w\<lparr>g_status := 0\<rparr>" w1] by simp
  then show ?thesis using r serve_spec [OF sv] assms(2)
    by (auto simp: kod_tls_status_def fails_only_def split: if_splits dest!: tls_failed_only)
qed (use assms(1) in \<open>auto simp: kod_tls_write_def kod_tls_status_def\<close>)

section \<open>An example framework\<close>

text \<open>
  Its contexts are numbers: 0 is fresh, 1 is to stop for the server's certificates, 2 is past them. The
  handshake reads four bytes; three bytes are always buffered. A trust object is the pair of its settings,
  and trusts the certificates when the anchors, and only those, are to be used.
\<close>

definition demo_framework :: "(nat, cert list option \<times> bool) framework" where
  "demo_framework = \<lparr>
     fw_error_text = (\<lambda>_. None),
     fw_data = (\<lambda>_. True),
     fw_import = (\<lambda>bs. (0, Some [bs])),
     fw_create = Some 0,
     fw_set = (\<lambda>x c. (0, if x = Set_Break_On_Server_Auth then 1 else c)),
     fw_handshake = (\<lambda>c. if c = 1
        then Recv 4 (\<lambda>st bs. Return (if st = noErr then errSSLServerAuthCompleted else st, 2))
        else Return (0, c)),
     fw_peer_trust = (\<lambda>_. (0, Some (None, False))),
     fw_trust_set = (\<lambda>x t. (0, case x of Anchors cs \<Rightarrow> (cs, snd t) | Anchors_Only b \<Rightarrow> (fst t, b))),
     fw_evaluate = (\<lambda>t. (fst t = Some [[80, 81]] \<and> snd t, None)),
     fw_read = (\<lambda>c n. Return (0, replicate n 65, c)),
     fw_buffered = (\<lambda>_. 3),
     fw_write = (\<lambda>c bs. Send bs (\<lambda>st n. Return (st, n, c))),
     fw_close = (\<lambda>c. Return c)\<rparr>"

definition demo_tls :: "answer list \<Rightarrow> tls" where
  "demo_tls as = \<lparr>answers = as, issued = [], g_io_errno = 0, environ = (\<lambda>_. None), g_status = 0, g_message = [],
     cf_objects = 0, heap_blocks = 0, open_streams = 0, trust_log = []\<rparr>"

definition demo_conn :: Conn where
  "demo_conn = \<lparr>cfd = 3, io_errno = 0, timed_out = False, clean_eof = False\<rparr>"


section \<open>Properties\<close>

text \<open>
  C24. The callbacks do what SecureTransport asks of them for every behaviour of the socket. However
  often a read is interrupted and however the bytes arrive in pieces, the caller gets exactly the bytes
  it asked for, or those that came before the end, the timeout or the error, with the status of it;
  the end of the stream is marked clean exactly when no byte of the request had come. Each call asks
  for what is still missing (\<open>read_asks\<close>). Writing is the same with the number of bytes taken: each
  call offers exactly the bytes not yet taken (\<open>write_asks\<close>), so every byte is written once and in order.
\<close>

theorem tls_callbacks:
  "(list_all arrives es \<longrightarrow>
     (\<forall>bs. answers w = es @ Data bs # as \<and> bs \<noteq> [] \<and> length (received es @ bs) = want \<longrightarrow>
        read_cb want c w = Some (noErr, received es @ bs, c,
          w\<lparr>answers := as, issued := issued w @ read_asks (cfd c) want (es @ [Data bs])\<rparr>)) \<and>
     (\<forall>a. answers w = es @ a # as \<and> length (received es) < want \<and> (a = Data [] \<or> (\<exists>e. a = Fail e \<and> e \<noteq> EINTR)) \<longrightarrow>
        (\<exists>st c'. read_cb want c w = Some (st, received es, c',
            w\<lparr>answers := as, issued := issued w @ read_asks (cfd c) want (es @ [a])\<rparr>) \<and>
           (st, c') = read_end a (received es = []) c))) \<and>
   (list_all accepts es \<longrightarrow>
     (\<forall>n. answers w = es @ Ret n # as \<and> 0 < n \<and> taken es + nat n = length data \<longrightarrow>
        write_cb data c w = Some (noErr, length data, c,
          w\<lparr>answers := as, issued := issued w @ write_asks (cfd c) data (es @ [Ret n])\<rparr>)) \<and>
     (\<forall>a. answers w = es @ a # as \<and> taken es < length data \<and> (a = Ret 0 \<or> (\<exists>e. a = Fail e \<and> e \<noteq> EINTR)) \<longrightarrow>
        (\<exists>st c'. write_cb data c w = Some (st, taken es, c',
            w\<lparr>answers := as, issued := issued w @ write_asks (cfd c) data (es @ [a])\<rparr>) \<and> (st, c') = write_end a c)))"
  by (intro conjI impI allI; elim conjE)
    (simp_all add: read_cb_all read_cb_ends write_cb_all write_cb_ends del: received.simps read_asks.simps write_asks.simps)

theorem tls_callbacks_witness:
  "read_cb 3 demo_conn (demo_tls [Data [1], Fail EINTR, Data [2, 3]]) =
     Some (noErr, [1, 2, 3], demo_conn, (demo_tls [])\<lparr>issued := [Read 3 3, Read 3 2, Read 3 2]\<rparr>) \<and>
   write_cb [7, 8] demo_conn (demo_tls [Ret 1, Fail EINTR, Ret 1]) =
     Some (noErr, 2, demo_conn, (demo_tls [])\<lparr>issued := [Write 3 [7, 8], Write 3 [8], Write 3 [8]]\<rparr>) \<and>
   read_cb 3 demo_conn (demo_tls [Data [1], Data []]) =
     Some (errSSLClosedGraceful, [1], demo_conn, (demo_tls [])\<lparr>issued := [Read 3 3, Read 3 2]\<rparr>) \<and>
   write_cb [7, 8] demo_conn (demo_tls [Ret 1, Ret 0]) =
     Some (errSecIO, 1, demo_conn\<lparr>io_errno := EPIPE\<rparr>, (demo_tls [])\<lparr>issued := [Write 3 [7, 8], Write 3 [8]]\<rparr>)"
  using tls_callbacks [of "[Data [1], Fail EINTR]" "demo_tls [Data [1], Fail EINTR, Data [2, 3]]" "[]" 3 demo_conn]
    tls_callbacks [of "[Ret 1, Fail EINTR]" "demo_tls [Ret 1, Fail EINTR, Ret 1]" "[]" 3 demo_conn "[7, 8]"]
    tls_callbacks [of "[Data [1]]" "demo_tls [Data [1], Data []]" "[]" 3 demo_conn]
    tls_callbacks [of "[Ret 1]" "demo_tls [Ret 1, Ret 0]" "[]" 3 demo_conn "[7, 8]"]
  by (simp add: demo_tls_def demo_conn_def arrives_def accepts_def read_end_def write_end_def)



text \<open>
  A read returns at most the bytes asked for and never more than 64 KiB. Data comes with status 0;
  a failure comes with a status and without data and does not end the stream; an empty result with
  status 0 means that nothing was asked for or that the stream has ended, and the end stays.
\<close>

theorem kod_tls_read_correct:
  assumes "delivers F" and "kod_tls_read F s m w = Some (r, s', w')"
  shows "int (length r) \<le> max 0 (min m 65536) \<and> kod_tls_status w' \<in> {0, 1, 2} \<and>
    (if kod_tls_status w' \<noteq> 0 then r = [] \<and> \<not> eof s'
     else r \<noteq> [] \<or> m \<le> 0 \<or> eof s') \<and>
    (eof s \<longrightarrow> r = [] \<and> s' = s)"
proof -
  define w0 where "w0 = w\<lparr>g_status := 0\<rparr>"
  define m' where "m' = (if m > 65536 then 65536 else m)"
  show ?thesis
  proof (cases "m' \<le> 0 \<or> eof s")
    case True
    then show ?thesis using assms(2) by (auto simp: kod_tls_read_def Let_def kod_tls_status_def m'_def split: if_splits)
  next
    case False
    obtain st got c cn w1 where sv: "serve (fw_read F (ctx s) 1) (conn s) w0 = Some ((st, got, c), cn, w1)"
      using assms(2) False by (auto simp: kod_tls_read_def Let_def w0_def m'_def split: Option.bind_splits if_splits)
    have g: "length got \<le> 1" using serve_spec [OF sv] assms(1) unfolding delivers_def by blast
    have st0: "g_status w1 = 0" using serve_spec [OF sv] only_io_keeps [of w0 w1] by (simp add: w0_def)
    define s1 where "s1 = s\<lparr>ctx := c, conn := cn\<rparr>"
    define ask where "ask = (if fw_buffered F c < nat m' - length got then fw_buffered F c else nat m' - length got)"
    define more where "more = (if ask > 0 then do {
              ((st2, more, c), cn, w) \<leftarrow> serve (fw_read F c ask) cn w1;
              Some (if st2 = noErr then got @ more else got, s1\<lparr>ctx := c, conn := cn\<rparr>, w)
            } else Some (got, s1, w1))"
    have run: "kod_tls_read F s m w =
        (if length got + fw_buffered F c > 0 then do {
           (got, s, w) \<leftarrow> more;
           Some (got, if closed_status st then s\<lparr>eof := True\<rparr> else s, w)
         }
         else if st = errSSLClosedGraceful \<or> st = errSSLClosedNoNotify \<or> st = errSSLClosedAbort \<and> clean_eof cn
         then Some ([], s1\<lparr>eof := True\<rparr>, w1)
         else if st = errSSLClosedAbort
         then Some ([], s1, snd (tls_failure_text (bytes_of ''connection closed in the middle of a record'') w1))
         else (let (rc, s, w) = tls_failed F s1 st (bytes_of ''TLS read failed'') w1 in Some ([], s, w)))"
      using False sv by (simp add: kod_tls_read_def Let_def w0_def m'_def s1_def more_def ask_def)
    have e: "\<not> eof s1" "0 < m'" "m' \<le> 65536" "m' \<le> m" using False by (auto simp: s1_def m'_def)
    show ?thesis
    proof (cases "length got + fw_buffered F c > 0")
      case True
      then obtain r0 s2 w2 where r0: "more = Some (r0, s2, w2)" using assms(2) run by (auto split: Option.bind_splits)
      have "r0 \<noteq> [] \<and> length r0 \<le> nat m' \<and> w2 = w1 \<and> eof s2 = eof s1"
        using read_more [OF assms(1) True g, of "nat m'" ask cn w1 s1 r0 s2 w2] r0 e(2) by (simp add: more_def ask_def)
      moreover have "r = r0 \<and> s' = (if closed_status st then s2\<lparr>eof := True\<rparr> else s2) \<and> w' = w2"
        using assms(2) unfolding run if_P [OF True] r0 by simp
      ultimately show ?thesis using st0 False e by (auto simp: kod_tls_status_def)
    next
      case nothing: False
      then have "got = []" "fw_buffered F c = 0" by auto
      then have run2: "(if st = errSSLClosedGraceful \<or> st = errSSLClosedNoNotify \<or> st = errSSLClosedAbort \<and> clean_eof cn
         then Some ([], s1\<lparr>eof := True\<rparr>, w1)
         else if st = errSSLClosedAbort
         then Some ([], s1, snd (tls_failure_text (bytes_of ''connection closed in the middle of a record'') w1))
         else (let (rc, s, w) = tls_failed F s1 st (bytes_of ''TLS read failed'') w1 in Some ([], s, w))) = Some (r, s', w')"
        using assms(2) run by simp
      note read_failed [of F s1 st "bytes_of ''TLS read failed''" w1 r s' w']
      with run2 have "r = [] \<and> (if g_status w' \<noteq> 0 then g_status w' \<in> {1, 2} \<and> \<not> eof s' else eof s')"
        using st0 e(1) by (auto simp: tls_failure_text_def split: if_splits)
      then show ?thesis using False e by (auto simp: kod_tls_status_def split: if_splits)
    qed
  qed
qed

theorem kod_tls_read_correct_witness:
  "\<exists>r s' w'. kod_tls_read demo_framework \<lparr>ctx = 2, conn = demo_conn, eof = False\<rparr> 3 (demo_tls []) = Some (r, s', w') \<and>
     r \<noteq> [] \<and> length r \<le> 3 \<and> kod_tls_status w' = 0"
proof -
  let ?s = "\<lparr>ctx = 2, conn = demo_conn, eof = False\<rparr>"
  obtain r s' w' where run: "kod_tls_read demo_framework ?s 3 (demo_tls []) = Some (r, s', w')" "g_status w' = 0" "\<not> eof s'"
    by (simp add: kod_tls_read_def demo_framework_def demo_tls_def closed_status_def osstatus_defs)
  have "delivers demo_framework" by (auto simp: delivers_def demo_framework_def)
  from kod_tls_read_correct [OF this run(1)] show ?thesis using run by (auto simp: kod_tls_status_def)
qed

end
