(* ===== verification/Kod_Lang.thy ===== *)
theory Kod_Lang
  imports Kod_Prelude
begin

text \<open>
  What the models of library modules written in Kod use of the language. The compiler emits the ARM64
  instruction for each operator of \<open>int64\<close>: addition, subtraction and multiplication wrap around at 64
  bits (\<open>w64\<close>), \<open>/\<close> truncates towards zero and \<open>%\<close> has the sign of the dividend (\<open>c_quot\<close>, \<open>c_rem\<close>). An index
  counts from the end when it is negative; one that is still out of range panics, which is \<open>None\<close>.
  Slices clamp, as \<open>Kod_Str\<close> and \<open>Kod_Array\<close> prove of the runtime.
\<close>

definition w64 :: "int \<Rightarrow> int" where
  "w64 v = (v + 9223372036854775808) mod 18446744073709551616 - 9223372036854775808"

lemma w64_id: "in64 v \<Longrightarrow> w64 v = v"
  by (simp add: w64_def range_simps)

lemma w64_range: "in64 (w64 v)"
proof -
  have "0 \<le> (v + 9223372036854775808) mod 18446744073709551616" "(v + 9223372036854775808) mod 18446744073709551616 < 18446744073709551616"
    by simp_all
  then show ?thesis by (simp add: w64_def range_simps)
qed

lemma w64_mod: "w64 a mod 18446744073709551616 = a mod 18446744073709551616"
  by (simp add: w64_def mod_diff_left_eq)

lemma w64_cong: "a mod 18446744073709551616 = b mod 18446744073709551616 \<Longrightarrow> w64 a = w64 b"
  unfolding w64_def using mod_add_cong [of a 18446744073709551616 b 9223372036854775808 9223372036854775808] by simp

text \<open>Intermediate wrap-around makes no difference.\<close>

lemma w64_absorb [simp]:
  "w64 (w64 a + b) = w64 (a + b)" "w64 (a + w64 b) = w64 (a + b)" "w64 (w64 a - b) = w64 (a - b)" "w64 (a - w64 b) = w64 (a - b)"
  "w64 (w64 a * b) = w64 (a * b)" "w64 (a * w64 b) = w64 (a * b)" "w64 (w64 a) = w64 a"
  by (rule w64_cong, (rule mod_add_cong | rule mod_diff_cong | rule mod_mult_cong)?, (rule w64_mod | rule refl)+)+

definition kod_at :: "'a list \<Rightarrow> int \<Rightarrow> 'a option" where
  "kod_at xs i = (let i = (if i < 0 then i + int (length xs) else i)
     in if 0 \<le> i \<and> i < int (length xs) then Some (xs ! nat i) else None)"

definition kod_put :: "'a list \<Rightarrow> int \<Rightarrow> 'a \<Rightarrow> 'a list option" where
  "kod_put xs i v = (let i = (if i < 0 then i + int (length xs) else i)
     in if 0 \<le> i \<and> i < int (length xs) then Some (xs[nat i := v]) else None)"

definition kod_slice :: "'a list \<Rightarrow> int \<Rightarrow> int \<Rightarrow> 'a list" where
  "kod_slice xs start stop = drop (nat start) (take (nat stop) xs)"

lemma kod_at_nth [simp]: "i < length xs \<Longrightarrow> kod_at xs (int i) = Some (xs ! i)"
  by (simp add: kod_at_def)

lemma kod_put_nth [simp]: "i < length xs \<Longrightarrow> kod_put xs (int i) v = Some (xs[i := v])"
  by (simp add: kod_put_def)

text \<open>Division by a positive number.\<close>

lemma c_quot_nonneg: "0 \<le> a \<Longrightarrow> 0 < b \<Longrightarrow> c_quot a b = a div b"
  by (cases "a = 0") (simp_all add: c_quot_def)

lemma c_rem_nonneg: "0 \<le> a \<Longrightarrow> 0 < b \<Longrightarrow> c_rem a b = a mod b"
  by (simp add: c_rem_def c_quot_nonneg minus_mult_div_eq_mod)

lemma c_quot_neg: "0 < b \<Longrightarrow> c_quot (- a) b = - c_quot a b"
  by (simp add: c_quot_def sgn_minus)

lemma c_rem_neg: "0 < b \<Longrightarrow> c_rem (- a) b = - c_rem a b"
  by (simp add: c_rem_def c_quot_neg)

lemma c_rem_bounds: "0 < b \<Longrightarrow> - b < c_rem a b \<and> c_rem a b < b \<and> (0 \<le> a \<longrightarrow> 0 \<le> c_rem a b) \<and> (a \<le> 0 \<longrightarrow> c_rem a b \<le> 0)"
proof (cases "0 \<le> a")
  case True
  assume b: "0 < b"
  have m: "0 \<le> a mod b" "a mod b < b" using b by simp_all
  have "c_rem a b \<le> 0" if "a \<le> 0"
  proof -
    have "a = 0" using True that by simp
    then show ?thesis using c_rem_nonneg [of a b] b by simp
  qed
  moreover have "c_rem a b = a mod b" using True b by (rule c_rem_nonneg)
  ultimately show ?thesis using m by linarith
next
  case False
  assume b: "0 < b"
  have "0 \<le> - a mod b" "- a mod b < b" using b by simp_all
  moreover have "c_rem a b = - (- a mod b)" using False b c_rem_nonneg [of "- a" b] c_rem_neg [of b a] by simp
  ultimately show ?thesis using False by linarith
qed

lemma c_rem_mod: "0 < b \<Longrightarrow> c_rem a b mod b = a mod b"
  by (simp add: c_rem_def mod_diff_eq [symmetric])

text \<open>\<open>((a % b) + b) % b\<close> is the mathematical remainder.\<close>

lemma c_rem_norm: "0 < b \<Longrightarrow> c_rem (c_rem a b + b) b = a mod b"
  using c_rem_bounds [of b a] c_rem_mod [of b a] by (simp add: c_rem_nonneg)

lemma c_quot_abs_le: "0 < b \<Longrightarrow> \<bar>c_quot a b\<bar> = \<bar>a\<bar> div b"
  by (cases "a = 0") (simp_all add: c_quot_def abs_mult abs_sgn_eq pos_imp_zdiv_nonneg_iff)

end
