(* ===== verification/Kod_Inspect.thy ===== *)
theory Kod_Inspect
  imports Kod_Lang
begin

text \<open>
  The inspect helpers of \<open>src/stdlib/runtime.c\<close> (\<open>_inspect_*\<close>) and their client, the backtrace walker
  of \<open>src/stdlib/kod/inspect.kod\<close>, which prints the call stack when the program panics.

  The helpers read any memory of the process, so memory is a partial map of bytes: \<open>None\<close> is an
  address that is not mapped, and reading it faults. The linker's symbols of the symbol table and the
  frame pointer are fields of the image. Addition and subtraction in Kod are the machine's: they wrap
  around at 64 bits (\<open>w64\<close>).
\<close>

section \<open>The C helpers\<close>

record image =
  bytes_at :: "int \<Rightarrow> byte option"
  symtab_section_start :: int
  symtab_section_end :: int

definition peek :: "image \<Rightarrow> int \<Rightarrow> nat \<Rightarrow> byte list option" where
  "peek I a n = those (map (\<lambda>i. bytes_at I (a + int i)) [0..<n])"

definition inspect_read_i64 :: "image \<Rightarrow> int \<Rightarrow> int option" where
  "inspect_read_i64 I a = map_option i64_val (peek I a 8)"

definition inspect_read_i32 :: "image \<Rightarrow> int \<Rightarrow> int option" where
  "inspect_read_i32 I a = map_option (\<lambda>bs. c_int (le_val bs)) (peek I a 4)"

text \<open>The word at the helper's own frame pointer is its caller's.\<close>

definition inspect_caller_fp :: "image \<Rightarrow> int \<Rightarrow> int option" where
  "inspect_caller_fp I own_fp = inspect_read_i64 I own_fp"

partial_function (option) inspect_cstr_to_str :: "image \<Rightarrow> int \<Rightarrow> byte list option" where
  "inspect_cstr_to_str I a = do {
     b \<leftarrow> bytes_at I a;
     if b = 0 then Some [] else do { bs \<leftarrow> inspect_cstr_to_str I (a + 1); Some (b # bs) }
   }"

definition inspect_symtab_start :: "image \<Rightarrow> int" where
  "inspect_symtab_start I = symtab_section_start I"

definition inspect_symtab_end :: "image \<Rightarrow> int" where
  "inspect_symtab_end I = symtab_section_end I"

section \<open>The backtrace walker\<close>

record Frame =
  fr_addr :: int
  fr_name :: "byte list"
  fr_file :: "byte list"
  fr_line :: int

partial_function (option) find_sym_loop :: "image \<Rightarrow> int \<Rightarrow> int \<Rightarrow> int \<Rightarrow> int \<Rightarrow> int \<Rightarrow> int option" where
  "find_sym_loop I stop lr best best_addr row =
     (if row < stop then do {
        entry_addr \<leftarrow> inspect_read_i64 I row;
        (if entry_addr \<le> lr \<and> (best < 0 \<or> entry_addr > best_addr)
         then find_sym_loop I stop lr row entry_addr (w64 (row + 48))
         else find_sym_loop I stop lr best best_addr (w64 (row + 48)))
      } else Some best)"

definition find_sym :: "image \<Rightarrow> int \<Rightarrow> int option" where
  "find_sym I lr = find_sym_loop I (inspect_symtab_end I) lr (-1) 0 (inspect_symtab_start I)"

partial_function (option) line_for_loop :: "image \<Rightarrow> int \<Rightarrow> int \<Rightarrow> int \<Rightarrow> int \<Rightarrow> bool \<Rightarrow> int \<Rightarrow> int option" where
  "line_for_loop I stop probe best_line best_pc found row =
     (if row < stop then do {
        pc \<leftarrow> inspect_read_i64 I row;
        (if pc \<le> probe \<and> (\<not> found \<or> pc > best_pc)
         then do { l \<leftarrow> inspect_read_i32 I (w64 (row + 8)); line_for_loop I stop probe l pc True (w64 (row + 16)) }
         else line_for_loop I stop probe best_line best_pc found (w64 (row + 16)))
      } else Some best_line)"

definition line_for :: "image \<Rightarrow> int \<Rightarrow> int \<Rightarrow> int option" where
  "line_for I sym_row lr = do {
     decl_line \<leftarrow> inspect_read_i32 I (w64 (sym_row + 24));
     lines_start \<leftarrow> inspect_read_i64 I (w64 (sym_row + 32));
     lines_end \<leftarrow> inspect_read_i64 I (w64 (sym_row + 40));
     line_for_loop I lines_end (w64 (lr - 1)) decl_line 0 False lines_start
   }"

definition resolve_frame :: "image \<Rightarrow> int \<Rightarrow> Frame option option" where
  "resolve_frame I a = do {
     sym_row \<leftarrow> find_sym I a;
     if sym_row < 0 then Some None
     else do {
       sym_addr \<leftarrow> inspect_read_i64 I sym_row;
       if w64 (a - sym_addr) > 1048576 then Some None
       else do {
         name_addr \<leftarrow> inspect_read_i64 I (w64 (sym_row + 8));
         file_addr \<leftarrow> inspect_read_i64 I (w64 (sym_row + 16));
         l \<leftarrow> line_for I sym_row a;
         n \<leftarrow> inspect_cstr_to_str I name_addr;
         f \<leftarrow> inspect_cstr_to_str I file_addr;
         Some (Some \<lparr>fr_addr = a, fr_name = n, fr_file = f, fr_line = l\<rparr>)
       }
     }
   }"

function backtrace_loop :: "image \<Rightarrow> int \<Rightarrow> int \<Rightarrow> Frame list \<Rightarrow> Frame list option" where
  "backtrace_loop I fp i frames =
     (if fp \<noteq> 0 \<and> i < 32 then do {
        lr \<leftarrow> inspect_read_i64 I (w64 (fp + 8));
        fr \<leftarrow> resolve_frame I lr;
        (case fr of
           None \<Rightarrow> Some frames
         | Some f \<Rightarrow> do {
             next_fp \<leftarrow> inspect_read_i64 I fp;
             if next_fp = 0 \<or> next_fp \<le> fp then Some (frames @ [f])
             else backtrace_loop I next_fp (i + 1) (frames @ [f])
           })
      } else Some frames)"
  by pat_completeness auto

termination
  by (relation "measure (\<lambda>(I, fp, i, frames). nat (32 - i))") auto

declare backtrace_loop.simps [simp del]

definition backtrace_from :: "image \<Rightarrow> int \<Rightarrow> Frame list option" where
  "backtrace_from I start_fp = backtrace_loop I start_fp 0 []"

section \<open>Reading memory\<close>

lemma those_Some: "those xs = Some ys \<longleftrightarrow> xs = map Some ys"
  by (induction xs arbitrary: ys) (auto split: option.splits)

lemma peek_eq: "peek I a n = Some bs \<longleftrightarrow> length bs = n \<and> (\<forall>i < n. bytes_at I (a + int i) = Some (bs ! i))"
  unfolding peek_def those_Some by (auto simp: list_eq_iff_nth_eq)

text \<open>A 64-bit word is its low half, unsigned, and its high half, signed.\<close>

lemma le_val_append: "le_val (xs @ ys) = le_val xs + 256 ^ length xs * le_val ys"
  by (induction xs) (simp_all add: algebra_simps)

lemma i64_halves:
  assumes "inspect_read_i32 I a = Some lo" and "inspect_read_i32 I (a + 4) = Some hi"
  shows "inspect_read_i64 I a = Some (lo mod 4294967296 + 4294967296 * hi)"
proof -
  obtain b1 b2 where b: "peek I a 4 = Some b1" "peek I (a + 4) 4 = Some b2"
    and v: "lo = c_int (le_val b1)" "hi = c_int (le_val b2)"
    using assms by (auto simp: inspect_read_i32_def)
  have "bytes_at I (a + int i) = Some ((b1 @ b2) ! i)" if "i < 8" for i
  proof (cases "i < 4")
    case False
    then show ?thesis using b(2) [unfolded peek_eq] b(1) [unfolded peek_eq] that
      by (auto simp: nth_append dest!: spec [of _ "i - 4"])
  qed (use b(1) [unfolded peek_eq] in \<open>simp add: nth_append\<close>)
  then have p: "peek I a 8 = Some (b1 @ b2)" using b by (simp add: peek_eq)
  have l: "length b1 = 4" "length b2 = 4" using b by (simp_all add: peek_eq)
  have r: "0 \<le> le_val b1" "le_val b1 < 4294967296" "0 \<le> le_val b2" "le_val b2 < 4294967296"
    using le_val_bounds [of b1] le_val_bounds [of b2] l by simp_all
  have "lo mod 4294967296 = le_val b1" using r by (simp add: v c_int_def mod_diff_left_eq mod_simps)
  moreover have "(le_val b2 + 2147483648) mod 4294967296 = le_val b2 - 2147483648" if "2147483648 \<le> le_val b2"
  proof -
    have "le_val b2 + 2147483648 = le_val b2 - 2147483648 + 4294967296" by simp
    also have "\<dots> mod 4294967296 = (le_val b2 - 2147483648) mod 4294967296" by (rule mod_add_self2)
    finally show ?thesis using r that by simp
  qed
  then have "i64_val (b1 @ b2) = le_val b1 + 4294967296 * hi"
    using r l by (cases "le_val b2 < 2147483648") (simp_all add: i64_val_def Let_def le_val_append v c_int_def)
  ultimately show ?thesis by (simp add: inspect_read_i64_def p)
qed

section \<open>Scanning a table\<close>

text \<open>The first entry with the largest key that is not above the probe.\<close>

fun pick :: "int \<Rightarrow> (int \<times> 'v) option \<Rightarrow> (int \<times> 'v) list \<Rightarrow> (int \<times> 'v) option" where
  "pick probe b [] = b"
| "pick probe b ((k, v) # xs) =
     pick probe (if k \<le> probe \<and> (case b of None \<Rightarrow> True | Some (k', _) \<Rightarrow> k' < k) then Some (k, v) else b) xs"

lemma pick_spec:
  assumes "case b of None \<Rightarrow> True | Some (k, v) \<Rightarrow> k \<le> probe"
  shows "case pick probe b xs of
      None \<Rightarrow> b = None \<and> (\<forall>(k, v) \<in> set xs. probe < k)
    | Some (k, v) \<Rightarrow> (b = Some (k, v) \<or> (k, v) \<in> set xs) \<and> k \<le> probe \<and>
        (\<forall>(k', v') \<in> set xs. k' \<le> probe \<longrightarrow> k' \<le> k) \<and> (case b of None \<Rightarrow> True | Some (k', v') \<Rightarrow> k' \<le> k)"
  using assms
proof (induction xs arbitrary: b)
  case (Cons x xs)
  obtain k v where x: "x = (k, v)" by fastforce
  let ?b = "if k \<le> probe \<and> (case b of None \<Rightarrow> True | Some (k', _) \<Rightarrow> k' < k) then Some (k, v) else b"
  have "case ?b of None \<Rightarrow> True | Some (k, v) \<Rightarrow> k \<le> probe" using Cons.prems by simp
  from Cons.IH [OF this] show ?case unfolding x
    by (cases b) (auto split: option.splits if_splits)
qed (auto split: option.splits)

text \<open>
  What the two scans of the walker share: rows of \<open>step\<close> bytes up to \<open>stop\<close>, of each its key and, when it is
  better than the best so far, its value.
\<close>

locale row_scan =
  fixes stop :: int and step :: int and probe :: int
    and key :: "int \<Rightarrow> int option" and load :: "int \<Rightarrow> 'v option"
    and better :: "(int \<times> 'v) option \<Rightarrow> int \<Rightarrow> bool"
    and run :: "(int \<times> 'v) option \<Rightarrow> int \<Rightarrow> 'r option" and result :: "(int \<times> 'v) option \<Rightarrow> 'r"
  assumes step_pos: "0 < step"
    and better_None: "better None k"
    and better_Some: "0 \<le> row \<Longrightarrow> load row = Some v \<Longrightarrow> better (Some (k', v)) k \<longleftrightarrow> k' < k"
    and run_step: "run b row = (if row < stop then do {
        k \<leftarrow> key row;
        (if k \<le> probe \<and> better b k then do { v \<leftarrow> load row; run (Some (k, v)) (w64 (row + step)) }
         else run b (w64 (row + step)))
      } else Some (result b))"
begin

lemma run_rows:
  assumes rows: "\<And>i. i < n \<Longrightarrow> key (base + step * int i) = Some (A i) \<and> load (base + step * int i) = Some (V i)"
    and stop: "stop = base + step * int n" and base: "0 \<le> base" and room: "stop + step \<le> INT64_MAX"
    and "j \<le> n" and "b = None \<or> (\<exists>k i. i < n \<and> b = Some (k, V i))"
  shows "run b (base + step * int j) = Some (result (pick probe b (map (\<lambda>i. (A i, V i)) [j..<n])))"
  using assms(5,6)
proof (induction "n - j" arbitrary: j b)
  case 0
  then show ?case using stop by (subst run_step) simp
next
  case (Suc d)
  then have j: "j < n" "d = n - Suc j" by auto
  have below: "base + step * int j < stop" using j(1) step_pos by (simp add: stop)
  have "0 \<le> base + step * int j" using base step_pos by simp
  then have "in64 (base + step * int j + step)" using below room step_pos unfolding in64_def INT64_MIN_def by linarith
  then have w: "w64 (base + step * int j + step) = base + step * int (Suc j)" by (simp add: w64_id algebra_simps)
  have bt: "better b (A j) \<longleftrightarrow> (case b of None \<Rightarrow> True | Some (k', _) \<Rightarrow> k' < A j)"
  proof (cases b)
    case (Some kv)
    then obtain k i where i: "i < n" "b = Some (k, V i)" using Suc.prems(2) by auto
    have "0 \<le> base + step * int i" using base step_pos by simp
    then show ?thesis using better_Some rows i by simp
  qed (simp add: better_None)
  have e: "[j..<n] = j # [Suc j..<n]" using j(1) by (rule upt_conv_Cons)
  show ?case
    using Suc.hyps(1) [OF j(2)] j(1) below rows [OF j(1)] Suc.prems(2)
    unfolding e by (subst run_step) (auto simp: w bt)
qed

lemma run_table:
  assumes "\<And>i. i < n \<Longrightarrow> key (base + step * int i) = Some (A i) \<and> load (base + step * int i) = Some (V i)"
    and "stop = base + step * int n" and "0 \<le> base" and "stop + step \<le> INT64_MAX"
  shows "run None base = Some (result (pick probe None (map (\<lambda>i. (A i, V i)) [0..<n])))"
  using run_rows [OF assms, of 0 None] by simp

end

interpretation syms: row_scan stop 48 lr "inspect_read_i64 I" Some
  "\<lambda>b k. case b of None \<Rightarrow> True | Some (k', r) \<Rightarrow> r < 0 \<or> k' < k"
  "\<lambda>b row. case b of None \<Rightarrow> find_sym_loop I stop lr (-1) 0 row | Some (k, r) \<Rightarrow> find_sym_loop I stop lr r k row"
  "\<lambda>b. case b of None \<Rightarrow> -1 | Some (k, r) \<Rightarrow> r" for stop lr I
proof (unfold_locales, goal_cases)
  case (4 b row)
  show ?case by (cases b) (simp_all add: find_sym_loop.simps [of I stop lr _ _ row] split: prod.split cong: if_cong)
qed auto

interpretation lines: row_scan stop 16 probe "inspect_read_i64 I" "\<lambda>row. inspect_read_i32 I (w64 (row + 8))"
  "\<lambda>b k. case b of None \<Rightarrow> True | Some (k', l) \<Rightarrow> k' < k"
  "\<lambda>b row. case b of None \<Rightarrow> line_for_loop I stop probe decl 0 False row | Some (k, l) \<Rightarrow> line_for_loop I stop probe l k True row"
  "\<lambda>b. case b of None \<Rightarrow> decl | Some (k, l) \<Rightarrow> l" for stop probe I decl
proof (unfold_locales, goal_cases)
  case (4 b row)
  show ?case by (cases b) (simp_all add: line_for_loop.simps [of I stop probe _ _ _ row] split: prod.split cong: if_cong)
qed auto

section \<open>The symbol table and the stack\<close>

record symbol =
  sy_addr :: int
  sy_name :: "byte list"
  sy_file :: "byte list"
  sy_decl :: int
  sy_lines :: "(int \<times> int) list"

definition lines_at :: "image \<Rightarrow> int \<Rightarrow> int \<Rightarrow> (int \<times> int) list \<Rightarrow> bool" where
  "lines_at I ls le xs \<longleftrightarrow> 0 \<le> ls \<and> le = ls + 16 * int (length xs) \<and> le + 16 \<le> INT64_MAX \<and>
     (\<forall>i < length xs. inspect_read_i64 I (ls + 16 * int i) = Some (fst (xs ! i)) \<and>
        inspect_read_i32 I (ls + 16 * int i + 8) = Some (snd (xs ! i)))"

definition row_at :: "image \<Rightarrow> int \<Rightarrow> symbol \<Rightarrow> bool" where
  "row_at I r s \<longleftrightarrow> inspect_read_i64 I r = Some (sy_addr s) \<and> inspect_read_i32 I (r + 24) = Some (sy_decl s) \<and>
     (\<exists>na fa ls le. inspect_read_i64 I (r + 8) = Some na \<and> inspect_cstr_to_str I na = Some (sy_name s) \<and>
        inspect_read_i64 I (r + 16) = Some fa \<and> inspect_cstr_to_str I fa = Some (sy_file s) \<and>
        inspect_read_i64 I (r + 32) = Some ls \<and> inspect_read_i64 I (r + 40) = Some le \<and> lines_at I ls le (sy_lines s))"

definition table_at :: "image \<Rightarrow> symbol list \<Rightarrow> bool" where
  "table_at I ss \<longleftrightarrow> 0 \<le> symtab_section_start I \<and> symtab_section_end I = symtab_section_start I + 48 * int (length ss) \<and>
     symtab_section_end I + 48 \<le> INT64_MAX \<and>
     (\<forall>i < length ss. row_at I (symtab_section_start I + 48 * int i) (ss ! i))"

text \<open>
  The frame at \<open>fp\<close> with the return addresses from it up: the chain ends with a frame whose link does not
  go up.
\<close>

fun stack_at :: "image \<Rightarrow> int \<Rightarrow> int list \<Rightarrow> bool" where
  "stack_at I fp [] \<longleftrightarrow> fp = 0"
| "stack_at I fp (lr # lrs) \<longleftrightarrow> 0 < fp \<and> fp + 8 \<le> INT64_MAX \<and> inspect_read_i64 I (fp + 8) = Some lr \<and>
     (case inspect_read_i64 I fp of
        None \<Rightarrow> False
      | Some up \<Rightarrow> if up \<le> fp then lrs = [] else stack_at I up lrs)"

text \<open>What an address and a stack mean for a symbol table.\<close>

definition symbol_line :: "symbol \<Rightarrow> int \<Rightarrow> int" where
  "symbol_line s a = (case pick (w64 (a - 1)) None (sy_lines s) of None \<Rightarrow> sy_decl s | Some (pc, l) \<Rightarrow> l)"

definition symbolize :: "symbol list \<Rightarrow> int \<Rightarrow> Frame option" where
  "symbolize ss a =
     (case pick a None (map (\<lambda>s. (sy_addr s, s)) ss) of
        None \<Rightarrow> None
      | Some (k, s) \<Rightarrow> if w64 (a - k) > 1048576 then None
          else Some \<lparr>fr_addr = a, fr_name = sy_name s, fr_file = sy_file s, fr_line = symbol_line s a\<rparr>)"

fun symbolize_stack :: "symbol list \<Rightarrow> int list \<Rightarrow> Frame list" where
  "symbolize_stack ss [] = []"
| "symbolize_stack ss (a # as) = (case symbolize ss a of None \<Rightarrow> [] | Some f \<Rightarrow> f # symbolize_stack ss as)"

lemma pick_map:
  "pick p (map_option (map_prod id f) b) (map (map_prod id f) xs) = map_option (map_prod id f) (pick p b xs)"
proof (induction xs arbitrary: b)
  case (Cons x xs)
  obtain k v where x: "x = (k, v)" by fastforce
  have "(if k \<le> p \<and> (case map_option (map_prod id f) b of None \<Rightarrow> True | Some (k', _) \<Rightarrow> k' < k) then Some (k, f v)
      else map_option (map_prod id f) b) =
    map_option (map_prod id f) (if k \<le> p \<and> (case b of None \<Rightarrow> True | Some (k', _) \<Rightarrow> k' < k) then Some (k, v) else b)"
    by (cases b) auto
  moreover have "map_prod id f (k, v) = (k, f v)" by simp
  ultimately show ?case using Cons.IH unfolding x by (simp only: list.map pick.simps)
qed simp

lemma pick_indexed:
  "pick p None (map (\<lambda>i. (A i, f i)) is) = map_option (map_prod id f) (pick p None (map (\<lambda>i. (A i, i)) is))"
  using pick_map [of p f None "map (\<lambda>i. (A i, i)) is"] by (simp add: comp_def)

lemma find_sym_table:
  assumes "table_at I ss"
  shows "find_sym I a = Some (case pick a None (map (\<lambda>i. (sy_addr (ss ! i), i)) [0..<length ss]) of
    None \<Rightarrow> -1 | Some (k, i) \<Rightarrow> symtab_section_start I + 48 * int i)"
proof -
  let ?b = "symtab_section_start I"
  have "find_sym I a = Some (case pick a None (map (\<lambda>i. (sy_addr (ss ! i), ?b + 48 * int i)) [0..<length ss]) of
      None \<Rightarrow> -1 | Some (k, r) \<Rightarrow> r)"
    using syms.run_table [of "length ss" I ?b "\<lambda>i. sy_addr (ss ! i)" "\<lambda>i. ?b + 48 * int i" "symtab_section_end I" a] assms
    by (simp add: find_sym_def inspect_symtab_start_def inspect_symtab_end_def table_at_def row_at_def)
  then show ?thesis unfolding pick_indexed [of a _ "\<lambda>i. ?b + 48 * int i"]
    by (cases "pick a None (map (\<lambda>i. (sy_addr (ss ! i), i)) [0..<length ss])") auto
qed

lemma line_for_loop_table:
  assumes "lines_at I ls le xs"
  shows "line_for_loop I le probe decl 0 False ls = Some (case pick probe None xs of None \<Rightarrow> decl | Some (pc, l) \<Rightarrow> l)"
proof -
  have "in64 (ls + 16 * int i + 8)" if "i < length xs" for i
    using that assms by (simp add: lines_at_def range_simps)
  then have "inspect_read_i32 I (w64 (ls + 16 * int i + 8)) = Some (snd (xs ! i))" if "i < length xs" for i
    using that assms by (simp add: lines_at_def w64_id)
  then show ?thesis
    using lines.run_table [of "length xs" I ls "\<lambda>i. fst (xs ! i)" "\<lambda>i. snd (xs ! i)" le probe decl] assms
    by (simp add: lines_at_def map_nth)
qed

lemma symbolize_indexed:
  "symbolize ss a =
     (case pick a None (map (\<lambda>i. (sy_addr (ss ! i), i)) [0..<length ss]) of
        None \<Rightarrow> None
      | Some (k, i) \<Rightarrow> if w64 (a - k) > 1048576 then None
          else Some \<lparr>fr_addr = a, fr_name = sy_name (ss ! i), fr_file = sy_file (ss ! i), fr_line = symbol_line (ss ! i) a\<rparr>)"
proof -
  have e: "map (\<lambda>s. (sy_addr s, s)) ss = map (\<lambda>i. (sy_addr (ss ! i), ss ! i)) [0..<length ss]"
    by (rule nth_equalityI) simp_all
  show ?thesis unfolding symbolize_def e pick_indexed [of a _ "\<lambda>i. ss ! i"]
    by (cases "pick a None (map (\<lambda>i. (sy_addr (ss ! i), i)) [0..<length ss])") auto
qed

lemma resolve_frame_table:
  assumes "table_at I ss"
  shows "resolve_frame I a = Some (symbolize ss a)"
proof (cases "pick a None (map (\<lambda>i. (sy_addr (ss ! i), i)) [0..<length ss])")
  case None
  then show ?thesis using find_sym_table [OF assms, of a] by (simp add: resolve_frame_def symbolize_indexed)
next
  case (Some ki)
  then obtain k i where ki: "pick a None (map (\<lambda>i. (sy_addr (ss ! i), i)) [0..<length ss]) = Some (k, i)"
    by (cases ki) auto
  then have i: "i < length ss" "k = sy_addr (ss ! i)"
    using pick_spec [where b = None and probe = a and xs = "map (\<lambda>i. (sy_addr (ss ! i), i)) [0..<length ss]"] by auto
  define r where "r = symtab_section_start I + 48 * int i"
  have r: "find_sym I a = Some r" "0 \<le> r" "row_at I r (ss ! i)" "r + 48 \<le> INT64_MAX"
    using find_sym_table [OF assms, of a] ki assms i(1) by (auto simp: r_def table_at_def)
  have w: "w64 (r + 8) = r + 8" "w64 (r + 16) = r + 16" "w64 (r + 24) = r + 24" "w64 (r + 32) = r + 32" "w64 (r + 40) = r + 40"
    using r(2,4) by (simp_all add: w64_id range_simps)
  obtain na fa ls le where row: "inspect_read_i64 I (r + 8) = Some na" "inspect_cstr_to_str I na = Some (sy_name (ss ! i))"
    "inspect_read_i64 I (r + 16) = Some fa" "inspect_cstr_to_str I fa = Some (sy_file (ss ! i))"
    "inspect_read_i64 I (r + 32) = Some ls" "inspect_read_i64 I (r + 40) = Some le" "lines_at I ls le (sy_lines (ss ! i))"
    "inspect_read_i64 I r = Some k" "inspect_read_i32 I (r + 24) = Some (sy_decl (ss ! i))"
    using r(3) i(2) by (auto simp: row_at_def)
  have "line_for I r a = Some (symbol_line (ss ! i) a)"
    using row w line_for_loop_table [OF row(7)] by (simp add: line_for_def symbol_line_def)
  then show ?thesis using r w row ki by (simp add: resolve_frame_def symbolize_indexed)
qed

lemma backtrace_loop_stack:
  assumes "table_at I ss" and "stack_at I fp lrs" and "0 \<le> i" and "i \<le> 32"
  shows "backtrace_loop I fp i frames = Some (frames @ symbolize_stack ss (take (nat (32 - i)) lrs))"
  using assms(2-4)
proof (induction lrs arbitrary: fp i frames)
  case Nil
  then show ?case by (simp add: backtrace_loop.simps)
next
  case (Cons lr lrs)
  show ?case
  proof (cases "i = 32")
    case True
    then show ?thesis by (simp add: backtrace_loop.simps)
  next
    case False
    then have n: "nat (32 - i) = Suc (nat (32 - (i + 1)))" using Cons.prems(3) by simp
    obtain up where up: "inspect_read_i64 I fp = Some up" "if up \<le> fp then lrs = [] else stack_at I up lrs"
      using Cons.prems(1) by (auto split: option.splits)
    have "w64 (fp + 8) = fp + 8" using Cons.prems(1) by (simp add: w64_id range_simps)
    then show ?thesis
      using Cons.prems False up Cons.IH [of up "i + 1"] resolve_frame_table [OF assms(1), of lr]
      by (subst backtrace_loop.simps) (auto simp: n split: option.splits if_splits)
  qed
qed

lemma symbolize_spec:
  assumes "symbolize ss a = Some f"
  shows "fr_addr f = a \<and> (\<exists>s \<in> set ss. sy_addr s \<le> a \<and> (\<forall>s' \<in> set ss. sy_addr s' \<le> a \<longrightarrow> sy_addr s' \<le> sy_addr s) \<and>
    fr_name f = sy_name s \<and> fr_file f = sy_file s \<and> fr_line f = symbol_line s a)"
proof -
  obtain k s where p: "pick a None (map (\<lambda>s. (sy_addr s, s)) ss) = Some (k, s)"
    and f: "f = \<lparr>fr_addr = a, fr_name = sy_name s, fr_file = sy_file s, fr_line = symbol_line s a\<rparr>"
    using assms by (auto simp: symbolize_def split: option.splits if_splits)
  then show ?thesis
    using pick_spec [where b = None and probe = a and xs = "map (\<lambda>s. (sy_addr s, s)) ss"] by auto
qed

lemma symbolize_stack_frames: "f \<in> set (symbolize_stack ss lrs) \<Longrightarrow> \<exists>a \<in> set lrs. symbolize ss a = Some f"
  by (induction lrs) (auto split: option.splits)

section \<open>Properties\<close>

text \<open>
  When a program panics, the backtrace is right and always comes to an end. In any memory that holds
  the symbol table and a chain of frames, the walk returns the frames of the innermost 32 return
  addresses, up to the first one that belongs to no Kod function: each named after the function with
  the largest start not above the address, with its file and the line of the last statement that
  starts before it.
\<close>

theorem backtrace_from_correct:
  assumes "table_at I ss" and "stack_at I fp lrs"
  shows "backtrace_from I fp = Some (symbolize_stack ss (take 32 lrs)) \<and>
    (\<forall>f \<in> set (symbolize_stack ss (take 32 lrs)). fr_addr f \<in> set lrs \<and> (\<exists>s \<in> set ss.
       sy_addr s \<le> fr_addr f \<and> (\<forall>s' \<in> set ss. sy_addr s' \<le> fr_addr f \<longrightarrow> sy_addr s' \<le> sy_addr s) \<and>
       fr_name f = sy_name s \<and> fr_file f = sy_file s \<and> fr_line f = symbol_line s (fr_addr f)))"
proof -
  have "fr_addr f \<in> set lrs \<and> symbolize ss (fr_addr f) = Some f" if "f \<in> set (symbolize_stack ss (take 32 lrs))" for f
    using symbolize_stack_frames [OF that] symbolize_spec by (metis in_set_takeD)
  then show ?thesis
    using backtrace_loop_stack [OF assms, of 0 "[]"] symbolize_spec by (auto simp: backtrace_from_def)
qed

text \<open>One function \<open>f\<close> of a file \<open>g\<close> at 4096 with a statement of line 9 at 4100, and a frame that returns to 4104.\<close>

definition demo_bytes :: "byte list" where
  "demo_bytes = i64_bytes 4096 @ i64_bytes 64 @ i64_bytes 66 @ i64_bytes 7 @ i64_bytes 48 @ i64_bytes 64 @
     i64_bytes 4100 @ i64_bytes 9 @ [102, 0, 103, 0, 0, 0, 0, 0] @ i64_bytes 0 @ i64_bytes 4104"

definition demo_image :: image where
  "demo_image = \<lparr>bytes_at = (\<lambda>a. if 0 \<le> a \<and> a < int (length demo_bytes) then Some (demo_bytes ! nat a) else None),
     symtab_section_start = 0, symtab_section_end = 48\<rparr>"

lemma demo_reads:
  "inspect_read_i64 demo_image 0 = Some 4096" "inspect_read_i64 demo_image 8 = Some 64" "inspect_read_i64 demo_image 16 = Some 66"
  "inspect_read_i32 demo_image 24 = Some 7" "inspect_read_i64 demo_image 32 = Some 48" "inspect_read_i64 demo_image 40 = Some 64"
  "inspect_read_i64 demo_image 48 = Some 4100" "inspect_read_i32 demo_image 56 = Some 9"
  "inspect_read_i64 demo_image 72 = Some 0" "inspect_read_i64 demo_image 80 = Some 4104"
  by code_simp+

lemma demo_strings: "inspect_cstr_to_str demo_image 64 = Some [102]" "inspect_cstr_to_str demo_image 66 = Some [103]"
proof -
  have "bytes_at demo_image 64 = Some 102" "bytes_at demo_image 65 = Some 0" "bytes_at demo_image 66 = Some 103" "bytes_at demo_image 67 = Some 0"
    by code_simp+
  then show "inspect_cstr_to_str demo_image 64 = Some [102]" "inspect_cstr_to_str demo_image 66 = Some [103]"
    by (simp_all add: inspect_cstr_to_str.simps)
qed

definition demo_symbol :: symbol where
  "demo_symbol = \<lparr>sy_addr = 4096, sy_name = [102], sy_file = [103], sy_decl = 7, sy_lines = [(4100, 9)]\<rparr>"

lemma demo_tables: "table_at demo_image [demo_symbol]" "stack_at demo_image 72 [4104]"
proof -
  have "symtab_section_start demo_image = 0" "symtab_section_end demo_image = 48" by (simp_all add: demo_image_def)
  moreover have "lines_at demo_image 48 64 [(4100, 9)]" by (simp add: lines_at_def demo_reads INT64_MAX_def)
  ultimately show "table_at demo_image [demo_symbol]"
    by (simp add: table_at_def row_at_def demo_symbol_def demo_reads demo_strings INT64_MAX_def)
  show "stack_at demo_image 72 [4104]" by (simp add: demo_reads INT64_MAX_def)
qed

lemma demo_symbolize:
  "symbolize_stack [demo_symbol] [4104] = [\<lparr>fr_addr = 4104, fr_name = [102], fr_file = [103], fr_line = 9\<rparr>]"
  by (simp add: symbolize_def symbol_line_def w64_def demo_symbol_def)

theorem backtrace_from_correct_witness:
  "\<exists>fs. backtrace_from demo_image 72 = Some fs \<and> map fr_name fs = [[102]] \<and> map fr_line fs = [9]"
  using backtrace_from_correct [OF demo_tables] demo_symbolize by simp

end
