(* ===== verification/Kod_Map.thy ===== *)
theory Kod_Map
  imports Kod_Lang
begin

text \<open>
  The hash map of \<open>src/stdlib/builtins.kod\<close> (\<open>Map\<close>), the set on top of it (\<open>src/stdlib/sets.kod\<close>) and the hash
  functions of the key types (\<open>src/stdlib/primitives\<close>): open addressing with a dense, insertion-ordered
  list of entries. The map refines an association list. That a probe ends is the hard part: once the
  perturbation has died out the slots follow \<open>5 * slot + 1\<close>, which visits every slot of a table whose size is
  a power of two.

  A map is used through one variable, so an update of an array is an update of the field that holds it.
\<close>

section \<open>Definitions\<close>

record ('k, 'v) Map =
  keys :: "'k list"
  vals :: "'v list"
  indices :: "int list"

definition empty_indices :: "int \<Rightarrow> int list" where
  "empty_indices n = replicate (nat n) (-1)"

definition norm_slot :: "int \<Rightarrow> int \<Rightarrow> int" where
  "norm_slot v n = c_rem (w64 (c_rem v n + n)) n"

partial_function (option) probe_loop :: "('k, 'v) Map \<Rightarrow> 'k \<Rightarrow> int \<Rightarrow> int \<Rightarrow> int option" where
  "probe_loop m key perturb slot = do {
     entry_idx \<leftarrow> kod_at (indices m) slot;
     if entry_idx = -1 then Some slot
     else do {
       k \<leftarrow> kod_at (keys m) entry_idx;
       if k = key then Some slot
       else (let perturb = c_quot perturb 32
             in probe_loop m key perturb (norm_slot (w64 (w64 (w64 (5 * slot) + 1) + perturb)) (int (length (indices m)))))
     }
   }"

definition probe :: "('k \<Rightarrow> int) \<Rightarrow> 'k \<Rightarrow> ('k, 'v) Map \<Rightarrow> int option" where
  "probe hash key m = (let h = hash key in probe_loop m key h (norm_slot h (int (length (indices m)))))"

fun resize_loop :: "('k \<Rightarrow> int) \<Rightarrow> nat list \<Rightarrow> ('k, 'v) Map \<Rightarrow> ('k, 'v) Map option" where
  "resize_loop hash [] m = Some m"
| "resize_loop hash (i # is) m = do {
     k \<leftarrow> kod_at (keys m) (int i);
     slot \<leftarrow> probe hash k m;
     ixs \<leftarrow> kod_put (indices m) slot (int i);
     resize_loop hash is (m\<lparr>indices := ixs\<rparr>)
   }"

definition resize :: "('k \<Rightarrow> int) \<Rightarrow> int \<Rightarrow> ('k, 'v) Map \<Rightarrow> ('k, 'v) Map option" where
  "resize hash new_size m = resize_loop hash [0..<length (keys m)] (m\<lparr>indices := empty_indices new_size\<rparr>)"

definition map_get :: "('k \<Rightarrow> int) \<Rightarrow> 'k \<Rightarrow> ('k, 'v) Map \<Rightarrow> 'v option option" where
  "map_get hash key m =
     (if indices m = [] then Some None
      else do {
        slot \<leftarrow> probe hash key m;
        entry_idx \<leftarrow> kod_at (indices m) slot;
        if entry_idx = -1 then Some None else do { v \<leftarrow> kod_at (vals m) entry_idx; Some (Some v) }
      })"

definition map_set :: "('k \<Rightarrow> int) \<Rightarrow> 'k \<Rightarrow> 'v \<Rightarrow> ('k, 'v) Map \<Rightarrow> ('k, 'v) Map option" where
  "map_set hash key v m = do {
     let m = (if indices m = [] then m\<lparr>indices := empty_indices 8\<rparr> else m);
     slot \<leftarrow> probe hash key m;
     entry_idx \<leftarrow> kod_at (indices m) slot;
     if entry_idx \<noteq> -1 then do {
       vs \<leftarrow> kod_put (vals m) entry_idx v;
       Some (m\<lparr>vals := vs\<rparr>)
     } else do {
       let m = m\<lparr>keys := keys m @ [key], vals := vals m @ [v]\<rparr>;
       ixs \<leftarrow> kod_put (indices m) slot (int (length (keys m)) - 1);
       let m = m\<lparr>indices := ixs\<rparr>;
       if w64 (int (length (keys m)) * 3) > w64 (int (length (indices m)) * 2)
       then resize hash (w64 (int (length (indices m)) * 2)) m
       else Some m
     }
   }"

definition map_contains :: "('k \<Rightarrow> int) \<Rightarrow> 'k \<Rightarrow> ('k, 'v) Map \<Rightarrow> bool option" where
  "map_contains hash key m =
     (if indices m = [] then Some False
      else do {
        slot \<leftarrow> probe hash key m;
        entry_idx \<leftarrow> kod_at (indices m) slot;
        Some (entry_idx \<noteq> -1)
      })"

definition map_len :: "('k, 'v) Map \<Rightarrow> int" where
  "map_len m = int (length (keys m))"

definition empty_map :: "('k, 'v) Map" where
  "empty_map = \<lparr>keys = [], vals = [], indices = []\<rparr>"

text \<open>The set: \<open>add\<close>, \<open>contains\<close> and \<open>len\<close>.\<close>

definition set_add :: "('k \<Rightarrow> int) \<Rightarrow> 'k \<Rightarrow> ('k, bool) Map \<Rightarrow> ('k, bool) Map option" where
  "set_add hash x m = map_set hash x True m"

definition set_contains :: "('k \<Rightarrow> int) \<Rightarrow> 'k \<Rightarrow> ('k, bool) Map \<Rightarrow> bool option" where
  "set_contains hash x m = map_contains hash x m"

definition set_len :: "('k, bool) Map \<Rightarrow> int" where
  "set_len m = map_len m"

text \<open>The hash functions of \<open>str\<close>, \<open>int64\<close> and \<open>bool\<close>.\<close>

definition str_hash :: "byte list \<Rightarrow> int" where
  "str_hash s = foldl (\<lambda>h b. w64 (w64 (h * 33) + uint b)) 5381 s"

definition int64_hash :: "64 word \<Rightarrow> int" where
  "int64_hash n = sint n"

definition bool_hash :: "bool \<Rightarrow> int" where
  "bool_hash b = (if b then 1 else 0)"

section \<open>The period of the probe sequence\<close>

fun five :: "nat \<Rightarrow> int" where
  "five 0 = 0"
| "five (Suc n) = 5 * five n + 1"

lemma five_iterate: "((\<lambda>x. 5 * x + 1) ^^ n) x = x + five n * (4 * x + 1)"
  by (induction n) (simp_all add: algebra_simps)

lemma five_add: "five (n + m) = five n + five m * (4 * five n + 1)"
  using five_iterate [of m "five n"] five_iterate [of "m + n" 0] five_iterate [of n 0]
  by (simp add: funpow_add add.commute [of n m])

lemma five_double: "five (2 * n) = 2 * five n * (2 * five n + 1)"
  using five_add [of n n] by (simp add: mult_2 [of n]) (simp add: algebra_simps)

lemma five_even: "even (five n) \<longleftrightarrow> even n"
  by (induction n) auto

lemma five_dvd: "2 ^ k dvd five n \<longleftrightarrow> 2 ^ k dvd n"
proof (induction k arbitrary: n)
  case (Suc k)
  show ?case
  proof (cases "even n")
    case True
    then obtain m where n: "n = 2 * m" by auto
    have "coprime (2 ^ k :: int) (2 * five m + 1)" by (simp add: coprime_commute)
    then have "(2 :: int) ^ Suc k dvd five n \<longleftrightarrow> 2 ^ k dvd five m"
      by (simp add: n five_double mult.assoc coprime_dvd_mult_left_iff)
    then show ?thesis using Suc.IH [of m] by (simp add: n)
  next
    case False
    then have "\<not> 2 dvd five n" "\<not> 2 dvd n" by (simp_all add: five_even)
    then show ?thesis by (meson dvd_power dvd_trans zero_less_Suc)
  qed
qed simp

text \<open>The slot and the perturbation after \<open>t\<close> steps.\<close>

fun probe_at :: "int \<Rightarrow> int \<Rightarrow> nat \<Rightarrow> int \<times> int" where
  "probe_at n h 0 = (norm_slot h n, h)"
| "probe_at n h (Suc t) =
     (let (slot, perturb) = probe_at n h t; perturb = c_quot perturb 32
      in (norm_slot (w64 (w64 (w64 (5 * slot) + 1) + perturb)) n, perturb))"

definition size_ok :: "int \<Rightarrow> bool" where
  "size_ok n \<longleftrightarrow> 0 < n \<and> n \<le> 2 ^ 59 \<and> (\<exists>k. n = 2 ^ k)"

lemma norm_slot_mod: "0 < n \<Longrightarrow> n \<le> 2 ^ 59 \<Longrightarrow> norm_slot v n = v mod n"
  using c_rem_bounds [of n v] c_rem_norm [of n v] by (simp add: norm_slot_def w64_id range_simps)

lemma perturb_small: "\<bar>snd (probe_at n h t)\<bar> = \<bar>h\<bar> div 32 ^ t"
proof (induction t)
  case (Suc t)
  have "\<bar>snd (probe_at n h (Suc t))\<bar> = \<bar>snd (probe_at n h t)\<bar> div 32"
    by (simp add: c_quot_abs_le Let_def split: prod.split)
  also have "\<dots> = \<bar>h\<bar> div (32 ^ t * 32)" using Suc by (simp add: zdiv_zmult2_eq)
  finally show ?case by (simp add: mult.commute)
qed simp

lemma perturb_dies: "in64 h \<Longrightarrow> 13 \<le> t \<Longrightarrow> snd (probe_at n h t) = 0"
proof -
  assume h: "in64 h" and t: "13 \<le> t"
  have "(32 :: int) ^ 13 \<le> 32 ^ t" using t by (intro power_increasing) auto
  moreover have "\<bar>h\<bar> \<le> 9223372036854775808" using h by (simp add: range_simps abs_le_iff)
  ultimately have "\<bar>h\<bar> < 32 ^ t" by simp
  then show ?thesis using perturb_small [of n h t] by simp
qed

lemma probe_at_Suc:
  assumes "size_ok n" and "in64 h"
  shows "0 \<le> fst (probe_at n h t) \<and> fst (probe_at n h t) < n"
    and "fst (probe_at n h (Suc t)) = (5 * fst (probe_at n h t) + 1 + snd (probe_at n h (Suc t))) mod n"
proof -
  have n: "0 < n" "n \<le> 2 ^ 59" using assms(1) by (auto simp: size_ok_def)
  have r: "0 \<le> fst (probe_at n h t) \<and> fst (probe_at n h t) < n" for t
    using n by (cases t) (auto simp: norm_slot_mod Let_def split: prod.splits)
  show "0 \<le> fst (probe_at n h t) \<and> fst (probe_at n h t) < n" by (rule r)
  have "\<bar>snd (probe_at n h (Suc t))\<bar> \<le> \<bar>h\<bar> div 32"
    unfolding perturb_small by (intro zdiv_mono2) simp_all
  also have "\<dots> \<le> 2 ^ 63 div 32" using assms(2) by (intro zdiv_mono1) (simp_all add: range_simps abs_le_iff)
  finally have p: "\<bar>snd (probe_at n h (Suc t))\<bar> \<le> 2 ^ 58" by simp
  then show "fst (probe_at n h (Suc t)) = (5 * fst (probe_at n h t) + 1 + snd (probe_at n h (Suc t))) mod n"
    using r [of t] n by (simp add: norm_slot_mod w64_id range_simps abs_le_iff Let_def split: prod.splits)
qed

text \<open>Every slot is on the probe sequence of every key.\<close>

lemma probe_visits:
  assumes "size_ok n" and "in64 h" and "0 \<le> s" and "s < n"
  shows "\<exists>t. fst (probe_at n h t) = s"
proof -
  obtain k where n: "n = 2 ^ k" using assms(1) by (auto simp: size_ok_def)
  define x where "x = fst (probe_at n h 13)"
  define f where "f j = (x + five j * (4 * x + 1)) mod n" for j
  have it: "fst (probe_at n h (13 + j)) = f j" for j
  proof (induction j)
    case (Suc j)
    have "snd (probe_at n h (Suc (13 + j))) = 0" using assms(2) by (rule perturb_dies) simp
    then have "fst (probe_at n h (Suc (13 + j))) = (5 * f j + 1) mod n"
      using probe_at_Suc(2) [OF assms(1,2), of "13 + j"] Suc by simp
    also have "\<dots> = (5 * (x + five j * (4 * x + 1)) + 1) mod n" unfolding f_def by (simp only: mod_add_left_eq mod_mult_right_eq mod_add_eq [of "5 * _" n 1, symmetric])
    also have "\<dots> = f (Suc j)" by (simp add: f_def algebra_simps)
    finally show ?case by simp
  qed (use probe_at_Suc(1) [OF assms(1,2), of 13] in \<open>simp add: f_def x_def\<close>)
  have "inj_on f {..<2 ^ k}"
  proof (rule linorder_inj_onI)
    fix i j :: nat assume ij: "i < j" "i \<in> {..<2 ^ k}" "j \<in> {..<2 ^ k}"
    have j: "five j = five (j - i) + five i * (4 * five (j - i) + 1)"
      using five_add [of "j - i" i] ij(1) by simp
    show "f i \<noteq> f j"
    proof
      assume "f i = f j"
      then have "f j = f i" by simp
      then have "2 ^ k dvd (five j - five i) * (4 * x + 1)"
        by (simp add: f_def n mod_eq_dvd_iff algebra_simps)
      moreover have "five j - five i = five (j - i) * (4 * five i + 1)" unfolding j by (simp add: algebra_simps)
      ultimately have "2 ^ k dvd five (j - i) * ((4 * five i + 1) * (4 * x + 1))" by (simp add: mult.assoc)
      moreover have "coprime ((2 :: int) ^ k) ((4 * five i + 1) * (4 * x + 1))" by (simp add: coprime_commute)
      ultimately have "2 ^ k dvd five (j - i)" by (simp add: coprime_dvd_mult_left_iff)
      then have "2 ^ k dvd j - i" by (simp add: five_dvd)
      then show False using ij by (auto dest: dvd_imp_le)
    qed
  qed (simp add: nat_le_linear)
  moreover have "f ` {..<2 ^ k} \<subseteq> {0..<n}" using assms(1) by (auto simp: f_def size_ok_def)
  ultimately have "f ` {..<2 ^ k} = {0..<n}" by (intro card_subset_eq) (simp_all add: card_image n)
  then obtain j where "f j = s" using assms(3,4) by (metis atLeastLessThan_iff imageE)
  then show ?thesis using it by blast
qed

section \<open>What a probe finds\<close>

abbreviation table_size :: "('k, 'v) Map \<Rightarrow> int" where
  "table_size m \<equiv> int (length (indices m))"

definition slot_at :: "('k \<Rightarrow> int) \<Rightarrow> ('k, 'v) Map \<Rightarrow> 'k \<Rightarrow> nat \<Rightarrow> nat" where
  "slot_at hash m k t = nat (fst (probe_at (table_size m) (hash k) t))"

text \<open>
  The first \<open>j\<close> keys are in the index: it holds nothing else, nothing twice, and each of them is found on
  its probe sequence before an empty slot.
\<close>

definition indexed :: "('k \<Rightarrow> int) \<Rightarrow> ('k, 'v) Map \<Rightarrow> nat \<Rightarrow> bool" where
  "indexed hash m j \<longleftrightarrow> size_ok (table_size m) \<and> j \<le> length (keys m) \<and> (\<forall>k. in64 (hash k)) \<and>
     (\<forall>s < length (indices m). indices m ! s = -1 \<or> 0 \<le> indices m ! s \<and> indices m ! s < int j) \<and>
     (\<forall>s < length (indices m). \<forall>s' < length (indices m). indices m ! s \<noteq> -1 \<and> indices m ! s = indices m ! s' \<longrightarrow> s = s') \<and>
     (\<forall>i < j. \<exists>t. indices m ! slot_at hash m (keys m ! i) t = int i \<and>
        (\<forall>t' < t. indices m ! slot_at hash m (keys m ! i) t' \<notin> {-1, int i}))"

definition stops :: "('k, 'v) Map \<Rightarrow> 'k \<Rightarrow> nat \<Rightarrow> bool" where
  "stops m key s \<longleftrightarrow> indices m ! s = -1 \<or> keys m ! nat (indices m ! s) = key"

lemma slot_at_less: "indexed hash m j \<Longrightarrow> slot_at hash m k t < length (indices m)"
  using probe_at_Suc(1) [of "table_size m" "hash k" t] by (simp add: indexed_def slot_at_def nat_less_iff)

lemma int_slot_at: "indexed hash m j \<Longrightarrow> fst (probe_at (table_size m) (hash k) t) = int (slot_at hash m k t)"
  using probe_at_Suc(1) [of "table_size m" "hash k" t] by (simp add: indexed_def slot_at_def)

lemma probe_loop_run:
  assumes "indexed hash m j" and "t0 \<le> t" and "\<And>t'. t0 \<le> t' \<Longrightarrow> t' < t \<Longrightarrow> \<not> stops m key (slot_at hash m key t')"
    and "stops m key (slot_at hash m key t)"
  shows "probe_loop m key (snd (probe_at (table_size m) (hash key) t0)) (fst (probe_at (table_size m) (hash key) t0)) =
    Some (int (slot_at hash m key t))"
  using assms(2,3)
proof (induction "t - t0" arbitrary: t0)
  have e: "kod_at (indices m) (int (slot_at hash m key u)) = Some (indices m ! slot_at hash m key u)" for u
    using slot_at_less [OF assms(1)] by simp
  have k: "kod_at (keys m) (indices m ! slot_at hash m key u) = Some (keys m ! nat (indices m ! slot_at hash m key u))"
    if "indices m ! slot_at hash m key u \<noteq> -1" for u
  proof -
    have "0 \<le> indices m ! slot_at hash m key u \<and> indices m ! slot_at hash m key u < int (length (keys m))"
      using that assms(1) slot_at_less [OF assms(1), of key u] unfolding indexed_def by (metis le_less_trans less_le_trans of_nat_le_iff)
    then show ?thesis by (simp add: kod_at_def)
  qed
  {
    case 0
    then have "t0 = t" by simp
    then show ?case using assms(4) e k
      by (subst probe_loop.simps) (auto simp: int_slot_at [OF assms(1)] stops_def)
  next
    case (Suc d)
    then have "\<not> stops m key (slot_at hash m key t0)" "Suc t0 \<le> t" "d = t - Suc t0" by auto
    moreover have "probe_at (table_size m) (hash key) (Suc t0) =
        (norm_slot (w64 (w64 (w64 (5 * int (slot_at hash m key t0)) + 1) + c_quot (snd (probe_at (table_size m) (hash key) t0)) 32)) (table_size m),
         c_quot (snd (probe_at (table_size m) (hash key) t0)) 32)"
      by (simp add: Let_def int_slot_at [OF assms(1), symmetric] split: prod.split)
    ultimately show ?case
      using Suc.hyps(1) [of "Suc t0"] Suc.prems e [of t0] k [of t0]
      by (subst probe_loop.simps) (simp add: int_slot_at [OF assms(1)] stops_def Let_def)
  }
qed

text \<open>With a free slot, a probe ends at the first slot that is empty or holds the key.\<close>

lemma open_slot:
  assumes "indexed hash m j" and "j < length (indices m)"
  shows "\<exists>s < length (indices m). indices m ! s = -1"
proof (rule ccontr)
  assume n: "\<not> ?thesis"
  let ?f = "\<lambda>s. nat (indices m ! s)"
  have "inj_on ?f {..<length (indices m)}"
    using assms(1) n unfolding indexed_def inj_on_def by (metis eq_nat_nat_iff lessThan_iff)
  moreover have "?f ` {..<length (indices m)} \<subseteq> {..<j}" using assms(1) n by (auto simp: indexed_def nat_less_iff)
  ultimately have "length (indices m) \<le> j" using card_inj_on_le [of ?f "{..<length (indices m)}" "{..<j}"] by simp
  then show False using assms(2) by simp
qed

lemma probe_finds:
  assumes "indexed hash m j" and "j < length (indices m)"
  shows "\<exists>t. probe hash key m = Some (int (slot_at hash m key t)) \<and> stops m key (slot_at hash m key t) \<and>
    (\<forall>t' < t. \<not> stops m key (slot_at hash m key t'))"
proof -
  obtain s where s: "s < length (indices m)" "indices m ! s = -1" using open_slot [OF assms] by blast
  have "size_ok (table_size m)" "in64 (hash key)" using assms(1) by (simp_all add: indexed_def)
  then obtain u where "fst (probe_at (table_size m) (hash key) u) = int s" using probe_visits s(1) by force
  then have "stops m key (slot_at hash m key u)" using s(2) by (simp add: slot_at_def stops_def)
  then obtain t where t: "stops m key (slot_at hash m key t)" "\<forall>t' < t. \<not> stops m key (slot_at hash m key t')"
    using exists_least_iff [of "\<lambda>t. stops m key (slot_at hash m key t)"] by blast
  with probe_loop_run [OF assms(1), of 0 t key] show ?thesis by (auto simp: probe_def Let_def)
qed

lemma probe_key:
  assumes "indexed hash m j" and "j < length (indices m)" and "distinct (take j (keys m))" and "i < j" and "keys m ! i = key"
  shows "\<exists>s < length (indices m). probe hash key m = Some (int s) \<and> indices m ! s = int i"
proof -
  have d: "i' = i" if "i' < j" "keys m ! i' = key" for i'
    using that assms(1,3,4,5) nth_eq_iff_index_eq [of "take j (keys m)" i' i] by (simp add: indexed_def)
  obtain u where u: "indices m ! slot_at hash m key u = int i" "\<forall>t' < u. indices m ! slot_at hash m key t' \<notin> {-1, int i}"
    using assms(1,4,5) unfolding indexed_def by blast
  have "\<not> stops m key (slot_at hash m key t')" if "t' < u" for t'
  proof
    assume s: "stops m key (slot_at hash m key t')"
    let ?e = "indices m ! slot_at hash m key t'"
    have e: "?e \<noteq> -1" "?e \<noteq> int i" using u(2) that by auto
    then have "0 \<le> ?e" "?e < int j" using assms(1) slot_at_less [OF assms(1), of key t'] unfolding indexed_def by blast+
    then have "nat ?e = i" using s e d [of "nat ?e"] by (simp add: stops_def nat_less_iff)
    then show False using e(2) \<open>0 \<le> ?e\<close> by simp
  qed
  moreover have "stops m key (slot_at hash m key u)" using u(1) assms(5) by (simp add: stops_def)
  ultimately have "probe hash key m = Some (int (slot_at hash m key u))"
    using probe_loop_run [OF assms(1), of 0 u key] by (simp add: probe_def Let_def)
  then show ?thesis using u(1) slot_at_less [OF assms(1)] by blast
qed

lemma probe_absent:
  assumes "indexed hash m j" and "j < length (indices m)" and "key \<notin> set (take j (keys m))"
  shows "\<exists>t. probe hash key m = Some (int (slot_at hash m key t)) \<and> indices m ! slot_at hash m key t = -1 \<and>
    (\<forall>t' < t. indices m ! slot_at hash m key t' \<noteq> -1)"
proof -
  have n: "keys m ! nat (indices m ! s) \<noteq> key" if "s < length (indices m)" "indices m ! s \<noteq> -1" for s
  proof -
    have "0 \<le> indices m ! s" "indices m ! s < int j" using assms(1) that unfolding indexed_def by blast+
    then have "keys m ! nat (indices m ! s) \<in> set (take j (keys m))"
      using assms(1) by (auto simp: in_set_conv_nth indexed_def nat_less_iff intro!: exI [of _ "nat (indices m ! s)"])
    then show ?thesis using assms(3) by auto
  qed
  show ?thesis using probe_finds [OF assms(1,2), of key] n slot_at_less [OF assms(1)] unfolding stops_def by blast
qed

text \<open>Writing the next key's number into the slot its probe gave keeps the index right.\<close>

lemma place_key:
  assumes "indexed hash m j" and "key \<notin> set (take j (keys m))"
    and t: "indices m ! slot_at hash m key t = -1" "\<forall>t' < t. indices m ! slot_at hash m key t' \<noteq> -1"
    and m': "indices m' = (indices m)[slot_at hash m key t := int j]" "take j (keys m') = take j (keys m)"
      "j < length (keys m')" "keys m' ! j = key"
  shows "indexed hash m' (Suc j)"
proof -
  let ?s = "slot_at hash m key t"
  have s: "?s < length (indices m)" by (rule slot_at_less [OF assms(1)])
  have sz: "length (indices m') = length (indices m)" by (simp add: m'(1))
  have sl: "slot_at hash m' k u = slot_at hash m k u" for k u by (simp add: slot_at_def sz)
  have nth: "indices m' ! r = (if r = ?s then int j else indices m ! r)" if "r < length (indices m)" for r
    using that s by (simp add: m'(1) nth_list_update)
  have k: "keys m' ! i = keys m ! i" if "i < j" for i using that m'(2) by (metis nth_take)
  have range: "indices m ! r = -1 \<or> 0 \<le> indices m ! r \<and> indices m ! r < int j" if "r < length (indices m)" for r
    using assms(1) that unfolding indexed_def by blast
  have uniq: "r = r'" if "r < length (indices m)" "r' < length (indices m)" "indices m' ! r \<noteq> -1" "indices m' ! r = indices m' ! r'" for r r'
    using that assms(1) range [of r] range [of r'] nth [of r] nth [of r'] unfolding indexed_def by (auto split: if_splits)
  have old: "\<exists>u. indices m' ! slot_at hash m (keys m' ! i) u = int i \<and>
      (\<forall>t' < u. indices m' ! slot_at hash m (keys m' ! i) t' \<notin> {-1, int i})" if i: "i < j" for i
  proof -
    obtain u where u: "indices m ! slot_at hash m (keys m ! i) u = int i"
      "\<forall>t' < u. indices m ! slot_at hash m (keys m ! i) t' \<notin> {-1, int i}"
      using assms(1) i unfolding indexed_def by blast
    have "indices m' ! slot_at hash m (keys m ! i) u = int i"
      using u(1) t(1) nth [OF slot_at_less [OF assms(1)]] by auto
    moreover have "indices m' ! slot_at hash m (keys m ! i) t' \<notin> {-1, int i}" if "t' < u" for t'
      using u(2) that i nth [OF slot_at_less [OF assms(1)]] by auto
    ultimately show ?thesis using k [OF i] by auto
  qed
  have new: "indices m' ! slot_at hash m key t = int j \<and> (\<forall>t' < t. indices m' ! slot_at hash m key t' \<notin> {-1, int j})"
  proof -
    have "indices m' ! slot_at hash m key t' \<notin> {-1, int j}" if "t' < t" for t'
      using t that nth [OF slot_at_less [OF assms(1), of key t']] range [OF slot_at_less [OF assms(1), of key t']] by auto
    then show ?thesis using nth [OF s] by simp
  qed
  have "\<exists>u. indices m' ! slot_at hash m' (keys m' ! i) u = int i \<and>
      (\<forall>t' < u. indices m' ! slot_at hash m' (keys m' ! i) t' \<notin> {-1, int i})" if "i < Suc j" for i
    using that old new m'(4) unfolding sl by (cases "i = j") auto
  moreover have "\<forall>s < length (indices m'). indices m' ! s = -1 \<or> 0 \<le> indices m' ! s \<and> indices m' ! s < int (Suc j)"
    using range nth sz by fastforce
  moreover have "size_ok (table_size m')" "\<forall>k. in64 (hash k)" using assms(1) by (simp_all add: indexed_def sz)
  ultimately show ?thesis unfolding indexed_def using m'(3) uniq sz by auto
qed

section \<open>Growing the index\<close>

lemma indexed_empty:
  assumes "size_ok n" and "\<And>k. in64 (hash k)" and "indices m = empty_indices n"
  shows "indexed hash m 0"
  using assms by (simp add: indexed_def empty_indices_def size_ok_def)

lemma resize_loop_indexed:
  assumes "indexed hash m j" and "distinct (keys m)" and "length (keys m) < length (indices m)"
  shows "\<exists>ixs. resize_loop hash [j..<length (keys m)] m = Some (m\<lparr>indices := ixs\<rparr>) \<and> length ixs = length (indices m) \<and>
    indexed hash (m\<lparr>indices := ixs\<rparr>) (length (keys m))"
  using assms
proof (induction "length (keys m) - j" arbitrary: m j)
  case 0
  then have "j = length (keys m)" by (simp add: indexed_def)
  then show ?case using 0 by (intro exI [of _ "indices m"]) simp
next
  case (Suc d)
  then have j: "j < length (keys m)" "d = length (keys m) - Suc j" by auto
  have "distinct (take (Suc j) (keys m))" using Suc.prems(2) by (rule distinct_take)
  then have a: "keys m ! j \<notin> set (take j (keys m))" using j(1) by (simp add: take_Suc_conv_app_nth)
  obtain t where t: "probe hash (keys m ! j) m = Some (int (slot_at hash m (keys m ! j) t))"
    "indices m ! slot_at hash m (keys m ! j) t = -1" "\<forall>t' < t. indices m ! slot_at hash m (keys m ! j) t' \<noteq> -1"
    using probe_absent [OF Suc.prems(1) _ a] j(1) Suc.prems(3) by auto
  define m1 where "m1 = m\<lparr>indices := (indices m)[slot_at hash m (keys m ! j) t := int j]\<rparr>"
  have "indexed hash m1 (Suc j)"
    using place_key [OF Suc.prems(1) a t(2,3), of m1] j(1) by (simp add: m1_def)
  then obtain ixs where ixs: "resize_loop hash [Suc j..<length (keys m)] m1 = Some (m1\<lparr>indices := ixs\<rparr>)"
    "length ixs = length (indices m)" "indexed hash (m1\<lparr>indices := ixs\<rparr>) (length (keys m))"
    using Suc.hyps(1) [of m1 "Suc j"] j(2) Suc.prems by (auto simp: m1_def)
  moreover have "resize_loop hash [j..<length (keys m)] m = resize_loop hash [Suc j..<length (keys m)] m1"
    using t(1) j(1) slot_at_less [OF Suc.prems(1), of "keys m ! j" t] by (simp add: upt_conv_Cons m1_def)
  ultimately show ?case by (auto simp: m1_def)
qed

section \<open>The map\<close>

definition map_inv :: "('k \<Rightarrow> int) \<Rightarrow> ('k, 'v) Map \<Rightarrow> bool" where
  "map_inv hash m \<longleftrightarrow> distinct (keys m) \<and> length (vals m) = length (keys m) \<and>
     (indices m = [] \<and> keys m = [] \<or>
      8 \<le> length (indices m) \<and> 3 * length (keys m) \<le> 2 * length (indices m) \<and> indexed hash m (length (keys m)))"

definition map_abs :: "('k, 'v) Map \<Rightarrow> 'k \<rightharpoonup> 'v" where
  "map_abs m = map_of (zip (keys m) (vals m))"

lemma map_abs_nth: "distinct (keys m) \<Longrightarrow> length (vals m) = length (keys m) \<Longrightarrow> i < length (keys m) \<Longrightarrow>
    map_abs m (keys m ! i) = Some (vals m ! i)"
  by (simp add: map_abs_def map_of_zip_nth)

lemma map_abs_None: "length (vals m) = length (keys m) \<Longrightarrow> map_abs m k = None \<longleftrightarrow> k \<notin> set (keys m)"
  by (simp add: map_abs_def)

text \<open>The one fact about a probe of a full map: the entry of the key, or a free slot.\<close>

lemma probe_cases:
  assumes "map_inv hash m" and "indices m \<noteq> []"
  obtains (hit) s i where "s < length (indices m)" "probe hash key m = Some (int s)" "indices m ! s = int i"
      "i < length (keys m)" "keys m ! i = key"
    | (miss) t where "key \<notin> set (keys m)" "probe hash key m = Some (int (slot_at hash m key t))"
      "indices m ! slot_at hash m key t = -1" "\<forall>t' < t. indices m ! slot_at hash m key t' \<noteq> -1"
proof -
  have i: "indexed hash m (length (keys m))" "length (keys m) < length (indices m)" "distinct (keys m)"
    using assms by (auto simp: map_inv_def)
  show thesis
  proof (cases "key \<in> set (keys m)")
    case True
    then obtain k where k: "k < length (keys m)" "keys m ! k = key" by (auto simp: in_set_conv_nth)
    from probe_key [OF i(1,2) _ k] i(3) hit k show thesis by auto
  next
    case False
    with probe_absent [OF i(1,2), of key] miss show thesis by auto
  qed
qed

lemma map_get_spec:
  assumes "map_inv hash m"
  shows "map_get hash key m = Some (map_abs m key)"
proof (cases "indices m = []")
  case True
  then show ?thesis using assms by (auto simp: map_get_def map_abs_def map_inv_def)
next
  case False
  have l: "distinct (keys m)" "length (vals m) = length (keys m)" using assms by (simp_all add: map_inv_def)
  from assms False show ?thesis
  proof (cases rule: probe_cases [where key = key])
    case (hit s i)
    then show ?thesis using False l map_abs_nth [of m i] by (simp add: map_get_def)
  next
    case (miss t)
    have "slot_at hash m key t < length (indices m)"
      using assms False slot_at_less by (auto simp: map_inv_def)
    then show ?thesis using miss False l map_abs_None [of m key] by (simp add: map_get_def)
  qed
qed

lemma map_contains_spec:
  assumes "map_inv hash m"
  shows "map_contains hash key m = Some (map_abs m key \<noteq> None)"
proof (cases "indices m = []")
  case True
  then show ?thesis using assms by (auto simp: map_contains_def map_abs_def map_inv_def)
next
  case False
  have l: "distinct (keys m)" "length (vals m) = length (keys m)" using assms by (simp_all add: map_inv_def)
  from assms False show ?thesis
  proof (cases rule: probe_cases [where key = key])
    case (hit s i)
    then show ?thesis using False l map_abs_nth [of m i] by (auto simp: map_contains_def)
  next
    case (miss t)
    have "slot_at hash m key t < length (indices m)"
      using assms False slot_at_less by (auto simp: map_inv_def)
    then show ?thesis using miss False l map_abs_None [of m key] by (simp add: map_contains_def)
  qed
qed

lemma map_of_zip_update:
  assumes "distinct ks" and "length vs = length ks" and "i < length ks"
  shows "map_of (zip ks (vs[i := v])) = (map_of (zip ks vs))(ks ! i \<mapsto> v)"
proof
  fix k
  show "map_of (zip ks (vs[i := v])) k = ((map_of (zip ks vs))(ks ! i \<mapsto> v)) k"
  proof (cases "k \<in> set ks")
    case True
    then obtain j where j: "j < length ks" "k = ks ! j" by (auto simp: in_set_conv_nth)
    then have "ks ! j = ks ! i \<longleftrightarrow> j = i" using assms by (simp add: nth_eq_iff_index_eq)
    then show ?thesis using assms j by (auto simp: map_of_zip_nth nth_list_update)
  next
    case False
    then have "map_of (zip ks (vs[i := v])) k = None" "map_of (zip ks vs) k = None" using assms by simp_all
    then show ?thesis using False assms(3) by auto
  qed
qed

lemma indexed_cong: "indices m' = indices m \<Longrightarrow> keys m' = keys m \<Longrightarrow> indexed hash m' j = indexed hash m j"
  by (simp add: indexed_def slot_at_def)

lemma size_ok_double: "size_ok n \<Longrightarrow> 2 * n \<le> 2 ^ 59 \<Longrightarrow> size_ok (2 * n)"
  unfolding size_ok_def by (metis mult_pos_pos power_Suc zero_less_numeral)

lemma resize_inv:
  assumes "indexed hash m (length (keys m))" and "distinct (keys m)" and "length (vals m) = length (keys m)"
    and "8 \<le> length (indices m)" and "length (keys m) \<le> length (indices m)" and "2 * length (indices m) \<le> 2 ^ 59"
  shows "\<exists>m'. resize hash (w64 (table_size m * 2)) m = Some m' \<and> map_inv hash m' \<and> keys m' = keys m \<and> vals m' = vals m"
proof -
  have w: "w64 (table_size m * 2) = 2 * table_size m" using assms(6) by (simp add: w64_id range_simps)
  define m0 where "m0 = m\<lparr>indices := empty_indices (2 * table_size m)\<rparr>"
  have len: "length (indices m0) = 2 * length (indices m)" by (simp add: m0_def empty_indices_def nat_mult_distrib)
  have "size_ok (2 * table_size m)" using assms(1,6) by (intro size_ok_double) (auto simp: indexed_def)
  then have "indexed hash m0 0"
    using assms(1) by (intro indexed_empty [of "2 * table_size m"]) (auto simp: indexed_def m0_def)
  then obtain ixs where "resize_loop hash [0..<length (keys m)] m0 = Some (m0\<lparr>indices := ixs\<rparr>)"
    "length ixs = 2 * length (indices m)" "indexed hash (m0\<lparr>indices := ixs\<rparr>) (length (keys m))"
    using resize_loop_indexed [of hash m0 0] assms(2,4,5) len by (auto simp: m0_def)
  then show ?thesis using assms by (simp add: resize_def w m0_def [symmetric] map_inv_def) (simp add: m0_def)
qed

lemma map_set_spec:
  assumes inv: "map_inv hash m" and h: "\<And>k. in64 (hash k)" and room: "length (keys m) < 2 ^ 57"
  shows "\<exists>m'. map_set hash key v m = Some m' \<and> map_inv hash m' \<and> map_abs m' = (map_abs m)(key \<mapsto> v) \<and>
    keys m' = (if key \<in> set (keys m) then keys m else keys m @ [key])"
proof -
  define m0 where "m0 = (if indices m = [] then m\<lparr>indices := empty_indices 8\<rparr> else m)"
  have "size_ok 8" unfolding size_ok_def by (auto intro: exI [of _ 3])
  then have inv0: "map_inv hash m0" "indices m0 \<noteq> []" "keys m0 = keys m" "vals m0 = vals m" "8 \<le> length (indices m0)"
    using inv indexed_empty [of 8 hash m0] h by (auto simp: m0_def map_inv_def empty_indices_def)
  have l: "distinct (keys m)" "length (vals m) = length (keys m)" using inv by (simp_all add: map_inv_def)
  have i0: "indexed hash m0 (length (keys m))" "3 * length (keys m) \<le> 2 * length (indices m0)"
    using inv0 by (auto simp: map_inv_def)
  from inv0(1,2) show ?thesis
  proof (cases rule: probe_cases [where key = key])
    case (hit s i)
    define m1 where "m1 = m0\<lparr>vals := (vals m)[i := v]\<rparr>"
    have "map_set hash key v m = Some m1"
      using hit l inv0 by (simp add: map_set_def m0_def [symmetric] Let_def m1_def)
    moreover have "map_inv hash m1"
      using inv0 l indexed_cong [of m1 m0] by (simp add: m1_def map_inv_def)
    moreover have "map_abs m1 = (map_abs m)(key \<mapsto> v)"
      using hit l inv0 map_of_zip_update [of "keys m" "vals m" i v] by (simp add: map_abs_def m1_def)
    ultimately show ?thesis using hit inv0 by (auto simp: m1_def)
  next
    case (miss t)
    let ?s = "slot_at hash m0 key t" and ?n = "length (keys m)"
    have s: "?s < length (indices m0)" by (rule slot_at_less [OF i0(1)])
    define m1 where "m1 = m0\<lparr>keys := keys m @ [key], vals := vals m @ [v], indices := (indices m0)[?s := int ?n]\<rparr>"
    have i1: "indexed hash m1 (Suc ?n)"
      using place_key [OF i0(1) _ miss(3,4), of m1] miss(1) inv0 by (simp add: m1_def)
    have small: "length (indices m0) \<le> 2 ^ 59" using i0(1) by (auto simp: indexed_def size_ok_def simp flip: of_nat_le_iff)
    have run: "map_set hash key v m = (if 3 * Suc ?n > 2 * length (indices m1) then resize hash (w64 (table_size m1 * 2)) m1 else Some m1)"
    proof -
      have w: "w64 (int (Suc ?n) * 3) = int (Suc ?n) * 3" "w64 (table_size m0 * 2) = table_size m0 * 2"
        using room small by (simp_all add: w64_id range_simps)
      show ?thesis
        using miss s inv0 w by (simp add: map_set_def m0_def [symmetric] Let_def m1_def)
    qed
    have abs: "map_abs m1 = (map_abs m)(key \<mapsto> v)"
      using miss(1) l inv0 by (simp add: map_abs_def m1_def map_add_upd_left map_of_append)
    show ?thesis
    proof (cases "3 * Suc ?n > 2 * length (indices m1)")
      case True
      have "\<exists>m'. resize hash (w64 (table_size m1 * 2)) m1 = Some m' \<and> map_inv hash m' \<and> keys m' = keys m1 \<and> vals m' = vals m1"
        using i1 True i0(2) room l miss(1) inv0 by (intro resize_inv) (auto simp: m1_def)
      then show ?thesis using run True abs miss(1) inv0 by (auto simp: map_abs_def m1_def)
    next
      case False
      then have "map_inv hash m1" using i1 l miss(1) inv0 by (auto simp: map_inv_def m1_def)
      then show ?thesis using run False abs miss(1) inv0 by (auto simp: m1_def)
    qed
  qed
qed

section \<open>Hash functions\<close>

text \<open>What the map asks of a hash function: it is a function of the key, to \<open>int64\<close>.\<close>

locale hashed_keys =
  fixes hash :: "'k \<Rightarrow> int"
  assumes hash_range: "in64 (hash k)"
begin

text \<open>The values and the first-insertion order that any sequence of updates leaves.\<close>

lemma sets_run:
  "map_inv hash m \<Longrightarrow> length (keys m) + length kvs \<le> 2 ^ 57 \<Longrightarrow>
   \<exists>m'. run_ops (\<lambda>(k, v). map_set hash k v) kvs m = Some m' \<and> map_inv hash m' \<and>
     map_abs m' = fold (\<lambda>(k, v) f. f(k \<mapsto> v)) kvs (map_abs m) \<and>
     keys m' = fold (\<lambda>(k, v) ks. if k \<in> set ks then ks else ks @ [k]) kvs (keys m)"
proof (induction kvs arbitrary: m)
  case (Cons kv kvs)
  obtain k v where kv: "kv = (k, v)" by fastforce
  obtain m1 where m1: "map_set hash k v m = Some m1" "map_inv hash m1" "map_abs m1 = (map_abs m)(k \<mapsto> v)"
    "keys m1 = (if k \<in> set (keys m) then keys m else keys m @ [k])"
    using map_set_spec [OF Cons.prems(1) hash_range, of k v] Cons.prems(2) by auto
  then have "length (keys m1) + length kvs \<le> 2 ^ 57" using Cons.prems(2) by (auto split: if_splits)
  with Cons.IH [OF m1(2)] m1 show ?case by (simp add: kv)
qed simp

end

lemma str_hash_range: "in64 (str_hash s)"
proof (cases s rule: rev_cases)
  case Nil
  then show ?thesis by (simp add: str_hash_def range_simps)
next
  case (snoc xs x)
  then show ?thesis by (simp add: str_hash_def w64_range)
qed

interpretation str_keys: hashed_keys str_hash
  by unfold_locales (rule str_hash_range)

interpretation int64_keys: hashed_keys int64_hash
proof unfold_locales
  fix n show "in64 (int64_hash n)"
    using sint_range_size [of n] by (simp add: int64_hash_def word_size range_simps)
qed

interpretation bool_keys: hashed_keys bool_hash
  by unfold_locales (simp add: bool_hash_def range_simps)

lemma empty_map_inv: "map_inv hash empty_map" "keys empty_map = []" "map_abs empty_map = Map.empty"
  by (simp_all add: map_inv_def empty_map_def map_abs_def)

lemma first_keys:
  "fold (\<lambda>(k, v) ks. if k \<in> set ks then ks else ks @ [k]) kvs [] = rev (remdups (rev (map fst kvs)))"
  by (induction kvs rule: rev_induct) (auto simp: split_beta)

section \<open>Properties\<close>

text \<open>
  C27. A hash map is the partial map that its updates make, and it keeps its keys in the order in which they
  were first set. For every sequence of updates and every hash function, also one that sends all keys to
  the same slot, every operation ends, no index is out of bounds, and \<open>get\<close>, \<open>contains\<close> and \<open>len\<close> answer as
  the partial map does, through every growth of the table.
\<close>

theorem map_refines:
  assumes "\<And>k. in64 (hash k)" and "length kvs \<le> 2 ^ 57"
  shows "\<exists>m. run_ops (\<lambda>(k, v). map_set hash k v) kvs empty_map = Some m \<and>
    (let f = fold (\<lambda>(k, v) f. f(k \<mapsto> v)) kvs Map.empty in
      map_get hash key m = Some (f key) \<and> map_contains hash key m = Some (key \<in> dom f) \<and>
      keys m = rev (remdups (rev (map fst kvs))) \<and> map_len m = int (card (dom f)))"
proof -
  have h: "hashed_keys hash" using assms(1) by unfold_locales
  obtain m where m: "run_ops (\<lambda>(k, v). map_set hash k v) kvs empty_map = Some m" "map_inv hash m"
    "map_abs m = fold (\<lambda>(k, v) f. f(k \<mapsto> v)) kvs Map.empty" "keys m = rev (remdups (rev (map fst kvs)))"
    using hashed_keys.sets_run [OF h, where m = empty_map and kvs = kvs] assms(2)
    unfolding first_keys [symmetric] by (auto simp: empty_map_inv)
  have l: "distinct (keys m)" "length (vals m) = length (keys m)" using m(2) by (simp_all add: map_inv_def)
  have "dom (map_abs m) = set (keys m)" using map_abs_None [OF l(2)] by (auto simp: dom_def)
  then have "map_len m = int (card (dom (map_abs m)))" using l(1) by (simp add: map_len_def distinct_card)
  then show ?thesis
    using m map_get_spec [OF m(2), of key] map_contains_spec [OF m(2), of key] by (auto simp: Let_def)
qed

text \<open>Nine updates, past the growth of the first table, of which two have the same key; all keys collide.\<close>

theorem map_refines_witness:
  "\<exists>m. run_ops (\<lambda>(k, v). map_set (\<lambda>_. 7) k v) [(1 :: nat, 1), (2, 2), (3, 3), (4, 4), (1, 10), (5, 5), (6, 6), (7, 7), (8, 8 :: nat)] empty_map = Some m \<and>
     map_get (\<lambda>_. 7) 1 m = Some (Some 10) \<and> keys m = [1, 2, 3, 4, 5, 6, 7, 8]"
  using map_refines [of "\<lambda>_. 7" "[(1 :: nat, 1), (2, 2), (3, 3), (4, 4), (1, 10), (5, 5), (6, 6), (7, 7), (8, 8 :: nat)]" 1]
  by (simp add: range_simps) blast

end
