(* ===== verification/Kod_Sort.thy ===== *)
theory Kod_Sort
  imports Kod_Lang "HOL-Library.Multiset"
begin

text \<open>
  \<open>src/stdlib/sort.kod\<close>: the bottom-up merge sort \<open>sorted_by\<close>. \<open>less\<close>, here \<open>lt\<close>, is the caller's function; an array
  of the machine has fewer than \<open>2 ^ 61\<close> slots.
\<close>

section \<open>Definitions\<close>

definition smaller :: "int \<Rightarrow> int \<Rightarrow> int" where
  "smaller a b = (if a < b then a else b)"

partial_function (option) merge_loop ::
  "('a \<Rightarrow> 'a \<Rightarrow> bool) \<Rightarrow> 'a list \<Rightarrow> int \<Rightarrow> int \<Rightarrow> int \<Rightarrow> int \<Rightarrow> 'a list \<Rightarrow> 'a list option" where
  "merge_loop lt cur mid hi i j nxt =
     (if i < mid \<or> j < hi then do {
        left \<leftarrow> (if j \<ge> hi then Some True
                else if i < mid then do { b \<leftarrow> kod_at cur j; a \<leftarrow> kod_at cur i; Some (\<not> lt b a) }
                else Some False);
        (if left then do { x \<leftarrow> kod_at cur i; merge_loop lt cur mid hi (w64 (i + 1)) j (nxt @ [x]) }
         else do { x \<leftarrow> kod_at cur j; merge_loop lt cur mid hi i (w64 (j + 1)) (nxt @ [x]) })
      } else Some nxt)"

partial_function (option) pass_loop ::
  "('a \<Rightarrow> 'a \<Rightarrow> bool) \<Rightarrow> 'a list \<Rightarrow> int \<Rightarrow> int \<Rightarrow> int \<Rightarrow> 'a list \<Rightarrow> 'a list option" where
  "pass_loop lt cur n run lo nxt =
     (if lo < n then do {
        let mid = smaller (w64 (lo + run)) n;
        let hi = smaller (w64 (w64 (lo + run) + run)) n;
        nxt \<leftarrow> merge_loop lt cur mid hi lo mid nxt;
        pass_loop lt cur n run hi nxt
      } else Some nxt)"

partial_function (option) sort_loop :: "('a \<Rightarrow> 'a \<Rightarrow> bool) \<Rightarrow> int \<Rightarrow> int \<Rightarrow> 'a list \<Rightarrow> 'a list option" where
  "sort_loop lt n run cur =
     (if run < n then do {
        cur \<leftarrow> pass_loop lt cur n run 0 [];
        sort_loop lt n (w64 (run + run)) cur
      } else Some cur)"

definition sorted_by :: "('a \<Rightarrow> 'a \<Rightarrow> bool) \<Rightarrow> 'a list \<Rightarrow> 'a list option" where
  "sorted_by lt xs = sort_loop lt (int (length xs)) 1 xs"

section \<open>Merging on lists\<close>

fun merge :: "('a \<Rightarrow> 'a \<Rightarrow> bool) \<Rightarrow> 'a list \<Rightarrow> 'a list \<Rightarrow> 'a list" where
  "merge lt [] ys = ys"
| "merge lt (x # xs) [] = x # xs"
| "merge lt (x # xs) (y # ys) = (if \<not> lt y x then x # merge lt xs (y # ys) else y # merge lt (x # xs) ys)"

function pass :: "('a \<Rightarrow> 'a \<Rightarrow> bool) \<Rightarrow> nat \<Rightarrow> 'a list \<Rightarrow> 'a list" where
  "pass lt r xs =
     (if r = 0 \<or> xs = [] then xs
      else merge lt (take r xs) (take r (drop r xs)) @ pass lt r (drop (2 * r) xs))"
  by pat_completeness auto

termination
  by (relation "measure (\<lambda>(lt, r, xs). length xs)") auto

declare pass.simps [simp del]

lemma merge_Nil [simp]: "merge lt xs [] = xs"
  by (cases xs) simp_all

lemma mset_merge [simp]: "mset (merge lt xs ys) = mset xs + mset ys"
  by (induction lt xs ys rule: merge.induct) auto

lemma set_merge [simp]: "set (merge lt xs ys) = set xs \<union> set ys"
  by (metis mset_merge set_mset_mset set_mset_union)

lemma length_merge [simp]: "length (merge lt xs ys) = length xs + length ys"
  by (metis mset_merge size_mset size_union)

lemma mset_pass: "mset (pass lt r xs) = mset xs"
proof (induction lt r xs rule: pass.induct)
  case (1 lt r xs)
  have "mset xs = mset (take r xs) + mset (take r (drop r xs)) + mset (drop (2 * r) xs)"
    by (metis append_take_drop_id drop_drop mset_append mult_2 union_assoc)
  then show ?case using 1 by (subst pass.simps) auto
qed

lemma length_pass [simp]: "length (pass lt r xs) = length xs"
  by (metis mset_pass size_mset)

section \<open>The loops compute the passes\<close>

lemma nat_at: "0 \<le> i \<Longrightarrow> i < int (length xs) \<Longrightarrow> kod_at xs i = Some (xs ! nat i)"
  by (simp add: kod_at_def)

text \<open>The part of an array between two positions.\<close>

definition seg :: "'a list \<Rightarrow> nat \<Rightarrow> nat \<Rightarrow> 'a list" where
  "seg xs i k = take (k - i) (drop i xs)"

lemma seg_Nil: "k \<le> i \<Longrightarrow> seg xs i k = []"
  by (simp add: seg_def)

lemma seg_Cons: "i < k \<Longrightarrow> k \<le> length xs \<Longrightarrow> seg xs i k = xs ! i # seg xs (Suc i) k"
  by (simp add: seg_def take_Cons' Cons_nth_drop_Suc [symmetric] Suc_diff_Suc [symmetric])

lemma merge_loop_run:
  assumes "mid \<le> length cur" and "hi \<le> length cur" and "length cur < 2 ^ 61" and "i \<le> mid" and "j \<le> hi"
  shows "merge_loop lt cur (int mid) (int hi) (int i) (int j) nxt = Some (nxt @ merge lt (seg cur i mid) (seg cur j hi))"
  using assms(4,5)
proof (induction "mid - i + (hi - j)" arbitrary: i j nxt rule: less_induct)
  case less
  have w: "w64 (1 + int k) = int (Suc k)" "w64 (int k + 1) = int (Suc k)" if "k < length cur" for k
    using that assms(3) by (simp_all add: w64_id range_simps)
  note IH = less.hyps [of "Suc i" j] less.hyps [of i "Suc j"]
  consider (stop) "i = mid" "j = hi" | (left) "i < mid" "j = hi" | (right) "i = mid" "j < hi" | (both) "i < mid" "j < hi"
    using less.prems by linarith
  then show ?case
  proof cases
    case stop
    then show ?thesis by (subst merge_loop.simps) (simp add: seg_Nil)
  next
    case left
    then show ?thesis using IH(1) w(2) [of i] assms(1,2) less.prems
      by (subst merge_loop.simps) (simp add: seg_Nil seg_Cons)
  next
    case right
    then show ?thesis using IH(2) w(2) [of j] assms(1,2) less.prems
      by (subst merge_loop.simps) (simp add: seg_Nil seg_Cons)
  next
    case both
    then show ?thesis using IH w(2) [of i] w(2) [of j] assms(1,2) less.prems
      by (subst merge_loop.simps) (simp add: seg_Cons)
  qed
qed

lemma pass_loop_run:
  assumes "length cur < 2 ^ 61" and "0 < r" and "r < length cur" and "lo \<le> length cur"
  shows "pass_loop lt cur (int (length cur)) (int r) (int lo) nxt = Some (nxt @ pass lt r (drop lo cur))"
  using assms(4)
proof (induction "length cur - lo" arbitrary: lo nxt rule: less_induct)
  case less
  show ?case
  proof (cases "lo < length cur")
    case True
    define mid hi where "mid = min (lo + r) (length cur)" and "hi = min (lo + r + r) (length cur)"
    have w: "smaller (w64 (int lo + int r)) (int (length cur)) = int mid"
      "smaller (w64 (w64 (int lo + int r) + int r)) (int (length cur)) = int hi"
      using True assms(1,3) by (simp_all add: w64_id range_simps smaller_def mid_def hi_def min_def)
    have s: "seg cur lo mid = take r (drop lo cur)" "seg cur mid hi = take r (drop r (drop lo cur))"
      using True by (auto simp: seg_def mid_def hi_def min_def ac_simps)
    have "hi = min (2 * r + lo) (length cur)" by (simp add: hi_def)
    then have d: "drop hi cur = drop (2 * r) (drop lo cur)" by (simp add: min_def)
    have m: "merge_loop lt cur (int mid) (int hi) (int lo) (int mid) nxt =
        Some (nxt @ merge lt (take r (drop lo cur)) (take r (drop r (drop lo cur))))"
      using merge_loop_run [of mid cur hi lo mid lt nxt] assms(1) True s by (simp add: mid_def hi_def)
    have p: "pass lt r (drop lo cur) = merge lt (take r (drop lo cur)) (take r (drop r (drop lo cur))) @ pass lt r (drop hi cur)"
      using True assms(2) unfolding d by (subst pass.simps) simp
    have "length cur - hi < length cur - lo" "hi \<le> length cur" using True assms(2) by (auto simp: hi_def)
    from less.hyps [OF this] show ?thesis
      using True m w p by (subst pass_loop.simps) simp
  qed (use less.prems in \<open>simp add: pass_loop.simps pass.simps\<close>)
qed

text \<open>The whole sort as passes over lists.\<close>

function passes :: "('a \<Rightarrow> 'a \<Rightarrow> bool) \<Rightarrow> nat \<Rightarrow> 'a list \<Rightarrow> 'a list" where
  "passes lt r xs = (if 0 < r \<and> r < length xs then passes lt (2 * r) (pass lt r xs) else xs)"
  by pat_completeness auto

termination
  by (relation "measure (\<lambda>(lt, r, xs). length xs - r)") auto

declare passes.simps [simp del]

lemma sort_loop_run:
  assumes "length cur < 2 ^ 61" and "0 < r"
  shows "sort_loop lt (int (length cur)) (int r) cur = Some (passes lt r cur)"
  using assms
proof (induction lt r cur rule: passes.induct)
  case (1 lt r cur)
  show ?case
  proof (cases "r < length cur")
    case True
    have "w64 (int r + int r) = int (2 * r)" using True 1(2) by (simp add: w64_id range_simps)
    then show ?thesis
      using 1 True pass_loop_run [of cur r 0 lt "[]"] by (subst sort_loop.simps, subst passes.simps) simp
  qed (simp add: sort_loop.simps passes.simps)
qed

section \<open>Order\<close>

text \<open>
  What a comparison has to be for sorting to make sense: asymmetric, and an element between two others is
  on one side of them. \<open>same\<close> is the tie.
\<close>

definition weak_order :: "('a \<Rightarrow> 'a \<Rightarrow> bool) \<Rightarrow> bool" where
  "weak_order lt \<longleftrightarrow> (\<forall>x y. lt x y \<longrightarrow> \<not> lt y x) \<and> (\<forall>x y z. lt x z \<longrightarrow> lt x y \<or> lt y z)"

definition in_order :: "('a \<Rightarrow> 'a \<Rightarrow> bool) \<Rightarrow> 'a list \<Rightarrow> bool" where
  "in_order lt xs \<longleftrightarrow> sorted_wrt (\<lambda>x y. \<not> lt y x) xs"

definition ties :: "('a \<Rightarrow> 'a \<Rightarrow> bool) \<Rightarrow> 'a \<Rightarrow> 'a list \<Rightarrow> 'a list" where
  "ties lt x ys = filter (\<lambda>y. \<not> lt x y \<and> \<not> lt y x) ys"

lemma in_order_merge:
  "weak_order lt \<Longrightarrow> in_order lt xs \<Longrightarrow> in_order lt ys \<Longrightarrow> in_order lt (merge lt xs ys)"
proof (induction lt xs ys rule: merge.induct)
  case (3 lt x xs y ys)
  have tr: "\<not> lt b a \<Longrightarrow> \<not> lt c b \<Longrightarrow> \<not> lt c a" for a b c
    using 3(3) unfolding weak_order_def by blast
  have as: "lt y x \<Longrightarrow> \<not> lt x y" using 3(3) unfolding weak_order_def by blast
  show ?case
  proof (cases "lt y x")
    case True
    then have "in_order lt (merge lt (x # xs) ys)" using 3 by (simp add: in_order_def)
    moreover have "\<forall>z \<in> set (x # xs) \<union> set ys. \<not> lt z y" using 3(4,5) as [OF True] tr by (auto simp: in_order_def)
    ultimately show ?thesis using True by (simp add: in_order_def)
  next
    case False
    then have "in_order lt (merge lt xs (y # ys))" using 3 by (simp add: in_order_def)
    moreover have "\<forall>z \<in> set xs \<union> set (y # ys). \<not> lt z x" using 3(4,5) False tr by (auto simp: in_order_def)
    ultimately show ?thesis using False by (simp add: in_order_def)
  qed
qed auto

lemma ties_merge:
  "weak_order lt \<Longrightarrow> in_order lt xs \<Longrightarrow> in_order lt ys \<Longrightarrow> ties lt z (merge lt xs ys) = ties lt z xs @ ties lt z ys"
proof (induction lt xs ys rule: merge.induct)
  case (3 lt x xs y ys)
  show ?case
  proof (cases "lt y x")
    case True
    have "ties lt z (x # xs) = []" if "\<not> lt z y" "\<not> lt y z"
    proof -
      have "lt z x'" if x': "x' \<in> set (x # xs)" for x'
      proof -
        have "\<not> lt x' x" using x' 3(3,4) by (auto simp: in_order_def weak_order_def)
        then have "lt y x'" using True 3(3) unfolding weak_order_def by blast
        then show ?thesis using \<open>\<not> lt y z\<close> 3(3) unfolding weak_order_def by blast
      qed
      then show ?thesis by (auto simp: ties_def filter_empty_conv)
    qed
    then show ?thesis using True 3 by (auto simp: ties_def in_order_def)
  next
    case False
    then show ?thesis using 3 by (auto simp: ties_def in_order_def)
  qed
qed (auto simp: ties_def)

lemma ties_append: "ties lt z (xs @ ys) = ties lt z xs @ ties lt z ys"
  by (simp add: ties_def)

text \<open>Runs of \<open>r\<close> elements that are in order; a pass doubles them.\<close>

function runs :: "('a \<Rightarrow> 'a \<Rightarrow> bool) \<Rightarrow> nat \<Rightarrow> 'a list \<Rightarrow> bool" where
  "runs lt r xs = (if r = 0 \<or> xs = [] then True else in_order lt (take r xs) \<and> runs lt r (drop r xs))"
  by pat_completeness auto

termination
  by (relation "measure (\<lambda>(lt, r, xs). length xs)") auto

declare runs.simps [simp del]

lemma runs_two:
  assumes "runs lt r xs" and "0 < r"
  shows "in_order lt (take r xs)" "in_order lt (take r (drop r xs))" "runs lt r (drop (2 * r) xs)"
proof -
  have n: "runs lt r []" "in_order lt []" by (simp_all add: runs.simps in_order_def)
  have s: "runs lt r ys \<Longrightarrow> in_order lt (take r ys) \<and> runs lt r (drop r ys)" for ys
    by (cases "ys = []") (use n assms(2) in \<open>simp_all add: runs.simps [of lt r ys]\<close>)
  from s [OF assms(1)] s [of "drop r xs"] show "in_order lt (take r xs)" "in_order lt (take r (drop r xs))" "runs lt r (drop (2 * r) xs)"
    by (auto simp: mult_2)
qed

lemma pass_spec:
  "weak_order lt \<Longrightarrow> 0 < r \<Longrightarrow> runs lt r xs \<Longrightarrow> runs lt (2 * r) (pass lt r xs) \<and> ties lt z (pass lt r xs) = ties lt z xs"
proof (induction lt r xs rule: pass.induct)
  case (1 lt r xs)
  show ?case
  proof (cases "xs = []")
    case False
    let ?a = "take r xs" and ?b = "take r (drop r xs)" and ?c = "drop (2 * r) xs"
    note two = runs_two [OF 1(4,3)]
    have p: "pass lt r xs = merge lt ?a ?b @ pass lt r ?c" using False 1(3) by (subst pass.simps) simp
    have ih: "runs lt (2 * r) (pass lt r ?c)" "ties lt z (pass lt r ?c) = ties lt z ?c" using 1(1) False 1(2,3) two(3) by auto
    have x: "xs = ?a @ ?b @ ?c" by (metis append_take_drop_id drop_drop mult_2)
    have "take (2 * r) (pass lt r xs) = merge lt ?a ?b \<and> drop (2 * r) (pass lt r xs) = pass lt r ?c"
    proof (cases "2 * r \<le> length xs")
      case True
      then show ?thesis unfolding p by simp
    next
      case False
      then have "pass lt r ?c = []" by (simp add: pass.simps)
      then show ?thesis unfolding p using False by simp
    qed
    moreover have "in_order lt (merge lt ?a ?b)" using in_order_merge 1(2) two by blast
    ultimately have "runs lt (2 * r) (pass lt r xs)" using ih(1) by (subst runs.simps) simp
    moreover have "ties lt z (pass lt r xs) = ties lt z xs"
      unfolding p using ties_merge [OF 1(2) two(1,2)] ih(2) arg_cong [OF x, of "ties lt z"] by (simp only: ties_append append_assoc)
    ultimately show ?thesis ..
  qed (simp add: pass.simps runs.simps)
qed

lemma passes_spec:
  "weak_order lt \<Longrightarrow> 0 < r \<Longrightarrow> runs lt r xs \<Longrightarrow>
   in_order lt (passes lt r xs) \<and> ties lt z (passes lt r xs) = ties lt z xs"
proof (induction lt r xs rule: passes.induct)
  case (1 lt r xs)
  show ?case
  proof (cases "r < length xs")
    case True
    then show ?thesis using 1 pass_spec [of lt r xs z] by (subst (1 2) passes.simps) auto
  next
    case False
    then have "take r xs = xs" by simp
    then show ?thesis using runs_two(1) [OF 1(4,3)] False by (simp add: passes.simps)
  qed
qed

lemma mset_passes: "mset (passes lt r xs) = mset xs"
  by (induction lt r xs rule: passes.induct) (subst passes.simps, simp add: mset_pass)

lemma runs_one: "runs lt 1 xs"
  by (induction xs) (auto simp: runs.simps in_order_def)

section \<open>Properties\<close>

text \<open>
  C28. \<open>sorted_by\<close> returns for every comparison, without an index out of bounds, and always a permutation
  of its argument. For a comparison that is a strict weak order the result is in order and the sort is
  stable: elements that tie with any given one keep the order they had.
\<close>

theorem sorted_by_correct:
  assumes "length xs < 2 ^ 61"
  shows "\<exists>ys. sorted_by lt xs = Some ys \<and> mset ys = mset xs \<and>
    (weak_order lt \<longrightarrow> in_order lt ys \<and> (\<forall>z. ties lt z ys = ties lt z xs))"
proof -
  have "sorted_by lt xs = Some (passes lt 1 xs)"
    using sort_loop_run [of xs 1 lt] assms by (simp add: sorted_by_def)
  then show ?thesis using passes_spec [OF _ _ runs_one] mset_passes by (metis zero_less_one)
qed

theorem sorted_by_correct_witness:
  "\<exists>ys. sorted_by (\<lambda>a b. fst a < fst b) [(3 :: nat, 0 :: nat), (1, 1), (3, 2), (2, 3), (1, 4)] = Some ys \<and>
    in_order (\<lambda>a b. fst a < fst b) ys \<and> filter (\<lambda>y. fst y = 1) ys = [(1, 1), (1, 4)]"
proof -
  let ?lt = "\<lambda>a b. fst a < (fst b :: nat)" and ?xs = "[(3 :: nat, 0 :: nat), (1, 1), (3, 2), (2, 3), (1, 4)]"
  have "weak_order ?lt" by (auto simp: weak_order_def)
  then obtain ys where ys: "sorted_by ?lt ?xs = Some ys" "in_order ?lt ys" "ties ?lt (1, 0) ys = ties ?lt (1, 0) ?xs"
    using sorted_by_correct [of ?xs ?lt] by auto
  moreover have "(\<lambda>y. \<not> fst (1 :: nat, 0 :: nat) < fst y \<and> \<not> fst y < fst (1 :: nat, 0 :: nat)) = (\<lambda>y :: nat \<times> nat. fst y = 1)" by auto
  ultimately show ?thesis by (simp add: ties_def)
qed

end
