(* ===== verification/Kod_Crc32.thy ===== *)
theory Kod_Crc32
  imports Kod_Lang
begin

unbundle bit_operations_syntax

text \<open>
  \<open>src/stdlib/hash/crc32.kod\<close>: the table-driven CRC-32. An \<open>int64\<close> is a 64-bit word here; \<open>>>\<close> is the logical
  shift. The reference is the shift register of the standard, which takes the message bit by bit.
\<close>

section \<open>Definitions\<close>

definition poly :: "64 word" where
  "poly = 0xEDB88320"

fun table_loop :: "nat \<Rightarrow> 64 word \<Rightarrow> 64 word" where
  "table_loop 0 c = c"
| "table_loop (Suc k) c = table_loop k (if c AND 1 \<noteq> 0 then drop_bit 1 c XOR poly else drop_bit 1 c)"

definition make_table :: "64 word list" where
  "make_table = map (\<lambda>i. table_loop 8 (of_nat i)) [0..<256]"

record Crc32 =
  crc_state :: "64 word"
  crc_table :: "64 word list"

definition make_crc32 :: Crc32 where
  "make_crc32 = \<lparr>crc_state = 0xFFFFFFFF, crc_table = make_table\<rparr>"

definition crc_update :: "64 word \<Rightarrow> Crc32 \<Rightarrow> Crc32 option" where
  "crc_update b c = do {
     e \<leftarrow> kod_at (crc_table c) (sint ((crc_state c XOR b) AND 0xff));
     Some (c\<lparr>crc_state := drop_bit 8 (crc_state c) XOR e\<rparr>)
   }"

fun crc_update_bytes :: "byte list \<Rightarrow> Crc32 \<Rightarrow> Crc32 option" where
  "crc_update_bytes [] c = Some c"
| "crc_update_bytes (b # bs) c = do { c \<leftarrow> crc_update (ucast b) c; crc_update_bytes bs c }"

definition crc_final :: "Crc32 \<Rightarrow> 64 word" where
  "crc_final c = crc_state c XOR 0xFFFFFFFF"

definition crc32_compute :: "byte list \<Rightarrow> 64 word option" where
  "crc32_compute data = do { c \<leftarrow> crc_update_bytes data make_crc32; Some (crc_final c) }"

section \<open>The shift register\<close>

definition shift :: "64 word \<Rightarrow> 64 word" where
  "shift c = drop_bit 1 c XOR (if odd c then poly else 0)"

definition feed_bit :: "bool \<Rightarrow> 64 word \<Rightarrow> 64 word" where
  "feed_bit b c = drop_bit 1 c XOR (if odd c \<noteq> b then poly else 0)"

definition byte_bits :: "byte \<Rightarrow> bool list" where
  "byte_bits b = map (bit b) [0..<8]"

definition crc32_reference :: "byte list \<Rightarrow> 64 word" where
  "crc32_reference data = fold feed_bit (concat (map byte_bits data)) 0xFFFFFFFF XOR 0xFFFFFFFF"

lemma table_loop_shift: "table_loop k c = (shift ^^ k) c"
proof (induction k arbitrary: c)
  case (Suc k)
  have "(if c AND 1 \<noteq> 0 then drop_bit 1 c XOR poly else drop_bit 1 c) = shift c"
    by (simp add: shift_def and_one_eq odd_iff_mod_2_eq_one even_iff_mod_2_eq_zero)
  then show ?case by (simp add: Suc funpow_swap1)
qed simp

lemma shift_xor: "shift (a XOR b) = shift a XOR shift b"
  by (auto simp: shift_def bit_eq_iff bit_simps even_xor_iff simp del: bit_0)

lemma shifts_xor: "(shift ^^ k) (a XOR b) = (shift ^^ k) a XOR (shift ^^ k) b"
  by (induction k) (simp_all add: shift_xor)

lemma shifts_low_zero: "\<forall>i < k. \<not> bit x i \<Longrightarrow> (shift ^^ k) x = drop_bit k x"
proof (induction k arbitrary: x)
  case (Suc k)
  have "even x" using Suc.prems by (metis bit_0 zero_less_Suc)
  then have s: "shift x = drop_bit 1 x" by (simp add: shift_def)
  have "\<forall>i < k. \<not> bit (drop_bit 1 x) i" using Suc.prems by (auto simp: bit_drop_bit_eq)
  from Suc.IH [OF this] show ?case by (simp only: funpow_Suc_right o_apply s) (simp add: add.commute)
qed simp

text \<open>The identity behind the table: eight shifts are one lookup.\<close>

lemma eight_shifts: "(shift ^^ 8) c = drop_bit 8 c XOR (shift ^^ 8) (c AND 255)"
proof -
  have m: "bit (255 :: 64 word) n \<longleftrightarrow> n < 8" for n
    using bit_mask_iff [of 8 n, where 'a = "64 word"] by (auto simp: mask_eq_exp_minus_1)
  define hi where "hi = c AND NOT 255"
  have c: "c = hi XOR (c AND 255)" by (rule bit_eqI) (auto simp: hi_def bit_simps)
  have "(shift ^^ 8) hi = drop_bit 8 hi" by (rule shifts_low_zero) (unfold hi_def bit_and_iff bit_not_iff m, simp)
  also have "\<dots> = drop_bit 8 c"
    by (rule bit_eqI) (unfold hi_def bit_drop_bit_eq o_def bit_and_iff bit_not_iff m, auto dest: bit_imp_le_length)
  finally show ?thesis using shifts_xor [of 8 hi "c AND 255"] c by simp
qed

text \<open>Feeding bits is shifting them in.\<close>

fun bits_val :: "bool list \<Rightarrow> 64 word" where
  "bits_val [] = 0"
| "bits_val (b # bs) = of_bool b XOR push_bit 1 (bits_val bs)"

lemma bit_double: "bit (push_bit 1 (c :: 64 word)) n \<longleftrightarrow> 0 < n \<and> n < 64 \<and> bit c (n - 1)"
  unfolding bit_push_bit_iff by auto

lemma bit_bits_val: "length bs \<le> 64 \<Longrightarrow> bit (bits_val bs) n \<longleftrightarrow> n < length bs \<and> bs ! n"
proof (induction bs arbitrary: n)
  case (Cons b bs)
  have "bit (bits_val (b # bs)) n \<longleftrightarrow> (b \<and> n = 0) \<noteq> (0 < n \<and> n < 64 \<and> bit (bits_val bs) (n - 1))"
    unfolding bits_val.simps bit_xor_iff bit_double by (auto simp: bit_of_bool_iff)
  moreover have "bit (bits_val bs) (n - 1) \<longleftrightarrow> n - 1 < length bs \<and> bs ! (n - 1)" using Cons by simp
  ultimately show ?case using Cons.prems by (cases n) (auto simp del: bit_0)
qed simp

lemma feed_bits: "length bs \<le> 63 \<Longrightarrow> fold feed_bit bs c = (shift ^^ length bs) (c XOR bits_val bs)"
proof (induction bs arbitrary: c)
  case (Cons b bs)
  have f: "feed_bit b c = shift (c XOR of_bool b)"
    by (rule bit_eqI) (auto simp: feed_bit_def shift_def bit_simps even_xor_iff simp del: bit_0)
  have "drop_bit 1 (push_bit 1 (bits_val bs)) = bits_val bs"
    using Cons.prems unfolding bit_eq_iff bit_drop_bit_eq o_def bit_double by (auto simp: bit_bits_val)
  then have v: "shift (push_bit 1 (bits_val bs)) = bits_val bs" by (simp add: shift_def)
  have "fold feed_bit (b # bs) c = (shift ^^ length bs) (shift (c XOR of_bool b) XOR bits_val bs)" using Cons f by simp
  also have "shift (c XOR of_bool b) XOR bits_val bs = shift (c XOR bits_val (b # bs))"
    unfolding bits_val.simps xor.assoc [symmetric] by (subst (2) shift_xor) (simp only: v)
  finally show ?case by (simp add: funpow_swap1)
qed simp

lemma bits_val_byte: "bits_val (byte_bits b) = ucast b"
proof (rule bit_eqI)
  fix n
  have "bit b n \<Longrightarrow> n < 8" using bit_imp_le_length [of b n] by simp
  then show "bit (bits_val (byte_bits b)) n \<longleftrightarrow> bit (ucast b :: 64 word) n"
    by (auto simp: bit_bits_val byte_bits_def bit_ucast_iff)
qed

section \<open>The table computes the register\<close>

lemma table_entry:
  "kod_at make_table (sint (c AND (0xff :: 64 word))) = Some ((shift ^^ 8) (c AND 0xff))"
proof -
  define n where "n = unat (c AND 0xff)"
  have "c AND 0xff \<le> 0xff" by (rule word_and_le1)
  then have n: "n < 256" "c AND 0xff = of_nat n" by (simp_all add: n_def word_le_nat_alt)
  have "sint (of_nat n :: 64 word) = int n" using n(1) by (simp add: signed_of_nat signed_take_bit_int_eq_self)
  then show ?thesis unfolding n(2) using n(1) by (simp add: make_table_def table_loop_shift)
qed

lemma crc_update_spec:
  "crc_table c = make_table \<Longrightarrow> crc_update (ucast b) c = Some (c\<lparr>crc_state := fold feed_bit (byte_bits b) (crc_state c)\<rparr>)"
proof -
  assume t: "crc_table c = make_table"
  let ?x = "crc_state c XOR ucast b"
  have "drop_bit 8 (crc_state c) = drop_bit 8 ?x"
    by (rule bit_eqI) (auto simp: bit_simps dest: bit_imp_le_length)
  then have "drop_bit 8 (crc_state c) XOR (shift ^^ 8) (?x AND 0xff) = (shift ^^ 8) ?x" using eight_shifts [of ?x] by simp
  also have "\<dots> = fold feed_bit (byte_bits b) (crc_state c)"
    using feed_bits [of "byte_bits b" "crc_state c"] bits_val_byte [of b] by (simp add: byte_bits_def)
  finally show ?thesis by (simp add: crc_update_def t table_entry)
qed

lemma crc_update_bytes_spec:
  "crc_table c = make_table \<Longrightarrow> crc_update_bytes data c =
    Some (c\<lparr>crc_state := fold feed_bit (concat (map byte_bits data)) (crc_state c)\<rparr>)"
  by (induction data arbitrary: c) (simp_all add: crc_update_spec)

section \<open>What the code detects\<close>

text \<open>On 32 bits the register loses nothing: its top bit says whether the polynomial went in.\<close>

definition bits32 :: "64 word \<Rightarrow> bool" where
  "bits32 c \<longleftrightarrow> take_bit 32 c = c"

lemma bits32_iff: "bits32 c \<longleftrightarrow> (\<forall>n \<ge> 32. \<not> bit c n)"
  unfolding bits32_def bit_eq_iff bit_take_bit_iff by (meson bit_imp_possible_bit not_less)

lemma xor_cancel: "c XOR a = c XOR (b :: 64 word) \<longleftrightarrow> a = b" "a XOR c = b XOR c \<longleftrightarrow> a = b"
  by (auto simp: bit_eq_iff bit_xor_iff)

lemma poly_bits: "bit poly 31" "bits32 poly"
  by (simp add: poly_def bit_numeral_rec) (simp add: bits32_def poly_def take_bit_eq_mod)

lemma shift_bits32: "bits32 c \<Longrightarrow> bits32 (shift c)"
  using poly_bits(2) by (auto simp: bits32_iff shift_def bit_xor_iff bit_drop_bit_eq)

lemma shift_inj: "bits32 a \<Longrightarrow> bits32 b \<Longrightarrow> shift a = shift b \<Longrightarrow> a = b"
proof -
  assume b: "bits32 a" "bits32 b" and e: "shift a = shift b"
  have top: "bit (shift c) 31 \<longleftrightarrow> odd c" if "bits32 c" for c
    using that poly_bits(1) unfolding bits32_iff shift_def bit_xor_iff bit_drop_bit_eq o_def by simp
  have o: "odd a = odd b" using top [OF b(1)] top [OF b(2)] unfolding e by (rule trans [OF sym])
  have "drop_bit 1 a = drop_bit 1 b" using e unfolding shift_def o by (simp only: xor_cancel)
  then have "bit (drop_bit 1 a) n \<longleftrightarrow> bit (drop_bit 1 b) n" for n by simp
  then have "bit a (Suc n) \<longleftrightarrow> bit b (Suc n)" for n unfolding bit_drop_bit_eq o_def by simp
  moreover have "bit a 0 \<longleftrightarrow> bit b 0" unfolding bit_0 by (rule o)
  ultimately have "bit a n \<longleftrightarrow> bit b n" for n by (cases n) (simp_all del: bit_0)
  then show ?thesis by (intro bit_eqI)
qed

lemma shifts_inj: "bits32 a \<Longrightarrow> bits32 b \<Longrightarrow> (shift ^^ k) a = (shift ^^ k) b \<Longrightarrow> a = b"
proof (induction k arbitrary: a b)
  case (Suc k)
  have "(shift ^^ k) (shift a) = (shift ^^ k) (shift b)" using Suc.prems(3) by (simp only: funpow_Suc_right o_apply)
  then have "shift a = shift b" by (rule Suc.IH [OF shift_bits32 [OF Suc.prems(1)] shift_bits32 [OF Suc.prems(2)]])
  with Suc.prems(1,2) show ?case by (rule shift_inj)
qed simp

lemma bits32_xor: "bits32 a \<Longrightarrow> bits32 b \<Longrightarrow> bits32 (a XOR b)"
  by (simp add: bits32_iff bit_xor_iff)

lemma feed_bit_shift: "feed_bit b c = shift (c XOR of_bool b)"
  by (rule bit_eqI) (auto simp: feed_bit_def shift_def bit_simps even_xor_iff simp del: bit_0)

lemma bits32_of_bool: "bits32 (of_bool b)"
  by (cases b) (simp_all add: bits32_iff bit_1_iff)

lemma feed_bits32: "bits32 c \<Longrightarrow> bits32 (fold feed_bit bs c)"
  by (induction bs arbitrary: c) (simp_all add: feed_bit_shift shift_bits32 bits32_xor bits32_of_bool)

text \<open>Up to 32 message bits leave different registers when they differ, and equal bits keep them different.\<close>

lemma feed_burst:
  assumes "length u = length v" and "length u \<le> 32" and "u \<noteq> v" and "bits32 c"
  shows "fold feed_bit u c \<noteq> fold feed_bit v c"
proof
  assume e: "fold feed_bit u c = fold feed_bit v c"
  have s: "bits32 (bits_val w)" if "length w \<le> 32" for w using that by (simp add: bits32_iff bit_bits_val)
  have h: "(shift ^^ length u) (c XOR bits_val u) = (shift ^^ length u) (c XOR bits_val v)"
    using e assms(1,2) feed_bits [of u c] feed_bits [of v c] by simp
  have "bits32 (c XOR bits_val u)" "bits32 (c XOR bits_val v)"
    by (rule bits32_xor [OF assms(4) s], use assms(1,2) in simp)+
  then have "c XOR bits_val u = c XOR bits_val v" by (rule shifts_inj [OF _ _ h])
  then have "bits_val u = bits_val v" by (simp only: xor_cancel)
  then have "bit (bits_val u) i \<longleftrightarrow> bit (bits_val v) i" for i by (rule arg_cong)
  then have "u ! i \<longleftrightarrow> v ! i" if "i < length u" for i
    using that assms(1,2) bit_bits_val [of u i] bit_bits_val [of v i] by simp
  with assms(1,3) show False using nth_equalityI [of u v] by auto
qed

lemma feed_keeps:
  "bits32 a \<Longrightarrow> bits32 b \<Longrightarrow> a \<noteq> b \<Longrightarrow> fold feed_bit bs a \<noteq> fold feed_bit bs b"
proof (induction bs arbitrary: a b)
  case (Cons x bs)
  have "feed_bit x a \<noteq> feed_bit x b"
    using shift_inj [OF bits32_xor [OF Cons.prems(1) bits32_of_bool] bits32_xor [OF Cons.prems(2) bits32_of_bool], of x x]
      Cons.prems(3) by (auto simp: feed_bit_shift xor_cancel)
  then show ?case using Cons.IH [of "feed_bit x a" "feed_bit x b"] Cons.prems feed_bits32 [of _ "[x]"] by simp
qed simp

lemma byte_bits_inj: "byte_bits x = byte_bits y \<Longrightarrow> x = y"
proof (rule bit_eqI)
  fix n assume e: "byte_bits x = byte_bits y" and "possible_bit TYPE(byte) n"
  then have "byte_bits x ! n \<longleftrightarrow> byte_bits y ! n" "n < 8" by simp_all
  then show "bit x n \<longleftrightarrow> bit y n" by (simp add: byte_bits_def)
qed

lemma bytes_bits_inj: "length u = length v \<Longrightarrow> concat (map byte_bits u) = concat (map byte_bits v) \<Longrightarrow> u = v"
proof (induction u v rule: list_induct2)
  case (Cons x xs y ys)
  then have "byte_bits x = byte_bits y" "concat (map byte_bits xs) = concat (map byte_bits ys)" by (simp_all add: byte_bits_def)
  then show ?case using Cons.IH byte_bits_inj by simp
qed simp

lemma bytes_bits_length: "length (concat (map byte_bits u)) = 8 * length u"
  by (induction u) (simp_all add: byte_bits_def)

lemma crc32_compute_reference: "crc32_compute data = Some (crc32_reference data)"
  by (simp add: crc32_compute_def make_crc32_def crc_update_bytes_spec crc_final_def crc32_reference_def)

text \<open>
  C29. The table-driven CRC-32 of \<open>crc32.compute\<close> never panics and is the shift register of IEEE 802.3 fed with the
  message bit by bit; feeding the message in two calls of \<open>update_bytes\<close> gives the same; and the checksum of a
  message differs from that of every message in which a burst of at most four bytes is changed.
\<close>

theorem crc32_correct:
  "crc32_compute data = Some (crc32_reference data)
   \<and> (do { c \<leftarrow> crc_update_bytes pre make_crc32; c \<leftarrow> crc_update_bytes post c; Some (crc_final c) }) = crc32_compute (pre @ post)
   \<and> (length u = length v \<and> length u \<le> 4 \<and> u \<noteq> v \<longrightarrow> crc32_compute (pre @ u @ post) \<noteq> crc32_compute (pre @ v @ post))"
proof (intro conjI impI)
  show "crc32_compute data = Some (crc32_reference data)" by (rule crc32_compute_reference)
  show "(do { c \<leftarrow> crc_update_bytes pre make_crc32; c \<leftarrow> crc_update_bytes post c; Some (crc_final c) }) = crc32_compute (pre @ post)"
    by (simp add: crc32_compute_def make_crc32_def crc_update_bytes_spec)
  assume a: "length u = length v \<and> length u \<le> 4 \<and> u \<noteq> v"
  let ?b = "\<lambda>d. concat (map byte_bits d)" and ?c = "fold feed_bit (concat (map byte_bits pre)) 0xFFFFFFFF"
  have c: "bits32 ?c" by (rule feed_bits32) (simp add: bits32_def take_bit_eq_mod)
  then have "fold feed_bit (?b u) ?c \<noteq> fold feed_bit (?b v) ?c"
    using a bytes_bits_inj by (intro feed_burst) (auto simp: bytes_bits_length)
  then have "fold feed_bit (?b post) (fold feed_bit (?b u) ?c) \<noteq> fold feed_bit (?b post) (fold feed_bit (?b v) ?c)"
    by (rule feed_keeps [OF feed_bits32 [OF c] feed_bits32 [OF c]])
  then show "crc32_compute (pre @ u @ post) \<noteq> crc32_compute (pre @ v @ post)"
    unfolding crc32_compute_reference crc32_reference_def by (simp add: xor_cancel)
qed

theorem crc32_correct_witness:
  "crc32_compute [0x6b, 0x6f, 0x64] = Some (crc32_reference [0x6b, 0x6f, 0x64])
   \<and> crc32_compute [1, 2, 3] \<noteq> crc32_compute [1, 4, 3]"
  using crc32_correct [of "[0x6b, 0x6f, 0x64]" "[1]" "[3]" "[2]" "[4]"] by simp

end
