(* ===== verification/Kod_Base64.thy ===== *)
theory Kod_Base64
  imports Kod_Lang
begin

unbundle bit_operations_syntax

text \<open>
  \<open>src/stdlib/encoding/base64.kod\<close>: RFC 4648 base64 in the standard and the URL-safe alphabet. An \<open>int64\<close> on which the
  code works bitwise is a 64-bit word, one that it compares is an \<open>int\<close>. A string builder is the list of the
  bytes appended to it (\<open>Kod_StrBuilder\<close>); \<open>append_byte\<close> takes the low eight bits. A loop over the groups
  of a buffer is a recursion on the rest of the buffer.
\<close>

section \<open>Definitions\<close>

definition alphabet :: "bool \<Rightarrow> byte list" where
  "alphabet url = (if url
     then bytes_of ''ABCDEFGHIJKLMNOPQRSTUVWXYZabcdefghijklmnopqrstuvwxyz0123456789-_''
     else bytes_of ''ABCDEFGHIJKLMNOPQRSTUVWXYZabcdefghijklmnopqrstuvwxyz0123456789+/'')"

definition char_at :: "byte list \<Rightarrow> 64 word \<Rightarrow> byte option" where
  "char_at table w = kod_at table (sint w)"

definition append_byte :: "byte list \<Rightarrow> 64 word \<Rightarrow> byte list" where
  "append_byte out w = out @ [ucast w]"

fun encode_loop :: "byte list \<Rightarrow> byte list \<Rightarrow> byte list \<Rightarrow> (byte list \<times> byte list) option" where
  "encode_loop table (a # b # c # rest) out = (let word = push_bit 16 (ucast a) OR push_bit 8 (ucast b) OR ucast c in do {
     p \<leftarrow> char_at table (drop_bit 18 word AND 63);
     q \<leftarrow> char_at table (drop_bit 12 word AND 63);
     r \<leftarrow> char_at table (drop_bit 6 word AND 63);
     s \<leftarrow> char_at table (word AND 63);
     encode_loop table rest (out @ [p, q, r, s])
   })"
| "encode_loop table data out = Some (out, data)"

definition encode_rest :: "byte list \<Rightarrow> bool \<Rightarrow> byte list \<Rightarrow> byte list \<Rightarrow> byte list option" where
  "encode_rest table pad out rest = (case rest of
       [a] \<Rightarrow> (let word = push_bit 16 (ucast a) in do {
         p \<leftarrow> char_at table (drop_bit 18 word AND 63);
         q \<leftarrow> char_at table (drop_bit 12 word AND 63);
         Some (out @ [p, q] @ (if pad then bytes_of ''=='' else []))
       })
     | [a, b] \<Rightarrow> (let word = push_bit 16 (ucast a) OR push_bit 8 (ucast b) in do {
         p \<leftarrow> char_at table (drop_bit 18 word AND 63);
         q \<leftarrow> char_at table (drop_bit 12 word AND 63);
         r \<leftarrow> char_at table (drop_bit 6 word AND 63);
         Some (out @ [p, q, r] @ (if pad then bytes_of ''='' else []))
       })
     | _ \<Rightarrow> Some out)"

definition encode :: "byte list \<Rightarrow> bool \<Rightarrow> bool \<Rightarrow> byte list option" where
  "encode data url pad = do {
     (out, rest) \<leftarrow> encode_loop (alphabet url) data [];
     encode_rest (alphabet url) pad out rest
   }"

datatype base64_error = TooMuchPadding int | SingleLeftOver int | WrongPadding int | Unexpected int | UnusedBits int

definition sextet :: "int \<Rightarrow> bool \<Rightarrow> int" where
  "sextet c url =
     (if 65 \<le> c \<and> c \<le> 90 then c - 65
      else if 97 \<le> c \<and> c \<le> 122 then c - 71
      else if 48 \<le> c \<and> c \<le> 57 then c + 4
      else if url then (if c = 45 then 62 else if c = 95 then 63 else - 1)
      else (if c = 43 then 62 else if c = 47 then 63 else - 1))"

text \<open>The inner loop over the characters of a group, from offset \<open>i\<close>.\<close>

fun group_loop :: "bool \<Rightarrow> int \<Rightarrow> byte list \<Rightarrow> 64 word \<Rightarrow> base64_error + 64 word" where
  "group_loop url i [] word = Inr word"
| "group_loop url i (c # cs) word = (let v = sextet (uint c) url in
     if v < 0 then Inl (Unexpected i)
     else group_loop url (i + 1) cs (push_bit 6 word OR word_of_int v))"

fun decode_loop :: "bool \<Rightarrow> int \<Rightarrow> byte list \<Rightarrow> byte list \<Rightarrow> base64_error + (int \<times> byte list \<times> byte list)" where
  "decode_loop url i (a # b # c # d # rest) out =
     (case group_loop url i [a, b, c, d] 0 of
        Inl e \<Rightarrow> Inl e
      | Inr word \<Rightarrow> decode_loop url (i + 4) rest
          (append_byte (append_byte (append_byte out (drop_bit 16 word)) (drop_bit 8 word AND 255)) (word AND 255)))"
| "decode_loop url i text out = Inr (i, text, out)"

text \<open>What is left after the loop is \<open>rem\<close> characters; the offsets are those of \<open>text[i]\<close> and its successors.\<close>

definition decode_tail :: "bool \<Rightarrow> int \<Rightarrow> byte list \<Rightarrow> byte list \<Rightarrow> base64_error + byte list" where
  "decode_tail url i text out = (case text of
       a # c # rest \<Rightarrow>
         (let a = sextet (uint a) url; c = sextet (uint c) url in
          if a < 0 then Inl (Unexpected i)
          else if c < 0 then Inl (Unexpected (i + 1))
          else (case rest of
              [] \<Rightarrow> if word_of_int c AND (15 :: 64 word) \<noteq> 0 then Inl (UnusedBits (i + 1))
                else Inr (append_byte out (push_bit 2 (word_of_int a) OR drop_bit 4 (word_of_int c)))
            | d # _ \<Rightarrow>
                (let d = sextet (uint d) url in
                 if d < 0 then Inl (Unexpected (i + 2))
                 else if word_of_int d AND (3 :: 64 word) \<noteq> 0 then Inl (UnusedBits (i + 2))
                 else Inr (append_byte (append_byte out (push_bit 2 (word_of_int a) OR drop_bit 4 (word_of_int c)))
                        (push_bit 4 (word_of_int c AND 15) OR drop_bit 2 (word_of_int d))))))
     | _ \<Rightarrow> Inr out)"

fun body_loop :: "byte list \<Rightarrow> nat \<Rightarrow> nat" where
  "body_loop text 0 = 0"
| "body_loop text (Suc body) = (if text ! body = 61 then body_loop text body else Suc body)"

definition decode :: "byte list \<Rightarrow> bool \<Rightarrow> base64_error + byte list" where
  "decode text url =
     (let n = length text; body = body_loop text n; padding = n - body; rem = body mod 4 in
      if 2 < padding then Inl (TooMuchPadding (int body))
      else if rem = 1 then Inl (SingleLeftOver (int body - 1))
      else if 0 < padding \<and> (body + padding) mod 4 \<noteq> 0 then Inl (WrongPadding (int body))
      else case decode_loop url 0 (take body text) [] of
          Inl e \<Rightarrow> Inl e
        | Inr (i, rest, out) \<Rightarrow> decode_tail url i rest out)"

section \<open>The alphabet\<close>

definition b64_char :: "bool \<Rightarrow> 64 word \<Rightarrow> byte" where
  "b64_char url v = alphabet url ! unat v"

lemma alphabet_length: "length (alphabet url) = 64"
  by (simp add: alphabet_def bytes_of_def)

lemma alphabet_values: "list_all (\<lambda>v. sextet (uint (alphabet url ! v)) url = int v) [0..<64]"
  by (cases url; simp add: alphabet_def bytes_of_def of_char_def sextet_def upt_rec; fail)

lemma sextet_inj: "sextet c url = sextet d url \<Longrightarrow> 0 \<le> sextet c url \<Longrightarrow> c = d"
  by (auto simp: sextet_def split: if_splits)

lemma sextet_less: "sextet c url < 64"
  by (auto simp: sextet_def)

lemma six_bits: "take_bit 6 v = v \<longleftrightarrow> unat (v :: 64 word) < 64"
proof -
  have "unat (take_bit 6 v) = unat v mod 64" unfolding unsigned_take_bit_eq by (simp add: take_bit_eq_mod)
  then show ?thesis by (metis mod_less mod_less_divisor word_unat_eq_iff zero_less_numeral)
qed

lemma sextet_char: "take_bit 6 v = v \<Longrightarrow> sextet (uint (b64_char url v)) url = uint v"
  using alphabet_values [of url] by (simp add: list_all_iff b64_char_def six_bits)

lemma char_sextet: "0 \<le> sextet (uint c) url \<Longrightarrow> b64_char url (word_of_int (sextet (uint c) url)) = c"
proof -
  let ?v = "sextet (uint c) url"
  assume v: "0 \<le> ?v"
  have u: "uint (word_of_int ?v :: 64 word) = ?v" using v sextet_less [of "uint c" url] by (simp add: uint_word_of_int)
  have "take_bit 6 (word_of_int ?v :: 64 word) = word_of_int ?v" using u v sextet_less [of "uint c" url] by (simp add: six_bits unat_eq_nat_uint)
  then have "sextet (uint (b64_char url (word_of_int ?v))) url = ?v" using sextet_char u by simp
  then have "uint c = uint (b64_char url (word_of_int ?v))" by (intro sextet_inj [OF _ v]) (rule sym)
  then show ?thesis by (simp add: word_uint_eq_iff)
qed

lemma sextet_six_bits: "0 \<le> sextet c url \<Longrightarrow> take_bit 6 (word_of_int (sextet c url) :: 64 word) = word_of_int (sextet c url)"
  using sextet_less [of c url] by (simp add: six_bits unat_eq_nat_uint uint_word_of_int)

lemma char_at_char: "char_at (alphabet url) (w AND 63) = Some (b64_char url (take_bit 6 w))"
proof -
  define n where "n = unat (take_bit 6 w)"
  have m: "w AND 63 = take_bit 6 w" by (simp add: take_bit_eq_mask mask_numeral)
  have n: "n < 64" "take_bit 6 w = of_nat n" using six_bits [of "take_bit 6 w"] by (simp_all add: n_def)
  have "sint (of_nat n :: 64 word) = int n" using n(1) by (simp add: signed_of_nat signed_take_bit_int_eq_self)
  moreover have "unat (of_nat n :: 64 word) = n" using n(1) by (simp add: unsigned_of_nat take_bit_nat_eq_self)
  ultimately show ?thesis using n(1) unfolding m n(2) by (simp add: char_at_def b64_char_def alphabet_length)
qed

lemma char_not_pad: "take_bit 6 v = v \<Longrightarrow> b64_char url v \<noteq> 61"
proof
  assume "take_bit 6 v = v" "b64_char url v = 61"
  then have "uint v = sextet 61 url" using sextet_char [of v url] by simp
  then have "uint v = - 1" by (simp add: sextet_def)
  then show False using uint_ge_0 [of v] by linarith
qed

section \<open>Groups of bits\<close>

lemma and_masks: "w AND 63 = take_bit 6 (w :: 64 word)" "w AND 255 = take_bit 8 w" "w AND 15 = take_bit 4 w" "w AND 3 = take_bit 2 w"
  by (simp_all add: take_bit_eq_mask mask_numeral)

lemma byte_high: "8 \<le> n \<Longrightarrow> \<not> bit (a :: byte) n"
  using bit_imp_le_length [of a n] by auto

lemma eq64_by_bits: "list_all (\<lambda>n. bit x n = bit y n) [0..<64] \<Longrightarrow> (x :: 64 word) = y"
  by (rule bit_eqI) (simp add: list_all_iff)

lemma eq8_by_bits: "list_all (\<lambda>n. bit x n = bit y n) [0..<8] \<Longrightarrow> (x :: byte) = y"
  by (rule bit_eqI) (simp add: list_all_iff)

lemmas group_bits = upt_rec bit_take_bit_iff bit_drop_bit_eq bit_or_iff bit_push_bit_iff bit_ucast_iff byte_high o_def

definition word3 :: "byte \<Rightarrow> byte \<Rightarrow> byte \<Rightarrow> 64 word" where
  "word3 a b c = push_bit 16 (ucast a) OR push_bit 8 (ucast b) OR ucast c"

definition word4 :: "64 word \<Rightarrow> 64 word \<Rightarrow> 64 word \<Rightarrow> 64 word \<Rightarrow> 64 word" where
  "word4 p q r s = push_bit 6 (push_bit 6 (push_bit 6 p OR q) OR r) OR s"

lemma word4_of_word3:
  "word4 (take_bit 6 (drop_bit 18 (word3 a b c))) (take_bit 6 (drop_bit 12 (word3 a b c)))
    (take_bit 6 (drop_bit 6 (word3 a b c))) (take_bit 6 (word3 a b c)) = word3 a b c"
  by (rule eq64_by_bits) (simp add: word3_def word4_def group_bits del: bit_0, simp add: eval_nat_numeral del: bit_0)

lemma bytes_of_word3:
  "ucast (drop_bit 16 (word3 a b c)) = a" "ucast (take_bit 8 (drop_bit 8 (word3 a b c))) = b" "ucast (take_bit 8 (word3 a b c)) = c"
  by ((rule eq8_by_bits, simp add: word3_def group_bits del: bit_0, (simp add: eval_nat_numeral del: bit_0)?); fail)+

lemma word3_of_word4:
  fixes p q r s :: "64 word"
  assumes "take_bit 6 p = p" and "take_bit 6 q = q" and "take_bit 6 r = r" and "take_bit 6 s = s"
  defines "w \<equiv> word4 p q r s"
  shows "word3 (ucast (drop_bit 16 w)) (ucast (take_bit 8 (drop_bit 8 w))) (ucast (take_bit 8 w)) = w"
    and "take_bit 6 (drop_bit 18 w) = p" and "take_bit 6 (drop_bit 12 w) = q"
    and "take_bit 6 (drop_bit 6 w) = r" and "take_bit 6 w = s"
proof -
  have w: "w = word4 (take_bit 6 p) (take_bit 6 q) (take_bit 6 r) (take_bit 6 s)" using assms by simp
  show "word3 (ucast (drop_bit 16 w)) (ucast (take_bit 8 (drop_bit 8 w))) (ucast (take_bit 8 w)) = w"
    unfolding w by (rule eq64_by_bits) (simp add: word3_def word4_def group_bits del: bit_0, (simp add: eval_nat_numeral del: bit_0)?)
  have "take_bit 6 (drop_bit 18 w) = take_bit 6 p"
    unfolding w by (rule eq64_by_bits) (simp add: word4_def group_bits del: bit_0, (simp add: eval_nat_numeral del: bit_0)?)
  then show "take_bit 6 (drop_bit 18 w) = p" using assms(1) by simp
  have "take_bit 6 (drop_bit 12 w) = take_bit 6 q"
    unfolding w by (rule eq64_by_bits) (simp add: word4_def group_bits del: bit_0, (simp add: eval_nat_numeral del: bit_0)?)
  then show "take_bit 6 (drop_bit 12 w) = q" using assms(2) by simp
  have "take_bit 6 (drop_bit 6 w) = take_bit 6 r"
    unfolding w by (rule eq64_by_bits) (simp add: word4_def group_bits del: bit_0, (simp add: eval_nat_numeral del: bit_0)?)
  then show "take_bit 6 (drop_bit 6 w) = r" using assms(3) by simp
  have "take_bit 6 w = take_bit 6 s"
    unfolding w by (rule eq64_by_bits) (simp add: word4_def group_bits del: bit_0, (simp add: eval_nat_numeral del: bit_0)?)
  then show "take_bit 6 w = s" using assms(4) by simp
qed

text \<open>The last one or two bytes, whose spare bits are zero.\<close>

lemma zero_low: "take_bit 6 q = q \<Longrightarrow> take_bit k q = 0 \<Longrightarrow> q = push_bit k (take_bit (6 - k) (drop_bit k (q :: 64 word)))"
proof (rule bit_eqI)
  fix n assume q: "take_bit 6 q = q" and z: "take_bit k q = 0" and "possible_bit TYPE(64 word) n"
  then have n: "n < 64" by simp
  have "bit q n \<Longrightarrow> n < 6" using q by (metis bit_take_bit_iff)
  moreover have "bit q n \<Longrightarrow> k \<le> n" using z by (metis bit_0_eq bit_take_bit_iff bot_apply bot_bool_def not_less)
  ultimately show "bit q n \<longleftrightarrow> bit (push_bit k (take_bit (6 - k) (drop_bit k q))) n"
    using n unfolding bit_push_bit_iff bit_take_bit_iff bit_drop_bit_eq o_def by auto
qed

lemma tail1_bits:
  fixes p q :: "64 word"
  assumes "take_bit 6 p = p" and "take_bit 6 q = q" and "take_bit 4 q = 0"
  defines "w \<equiv> word3 (ucast (push_bit 2 p OR drop_bit 4 q)) 0 0"
  shows "take_bit 6 (drop_bit 18 w) = p" and "take_bit 6 (drop_bit 12 w) = q"
proof -
  obtain r where q: "q = push_bit 4 (take_bit 2 r)" using zero_low [OF assms(2,3)] by auto
  have "take_bit 6 (drop_bit 18 w) = take_bit 6 p" unfolding w_def q
    by (rule eq64_by_bits) (simp add: word3_def group_bits del: bit_0, (simp add: eval_nat_numeral del: bit_0)?)
  then show "take_bit 6 (drop_bit 18 w) = p" using assms(1) by simp
  show "take_bit 6 (drop_bit 12 w) = q" unfolding w_def q
    by (rule eq64_by_bits) (simp add: word3_def group_bits del: bit_0, (simp add: eval_nat_numeral del: bit_0)?)
qed

lemma tail2_bits:
  fixes p q r :: "64 word"
  assumes "take_bit 6 p = p" and "take_bit 6 q = q" and "take_bit 6 r = r" and "take_bit 2 r = 0"
  defines "w \<equiv> word3 (ucast (push_bit 2 p OR drop_bit 4 q)) (ucast (push_bit 4 (take_bit 4 q) OR drop_bit 2 r)) 0"
  shows "take_bit 6 (drop_bit 18 w) = p" and "take_bit 6 (drop_bit 12 w) = q" and "take_bit 6 (drop_bit 6 w) = r"
proof -
  obtain t where r: "r = push_bit 2 (take_bit 4 t)" using zero_low [OF assms(3,4)] by auto
  obtain s where q: "q = take_bit 6 s" using assms(2) by metis
  have "take_bit 6 (drop_bit 18 w) = take_bit 6 p" unfolding w_def r q
    by (rule eq64_by_bits) (simp add: word3_def group_bits del: bit_0, (simp add: eval_nat_numeral del: bit_0)?)
  then show "take_bit 6 (drop_bit 18 w) = p" using assms(1) by simp
  have "take_bit 6 (drop_bit 12 w) = take_bit 6 q" unfolding w_def r
    by (rule eq64_by_bits) (simp add: word3_def group_bits del: bit_0, (simp add: eval_nat_numeral del: bit_0)?)
  then show "take_bit 6 (drop_bit 12 w) = q" using assms(2) by simp
  show "take_bit 6 (drop_bit 6 w) = r" unfolding w_def r
    by (rule eq64_by_bits) (simp add: word3_def group_bits del: bit_0, (simp add: eval_nat_numeral del: bit_0)?)
qed

lemma tail_bytes:
  defines "p a b \<equiv> take_bit 6 (drop_bit 18 (word3 a b 0))"
    and "q a b \<equiv> take_bit 6 (drop_bit 12 (word3 a b 0))"
    and "r a b \<equiv> take_bit 6 (drop_bit 6 (word3 a b 0))"
  shows "take_bit 4 (q a 0) = 0" and "take_bit 2 (r a b) = 0"
    and "ucast (push_bit 2 (p a b) OR drop_bit 4 (q a b)) = a"
    and "ucast (push_bit 4 (take_bit 4 (q a b)) OR drop_bit 2 (r a b)) = b"
  unfolding p_def q_def r_def
  by ((rule eq64_by_bits eq8_by_bits, simp add: word3_def group_bits del: bit_0, (simp add: eval_nat_numeral del: bit_0)?); fail)+

section \<open>Encoding\<close>

definition b64_at :: "bool \<Rightarrow> nat \<Rightarrow> 64 word \<Rightarrow> byte" where
  "b64_at url k w = b64_char url (take_bit 6 (drop_bit k w))"

fun b64_core :: "bool \<Rightarrow> byte list \<Rightarrow> byte list" where
  "b64_core url [] = []"
| "b64_core url [a] = [b64_at url 18 (word3 a 0 0), b64_at url 12 (word3 a 0 0)]"
| "b64_core url [a, b] = [b64_at url 18 (word3 a b 0), b64_at url 12 (word3 a b 0), b64_at url 6 (word3 a b 0)]"
| "b64_core url (a # b # c # rest) = [b64_at url 18 (word3 a b c), b64_at url 12 (word3 a b c), b64_at url 6 (word3 a b c),
     b64_at url 0 (word3 a b c)] @ b64_core url rest"

definition b64_pad :: "nat \<Rightarrow> byte list" where
  "b64_pad n = replicate ((3 - n mod 3) mod 3) 61"

lemma encode_from:
  "(do { (out, rest) \<leftarrow> encode_loop (alphabet url) data out; encode_rest (alphabet url) pad out rest })
     = Some (out @ b64_core url data @ (if pad then b64_pad (length data) else []))"
proof (induction "alphabet url" data out rule: encode_loop.induct)
  case (1 a b c rest out)
  have "b64_pad (length (a # b # c # rest)) = b64_pad (length rest)" by (simp add: b64_pad_def)
  with 1 show ?case by (simp add: Let_def char_at_char b64_at_def word3_def [symmetric])
qed (simp_all add: encode_rest_def Let_def char_at_char b64_at_def word3_def b64_pad_def bytes_of_def of_char_def numeral_2_eq_2)

lemma encode_core: "encode data url pad = Some (b64_core url data @ (if pad then b64_pad (length data) else []))"
  using encode_from [of url data "[]" pad] by (simp add: encode_def)

lemma three_dvd: "3 dvd Suc (Suc (Suc n)) \<longleftrightarrow> 3 dvd n" "\<not> 3 dvd Suc (Suc 0)"
  by presburger+

lemma core_append: "3 dvd length ds \<Longrightarrow> b64_core url (ds @ es) = b64_core url ds @ b64_core url es"
  by (induction url ds rule: b64_core.induct) (auto simp: three_dvd)

lemma core_length: "length (b64_core url ds) = 4 * (length ds div 3) + (if length ds mod 3 = 0 then 0 else length ds mod 3 + 1)"
  by (induction url ds rule: b64_core.induct) (simp_all add: div_add_self1)

lemma core_no_pad: "c \<in> set (b64_core url ds) \<Longrightarrow> c \<noteq> 61"
  by (induction url ds rule: b64_core.induct) (auto simp: b64_at_def char_not_pad)

section \<open>Decoding\<close>

lemma sextet_at: "sextet (uint (b64_at url k w)) url = uint (take_bit 6 (drop_bit k w))"
  by (simp add: b64_at_def sextet_char)

lemma group_loop_iff:
  "group_loop url i [a, b, c, d] 0 = Inr w \<longleftrightarrow>
     0 \<le> sextet (uint a) url \<and> 0 \<le> sextet (uint b) url \<and> 0 \<le> sextet (uint c) url \<and> 0 \<le> sextet (uint d) url \<and>
     w = word4 (word_of_int (sextet (uint a) url)) (word_of_int (sextet (uint b) url))
       (word_of_int (sextet (uint c) url)) (word_of_int (sextet (uint d) url))"
  by (auto simp: Let_def word4_def)

lemma group_of_core:
  "group_loop url i [b64_at url 18 (word3 a b c), b64_at url 12 (word3 a b c), b64_at url 6 (word3 a b c), b64_at url 0 (word3 a b c)] 0
     = Inr (word3 a b c)"
  using word4_of_word3 [of a b c] by (simp add: group_loop_iff sextet_at del: group_loop.simps)

lemma decode_core_loop:
  "3 dvd length ds \<Longrightarrow> length rest < 4 \<Longrightarrow>
   decode_loop url i (b64_core url ds @ rest) out = Inr (i + int (length (b64_core url ds)), rest, out @ ds)"
proof (induction url ds arbitrary: i out rule: b64_core.induct)
  case (1 url)
  then show ?case by (cases "(url, i, rest, out)" rule: decode_loop.cases) auto
next
  case (4 url a b c ds)
  then show ?case
    by (simp add: group_of_core append_byte_def and_masks bytes_of_word3 three_dvd del: group_loop.simps)
qed (simp_all add: three_dvd)

lemma char_at_sextet: "0 \<le> sextet (uint a) url \<Longrightarrow> take_bit 6 (drop_bit k w) = word_of_int (sextet (uint a) url) \<Longrightarrow> b64_at url k w = a"
  by (simp add: b64_at_def char_sextet)

lemma core_of_group:
  assumes "group_loop url i [a, b, c, d] 0 = Inr w"
  shows "b64_core url [ucast (drop_bit 16 w), ucast (take_bit 8 (drop_bit 8 w)), ucast (take_bit 8 w)] = [a, b, c, d]"
proof -
  note g = assms [unfolded group_loop_iff]
  then have s: "take_bit 6 (word_of_int (sextet (uint x) url) :: 64 word) = word_of_int (sextet (uint x) url)" if "x \<in> {a, b, c, d}" for x
    using that sextet_six_bits by auto
  have w: "w = word4 (word_of_int (sextet (uint a) url)) (word_of_int (sextet (uint b) url))
    (word_of_int (sextet (uint c) url)) (word_of_int (sextet (uint d) url))" using g by simp
  note f = word3_of_word4 [OF s s s s, of a b c d, folded w]
  show ?thesis using f g by (simp add: char_at_sextet)
qed

lemma decode_loop_core:
  "decode_loop url i t out = Inr (i', rest, out') \<Longrightarrow>
   length rest < 4 \<and> (\<exists>ds. 3 dvd length ds \<and> t = b64_core url ds @ rest \<and> out' = out @ ds)"
proof (induction url i t out rule: decode_loop.induct)
  case (1 url i a b c d t out)
  then obtain w where w: "group_loop url i [a, b, c, d] 0 = Inr w" by (auto split: sum.splits simp del: group_loop.simps)
  let ?g = "[ucast (drop_bit 16 w), ucast (take_bit 8 (drop_bit 8 w)), ucast (take_bit 8 w)]"
  from 1 w obtain ds where ds: "length rest < 4" "3 dvd length ds" "t = b64_core url ds @ rest" "out' = (out @ ?g) @ ds"
    by (auto simp: append_byte_def and_masks simp del: group_loop.simps)
  have "a # b # c # d # t = b64_core url (?g @ ds) @ rest" using core_append [of ?g url ds] core_of_group [OF w] ds(3) by simp
  with ds show ?case by (intro conjI exI [of _ "?g @ ds"]) (simp_all add: three_dvd)
qed auto

lemma decode_tail_core: "length ds < 3 \<Longrightarrow> decode_tail url i (b64_core url ds) out = Inr (out @ ds)"
  by (induction url ds rule: b64_core.induct)
    (simp_all add: decode_tail_def Let_def sextet_at and_masks tail_bytes tail_bytes [simplified] append_byte_def)

lemma core_of_tail:
  assumes "decode_tail url i rest out = Inr out'" and "length rest < 4" and "length rest \<noteq> 1"
  shows "\<exists>ds. length ds < 3 \<and> rest = b64_core url ds \<and> out' = out @ ds"
proof -
  let ?s = "\<lambda>x. word_of_int (sextet (uint x) url) :: 64 word"
  consider "rest = []" | a c where "rest = [a, c]" | a c d where "rest = [a, c, d]"
    using assms(2,3) by (cases "(url, rest)" rule: b64_core.cases) auto
  then show ?thesis
  proof cases
    case 1
    then show ?thesis using assms(1) by (intro exI [of _ "[]"]) (simp add: decode_tail_def)
  next
    case (2 a c)
    then have g: "0 \<le> sextet (uint a) url" "0 \<le> sextet (uint c) url" "take_bit 4 (?s c) = 0"
      "out' = out @ [ucast (push_bit 2 (?s a) OR drop_bit 4 (?s c))]"
      using assms(1) by (auto simp: decode_tail_def Let_def and_masks append_byte_def split: if_splits)
    then show ?thesis using tail1_bits [OF sextet_six_bits sextet_six_bits, of "uint a" url "uint c" url] 2
      by (intro exI [of _ "[ucast (push_bit 2 (?s a) OR drop_bit 4 (?s c))]"]) (simp add: char_at_sextet)
  next
    case (3 a c d)
    let ?g = "[ucast (push_bit 2 (?s a) OR drop_bit 4 (?s c)), ucast (push_bit 4 (take_bit 4 (?s c)) OR drop_bit 2 (?s d))]"
    from 3 have g: "0 \<le> sextet (uint a) url" "0 \<le> sextet (uint c) url" "0 \<le> sextet (uint d) url" "take_bit 2 (?s d) = 0"
      "out' = out @ ?g"
      using assms(1) by (auto simp: decode_tail_def Let_def and_masks append_byte_def split: if_splits)
    then show ?thesis
      using tail2_bits [OF sextet_six_bits sextet_six_bits sextet_six_bits, of "uint a" url "uint c" url "uint d" url] 3
      by (intro exI [of _ ?g]) (simp add: char_at_sextet)
  qed
qed

section \<open>Padding\<close>

lemma body_loop_pads:
  assumes "n \<le> length text"
  shows "body_loop text n \<le> n \<and> (\<forall>i. body_loop text n \<le> i \<and> i < n \<longrightarrow> text ! i = 61)
    \<and> (0 < body_loop text n \<longrightarrow> text ! (body_loop text n - 1) \<noteq> 61)"
  using assms by (induction n) (auto simp: less_Suc_eq)

lemma body_loop_split:
  defines "b text \<equiv> body_loop text (length text)"
  shows "text = take (b text) text @ replicate (length text - b text) 61"
proof (rule nth_equalityI)
  fix i assume i: "i < length text"
  have le: "b text \<le> length text" using body_loop_pads [of "length text" "text"] by (simp add: b_def)
  show "text ! i = (take (b text) text @ replicate (length text - b text) 61) ! i"
    using i le body_loop_pads [of "length text" "text"] by (simp add: nth_append b_def)
qed (use body_loop_pads [of "length text" "text"] in \<open>simp add: b_def\<close>)

lemma body_loop_core:
  assumes "(61 :: byte) \<notin> set t"
  shows "body_loop (t @ replicate p 61) (length (t @ replicate p 61)) = length t"
proof -
  let ?x = "t @ replicate p (61 :: byte)"
  define b where "b = body_loop ?x (length ?x)"
  have b: "\<forall>i. b \<le> i \<and> i < length ?x \<longrightarrow> ?x ! i = 61" "0 < b \<longrightarrow> ?x ! (b - 1) \<noteq> 61" "b \<le> length ?x"
    using body_loop_pads [of "length ?x" ?x] by (simp_all add: b_def)
  have "\<not> b < length t"
  proof
    assume "b < length t"
    then have "t ! b = 61" using b(1) [rule_format, of b] by (simp add: nth_append)
    with assms \<open>b < length t\<close> show False using nth_mem by metis
  qed
  moreover have "\<not> length t < b" 
  proof
    assume "length t < b"
    then have "?x ! (b - 1) = 61" using b(3) by (auto simp: nth_append)
    with b(2) \<open>length t < b\<close> show False by simp
  qed
  ultimately show ?thesis unfolding b_def by linarith
qed

lemma pad_length: "length (b64_core url ds) mod 4 = (if length ds mod 3 = 0 then 0 else length ds mod 3 + 1)"
  unfolding core_length by (simp; presburger)

lemma pad_arith:
  fixes n c p :: nat
  assumes "c mod 4 = (if n mod 3 = 0 then 0 else n mod 3 + 1)"
  shows "c mod 4 \<noteq> 1" and "p \<le> 2 \<Longrightarrow> 0 < p \<Longrightarrow> (c + p) mod 4 = 0 \<longleftrightarrow> p = (3 - n mod 3) mod 3"
proof -
  have n: "n mod 3 = 0 \<or> n mod 3 = 1 \<or> n mod 3 = 2" by linarith
  then show "c mod 4 \<noteq> 1" using assms by auto
  assume "p \<le> 2" "0 < p"
  then have p: "p = 1 \<or> p = 2" by linarith
  have "(c mod 4 + p) mod 4 = 0 \<longleftrightarrow> p = (3 - n mod 3) mod 3"
    unfolding assms using n p by (elim disjE) simp_all
  then show "(c + p) mod 4 = 0 \<longleftrightarrow> p = (3 - n mod 3) mod 3" by (simp only: mod_add_left_eq)
qed

lemma decode_encoded:
  "p = 0 \<or> replicate p 61 = b64_pad (length ds) \<Longrightarrow> decode (b64_core url ds @ replicate p 61) url = Inr ds"
proof -
  assume p: "p = 0 \<or> replicate p 61 = b64_pad (length ds)"
  let ?n = "length ds - length ds mod 3"
  have n: "p = 0 \<or> p = (3 - length ds mod 3) mod 3" using p by (metis b64_pad_def length_replicate)
  define xs ys where "xs = take ?n ds" and "ys = drop ?n ds"
  have ds: "ds = xs @ ys" "3 dvd length xs" "length ys < 3"
    by (simp_all add: xs_def ys_def minus_mod_eq_mult_div)
  have c: "b64_core url ds = b64_core url xs @ b64_core url ys" using ds core_append by simp
  have y: "length (b64_core url ys) < 4" using core_length [of url ys] ds(3) by simp
  have b: "body_loop (b64_core url ds @ replicate p 61) (length (b64_core url ds @ replicate p 61)) = length (b64_core url ds)"
    using core_no_pad by (intro body_loop_core) blast
  have p2: "p \<le> 2" using n by linarith
  have q: "length (b64_core url ds) mod 4 \<noteq> 1" "0 < p \<Longrightarrow> (length (b64_core url ds) + p) mod 4 = 0"
    using n pad_arith(1) [OF pad_length [of url ds]] pad_arith(2) [OF pad_length [of url ds] p2] by auto
  have "(case decode_loop url 0 (b64_core url ds) [] of Inl e \<Rightarrow> Inl e | Inr (i, rest, out) \<Rightarrow> decode_tail url i rest out) = Inr ds"
    unfolding c decode_core_loop [OF ds(2) y] by (simp add: decode_tail_core [OF ds(3)] ds(1) [symmetric])
  then show ?thesis unfolding decode_def Let_def b using p2 q by (cases "p = 0") simp_all
qed

lemma decode_only_encoded:
  assumes "decode text url = Inr bs"
  shows "\<exists>pad. encode bs url pad = Some text"
proof -
  define b p t where "b = body_loop text (length text)" and "p = length text - b" and "t = take b text"
  have x: "text = t @ replicate p 61" using body_loop_split [of "text"] by (simp add: b_def p_def t_def)
  have le: "b \<le> length text" using body_loop_pads [of "length text" "text"] by (simp add: b_def)
  have g: "p \<le> 2" "b mod 4 \<noteq> 1" "0 < p \<Longrightarrow> (b + p) mod 4 = 0"
    using assms by (auto simp: decode_def Let_def b_def p_def split: if_splits)
  obtain i rest out where d: "decode_loop url 0 t [] = Inr (i, rest, out)" "decode_tail url i rest out = Inr bs"
    using assms by (auto simp: decode_def Let_def b_def [symmetric] t_def [symmetric] split: if_splits sum.splits)
  from decode_loop_core [OF d(1)] obtain ds where ds: "length rest < 4" "3 dvd length ds" "t = b64_core url ds @ rest" "out = ds" by auto
  have "length t = b" using le by (simp add: t_def)
  then have "b mod 4 = length rest mod 4" using ds(2,3) core_length [of url ds] by (auto elim!: dvdE)
  then have "length rest \<noteq> 1" using g(2) by auto
  from core_of_tail [OF d(2) ds(1) this] obtain es where es: "rest = b64_core url es" "bs = ds @ es" using ds(4) by auto
  have t: "t = b64_core url bs" using ds es core_append by simp
  then have "0 < p \<Longrightarrow> p = (3 - length bs mod 3) mod 3"
    using g pad_arith(2) [OF pad_length [of url bs] g(1)] \<open>length t = b\<close> by simp
  then have "encode bs url (0 < p) = Some text" unfolding encode_core x t by (cases "0 < p") (simp_all add: b64_pad_def)
  then show ?thesis by blast
qed

text \<open>
  C30. \<open>base64.encode\<close> never indexes outside its alphabet, and \<open>base64.decode\<close> accepts exactly the encodings: it returns
  the bytes \<open>bs\<close> for a text if and only if the text is what \<open>encode\<close> produces for \<open>bs\<close> in the same alphabet, with or
  without padding. So every encoding decodes to its data, and each non-canonical text (wrong padding, a character of the
  other alphabet, spare bits that are not zero) is an error.
\<close>

theorem base64_decode_exact:
  "encode bs url pad \<noteq> None \<and> (decode text url = Inr bs \<longleftrightarrow> (\<exists>pad. encode bs url pad = Some text))"
proof (intro conjI iffI)
  show "encode bs url pad \<noteq> None" by (simp add: encode_core)
  show "decode text url = Inr bs \<Longrightarrow> \<exists>pad. encode bs url pad = Some text" by (rule decode_only_encoded)
  assume "\<exists>pad. encode bs url pad = Some text"
  then obtain pad where "text = b64_core url bs @ (if pad then b64_pad (length bs) else [])" by (auto simp: encode_core)
  then show "decode text url = Inr bs"
    using decode_encoded [of 0 bs url] decode_encoded [of _ bs url] by (cases pad) (simp_all add: b64_pad_def)
qed

end
