(* ===== verification/Kod_Strings.thy ===== *)
theory Kod_Strings
  imports Kod_Lang Kod_Decimal
begin

text \<open>
  The methods of \<open>str\<close> in \<open>src/stdlib/primitives/str.kod\<close> that search, split and convert, and \<open>to_str\<close> of
  \<open>src/stdlib/primitives/int64.kod\<close>. A string is its bytes; a string builder is the list of the bytes appended
  to it. A counter that runs between 0 and the length of a string is a \<open>nat\<close>; other \<open>int64\<close> values are \<open>int\<close>, with
  the wrap-around where they can leave the range. A Kod optional is an option. Where an index depends on the
  caller or a loop has no visible bound there is another option around the result, whose \<open>None\<close> is a panic or a loop that does not end.
\<close>

section \<open>Definitions\<close>

subsubsection \<open>Searching\<close>

function matches_loop :: "byte list \<Rightarrow> byte list \<Rightarrow> int \<Rightarrow> nat \<Rightarrow> bool option" where
  "matches_loop s needle i j =
     (if j < length needle then do {
        a \<leftarrow> kod_at s (i + int j);
        b \<leftarrow> kod_at needle (int j);
        if a \<noteq> b then Some False else matches_loop s needle i (Suc j)
      } else Some True)"
  by pat_completeness auto

termination by (relation "measure (\<lambda>(s, needle, i, j). length needle - j)") auto

declare matches_loop.simps [simp del]

definition matches_at :: "byte list \<Rightarrow> byte list \<Rightarrow> int \<Rightarrow> bool option" where
  "matches_at s needle i = matches_loop s needle i 0"

definition starts_with :: "byte list \<Rightarrow> byte list \<Rightarrow> bool option" where
  "starts_with s pre = (if length pre > length s then Some False else matches_at s pre 0)"

definition ends_with :: "byte list \<Rightarrow> byte list \<Rightarrow> bool option" where
  "ends_with s suf = (let start = int (length s) - int (length suf) in if start < 0 then Some False else matches_at s suf start)"

function contains_loop :: "byte list \<Rightarrow> byte list \<Rightarrow> nat \<Rightarrow> bool option" where
  "contains_loop s needle i =
     (if int i \<le> int (length s) - int (length needle) then do {
        matched \<leftarrow> matches_loop s needle (int i) 0;
        if matched then Some True else contains_loop s needle (Suc i)
      } else Some False)"
  by pat_completeness auto

termination by (relation "measure (\<lambda>(s, needle, i). Suc (length s) - i)") auto

declare contains_loop.simps [simp del]

definition str_contains :: "byte list \<Rightarrow> byte list \<Rightarrow> bool option" where
  "str_contains s needle =
     (if length needle = 0 then Some True
      else if length needle > length s then Some False
      else contains_loop s needle 0)"

function find_loop :: "byte list \<Rightarrow> byte list \<Rightarrow> nat \<Rightarrow> nat option option" where
  "find_loop s needle i =
     (if int i \<le> int (length s) - int (length needle) then do {
        m \<leftarrow> matches_at s needle (int i);
        if m then Some (Some i) else find_loop s needle (Suc i)
      } else Some None)"
  by pat_completeness auto

termination by (relation "measure (\<lambda>(s, needle, i). Suc (length s) - i)") auto

declare find_loop.simps [simp del]

definition str_find :: "byte list \<Rightarrow> byte list \<Rightarrow> int \<Rightarrow> nat option option" where
  "str_find s needle from =
     (let i = (if from < 0 then 0 else from); i = (if i > int (length s) then int (length s) else i)
      in find_loop s needle (nat i))"

definition strip_prefix :: "byte list \<Rightarrow> byte list \<Rightarrow> byte list option option" where
  "strip_prefix s pre = do {
     m \<leftarrow> starts_with s pre;
     Some (if m then Some (kod_slice s (int (length pre)) (int (length s))) else None)
   }"

definition strip_suffix :: "byte list \<Rightarrow> byte list \<Rightarrow> byte list option option" where
  "strip_suffix s suf = do {
     m \<leftarrow> ends_with s suf;
     Some (if m then Some (kod_slice s 0 (int (length s) - int (length suf))) else None)
   }"

subsection \<open>Splitting, joining, replacing\<close>

partial_function (option) split_loop :: "byte list \<Rightarrow> byte list \<Rightarrow> nat \<Rightarrow> byte list list \<Rightarrow> (nat \<times> byte list list) option" where
  "split_loop s sep start parts = do {
     at \<leftarrow> str_find s sep (int start);
     case at of
       None \<Rightarrow> Some (start, parts)
     | Some i \<Rightarrow> split_loop s sep (i + length sep) (parts @ [kod_slice s (int start) (int i)])
   }"

definition str_split :: "byte list \<Rightarrow> byte list \<Rightarrow> byte list list option" where
  "str_split s sep =
     (if length sep = 0 then Some [s]
      else do {
        (start, parts) \<leftarrow> split_loop s sep 0 [];
        Some (parts @ [kod_slice s (int start) (int (length s))])
      })"

fun join_loop :: "byte list \<Rightarrow> byte list list \<Rightarrow> bool \<Rightarrow> byte list \<Rightarrow> byte list" where
  "join_loop sep [] first sb = sb"
| "join_loop sep (p # ps) first sb = join_loop sep ps False ((if \<not> first then sb @ sep else sb) @ p)"

definition str_join :: "byte list \<Rightarrow> byte list list \<Rightarrow> byte list" where
  "str_join sep parts = join_loop sep parts True []"

fun repeat_loop :: "byte list \<Rightarrow> nat \<Rightarrow> byte list \<Rightarrow> byte list" where
  "repeat_loop s 0 sb = sb"
| "repeat_loop s (Suc k) sb = repeat_loop s k (sb @ s)"

definition str_repeat :: "byte list \<Rightarrow> int \<Rightarrow> byte list" where
  "str_repeat s n = repeat_loop s (nat n) []"

partial_function (option) replace_loop :: "byte list \<Rightarrow> byte list \<Rightarrow> byte list \<Rightarrow> nat \<Rightarrow> byte list \<Rightarrow> (nat \<times> byte list) option" where
  "replace_loop s old to start sb = do {
     at \<leftarrow> str_find s old (int start);
     case at of
       None \<Rightarrow> Some (start, sb)
     | Some i \<Rightarrow> replace_loop s old to (i + length old) (sb @ kod_slice s (int start) (int i) @ to)
   }"

definition str_replace :: "byte list \<Rightarrow> byte list \<Rightarrow> byte list \<Rightarrow> byte list option" where
  "str_replace s old to =
     (if length old = 0 then Some s
      else do {
        (start, sb) \<leftarrow> replace_loop s old to 0 [];
        Some (sb @ kod_slice s (int start) (int (length s)))
      })"

subsection \<open>Space and case\<close>

definition is_space :: "int \<Rightarrow> bool" where
  "is_space b \<longleftrightarrow> b = 32 \<or> b = 9 \<or> b = 10 \<or> b = 13"

function trim_start_loop :: "byte list \<Rightarrow> nat \<Rightarrow> nat" where
  "trim_start_loop s i = (if i < length s \<and> is_space (uint (s ! i)) then trim_start_loop s (Suc i) else i)"
  by pat_completeness auto

termination by (relation "measure (\<lambda>(s, i). length s - i)") auto

declare trim_start_loop.simps [simp del]

definition trim_start :: "byte list \<Rightarrow> byte list" where
  "trim_start s = kod_slice s (int (trim_start_loop s 0)) (int (length s))"

fun trim_end_loop :: "byte list \<Rightarrow> nat \<Rightarrow> nat" where
  "trim_end_loop s 0 = 0"
| "trim_end_loop s (Suc j) = (if is_space (uint (s ! j)) then trim_end_loop s j else Suc j)"

definition trim_end :: "byte list \<Rightarrow> byte list" where
  "trim_end s = kod_slice s 0 (int (trim_end_loop s (length s)))"

definition str_trim :: "byte list \<Rightarrow> byte list" where
  "str_trim s = trim_end (trim_start s)"

definition str_lower :: "byte list \<Rightarrow> byte list" where
  "str_lower s = map (\<lambda>b. if 65 \<le> uint b \<and> uint b \<le> 90 then word_of_int (uint b + 32) else b) s"

definition str_upper :: "byte list \<Rightarrow> byte list" where
  "str_upper s = map (\<lambda>b. if 97 \<le> uint b \<and> uint b \<le> 122 then word_of_int (uint b - 32) else b) s"

section \<open>Numbers\<close>

function to_str_loop :: "int \<Rightarrow> byte list \<Rightarrow> byte list" where
  "to_str_loop n result =
     (if n \<noteq> 0 then
        let d = c_rem n 10; d = (if d < 0 then 0 - d else d)
        in to_str_loop (c_quot n 10) (kod_slice (bytes_of ''0123456789'') d (d + 1) @ result)
      else result)"
  by pat_completeness auto

termination
proof (relation "measure (\<lambda>(n, r). nat \<bar>n\<bar>)")
  fix n :: int assume "n \<noteq> 0"
  then have "\<bar>n\<bar> div 10 < \<bar>n\<bar>" by (intro int_div_less_self) auto
  then show "((c_quot n 10, r), (n, r')) \<in> measure (\<lambda>(n, r). nat \<bar>n\<bar>)" for r r' :: "byte list"
    by (simp add: c_quot_abs_le)
qed simp

declare to_str_loop.simps [simp del]

definition int64_to_str :: "int \<Rightarrow> byte list" where
  "int64_to_str n =
     (if n = 0 then bytes_of ''0''
      else let negative = n < 0; result = to_str_loop n [] in if negative then bytes_of ''-'' @ result else result)"

function parse_loop :: "byte list \<Rightarrow> nat \<Rightarrow> int \<Rightarrow> int option" where
  "parse_loop s i acc =
     (if i < length s then
        let d = uint (s ! i) - 48 in
        if d < 0 \<or> d > 9 then None
        else if acc < - 922337203685477580 then None
        else let acc = w64 (acc * 10) in
          if acc < w64 (INT64_MIN + d) then None
          else parse_loop s (Suc i) (w64 (acc - d))
      else Some acc)"
  by pat_completeness auto

termination by (relation "measure (\<lambda>(s, i, acc). length s - i)") auto

declare parse_loop.simps [simp del]

definition parse_int :: "byte list \<Rightarrow> int option" where
  "parse_int s =
     (let signed = s \<noteq> [] \<and> (s ! 0 = 45 \<or> s ! 0 = 43);
          negative = signed \<and> s ! 0 = 45;
          i = (if signed then 1 else 0)
      in if i = length s then None
         else case parse_loop s i 0 of
             None \<Rightarrow> None
           | Some acc \<Rightarrow> if negative then Some acc
               else if acc = INT64_MIN then None
               else Some (w64 (0 - acc)))"

section \<open>Numbers\<close>

lemma digit_slice: "0 \<le> d \<Longrightarrow> d < 10 \<Longrightarrow> kod_slice (bytes_of ''0123456789'') d (d + 1) = [of_nat (48 + nat d)]"
proof -
  assume "0 \<le> d" "d < 10"
  then have "d \<in> set [0..9]" by simp
  also have "[0..9] = [0, 1, 2, 3, 4, 5, 6, 7, 8, 9 :: int]" by (simp add: upto.simps)
  finally show ?thesis by (auto simp: kod_slice_def bytes_of_def of_char_def)
qed

lemma to_str_loop_pos: "0 < n \<Longrightarrow> to_str_loop n r = dec_nat (nat n) @ r"
proof (induction "nat n" arbitrary: n r rule: less_induct)
  case less
  have m: "c_rem n 10 = n mod 10" "c_quot n 10 = n div 10" using less.prems by (simp_all add: c_rem_nonneg c_quot_nonneg)
  have s: "to_str_loop n r = to_str_loop (n div 10) (of_nat (48 + nat (n mod 10)) # r)"
    using less.prems digit_slice [of "n mod 10"] pos_mod_sign [of 10 n]
    by (subst to_str_loop.simps) (simp add: m Let_def not_less [symmetric] del: pos_mod_sign)
  show ?case
  proof (cases "n < 10")
    case True
    then have "n div 10 = 0" "nat (n mod 10) = nat n" using less.prems by auto
    then show ?thesis using s dec_nat_digit [of "nat n"] True by (simp add: to_str_loop.simps [of 0] del: of_nat_add)
  next
    case False
    then have "to_str_loop (n div 10) (of_nat (48 + nat (n mod 10)) # r) = dec_nat (nat (n div 10)) @ (of_nat (48 + nat (n mod 10)) # r)"
      by (intro less.hyps) auto
    then show ?thesis using s dec_nat_step [of "nat n"] False
      by (simp add: nat_div_distrib nat_mod_distrib del: of_nat_add)
  qed
qed

lemma to_str_loop_neg: "to_str_loop (- n) r = to_str_loop n r"
proof (induction n r rule: to_str_loop.induct)
  case (1 n r)
  have c: "c_rem (- n) 10 = - c_rem n 10" "c_quot (- n) 10 = - c_quot n 10" by (simp_all add: c_rem_neg c_quot_neg)
  have d: "(if c_rem (- n) 10 < 0 then 0 - c_rem (- n) 10 else c_rem (- n) 10) = (if c_rem n 10 < 0 then 0 - c_rem n 10 else c_rem n 10)"
    by (simp add: c)
  show ?case by (subst to_str_loop.simps, subst (2) to_str_loop.simps) (simp add: Let_def d c 1)
qed

lemma int64_to_str_dec: "int64_to_str n = dec_int n"
proof -
  consider "n = 0" | "0 < n" | "n < 0" by linarith
  then show ?thesis
  proof cases
    case 3
    then show ?thesis using to_str_loop_neg [of "- n" "[]"] to_str_loop_pos [of "- n"]
      by (simp add: int64_to_str_def dec_int_def bytes_of_def of_char_def)
  qed (simp_all add: int64_to_str_def dec_int_def to_str_loop_pos dec_nat_digit bytes_of_def of_char_def)
qed

text \<open>Reading on from the value \<open>v\<close>.\<close>

definition dec_on :: "nat \<Rightarrow> byte list \<Rightarrow> nat" where
  "dec_on v ds = v * 10 ^ length ds + dec_val ds"

lemma dec_on_Nil [simp]: "dec_on v [] = v"
  by (simp add: dec_on_def)

lemma dec_on_Cons: "dec_on v (d # ds) = dec_on (10 * v + (unat d - 48)) ds"
  using dec_val_append [of "[d]" ds] by (simp add: dec_on_def dec_val_def algebra_simps)

lemma dec_on_ge: "v \<le> dec_on v ds"
  by (simp add: dec_on_def trans_le_add1)

lemma dec_on_0 [simp]: "dec_on 0 ds = dec_val ds"
  by (simp add: dec_on_def)

lemma digit_range: "is_digit c \<longleftrightarrow> \<not> (uint c - 48 < 0 \<or> uint c - 48 > 9)"
  by (auto simp: is_digit_def word_le_def)

lemma parse_loop_val:
  "v \<le> 2 ^ 63 \<Longrightarrow> parse_loop s i (- int v) =
     (if all_digits (drop i s) \<and> dec_on v (drop i s) \<le> 2 ^ 63 then Some (- int (dec_on v (drop i s))) else None)"
proof (induction "length s - i" arbitrary: i v)
  case 0
  then show ?case by (subst parse_loop.simps) simp
next
  case (Suc k)
  then have i: "i < length s" by simp
  define c where "c = s ! i"
  have ds: "drop i s = c # drop (Suc i) s" using i by (simp add: c_def Cons_nth_drop_Suc)
  show ?case
  proof (cases "is_digit c")
    case False
    then show ?thesis using i ds by (subst parse_loop.simps) (simp add: Let_def c_def [symmetric] digit_range)
  next
    case True
    define d where "d = unat c - 48"
    have r: "48 \<le> uint c" "uint c \<le> 57" using True unfolding digit_range by linarith+
    have n: "int (unat c) = uint c" by simp
    have u: "uint c - 48 = int d" "d < 10" unfolding d_def using r n by linarith+
    have u9: "\<not> 9 < d" using u(2) by simp
    have on: "dec_on v (drop i s) = dec_on (10 * v + d) (drop (Suc i) s)" by (simp add: ds dec_on_Cons d_def)
    have ge: "10 * v + d \<le> dec_on v (drop i s)" unfolding on by (rule dec_on_ge)
    have l: "parse_loop s i (- int v) = (if 922337203685477580 < v \<or> 2 ^ 63 < 10 * v + d then None
        else parse_loop s (Suc i) (- int (10 * v + d)))"
      using i u9 by (subst parse_loop.simps) (auto simp: Let_def c_def [symmetric] u(1) w64_id range_simps mult.commute)
    show ?thesis
    proof (cases "10 * v + d \<le> 2 ^ 63")
      case False
      then show ?thesis using l ge by simp
    next
      case le: True
      then have "parse_loop s i (- int v) = parse_loop s (Suc i) (- int (10 * v + d))" using l by simp
      also have "\<dots> = (if all_digits (drop (Suc i) s) \<and> dec_on (10 * v + d) (drop (Suc i) s) \<le> 2 ^ 63
          then Some (- int (dec_on (10 * v + d) (drop (Suc i) s))) else None)"
        using Suc.hyps(2) le by (intro Suc.hyps(1)) simp_all
      finally show ?thesis unfolding on using True ds by simp
    qed
  qed
qed

lemma dec_nat_head: "is_digit (hd (dec_nat n))"
  using dec_nat_digits [of n] dec_nat_Nil [of n] by (cases "dec_nat n") auto

text \<open>The value of a sign and digits.\<close>

definition int_text :: "byte list \<Rightarrow> int option" where
  "int_text s = (case s of
       [] \<Rightarrow> None
     | c # cs \<Rightarrow> (let (sg, ds) = (if c = 45 then (- 1, cs) else if c = 43 then (1, cs) else (1, s))
         in if ds \<noteq> [] \<and> all_digits ds then Some (sg * int (dec_val ds)) else None))"

lemma parse_int_text: "parse_int s = (case int_text s of Some v \<Rightarrow> if in64 v then Some v else None | None \<Rightarrow> None)"
proof (cases s)
  case Nil
  then show ?thesis by (simp add: parse_int_def int_text_def)
next
  case (Cons c cs)
  have p: "parse_loop s i 0 = (if all_digits (drop i s) \<and> dec_val (drop i s) \<le> 2 ^ 63 then Some (- int (dec_val (drop i s))) else None)" for i
    using parse_loop_val [of 0 s i] by simp
  show ?thesis
  proof (cases "c = 45 \<or> c = 43")
    case True
    then show ?thesis using p [of 1] Cons by (auto simp: parse_int_def int_text_def Let_def w64_id range_simps)
  next
    case False
    then show ?thesis using p [of 0] Cons by (auto simp: parse_int_def int_text_def Let_def w64_id range_simps)
  qed
qed

lemma int_text_dec: "int_text (dec_int v) = Some v"
proof (cases "v < 0")
  case False
  obtain d ds where d: "dec_nat (nat v) = d # ds" using dec_nat_Nil by (cases "dec_nat (nat v)") auto
  then have "is_digit d" using dec_nat_digits [of "nat v"] by simp
  then have "d \<noteq> 45" "d \<noteq> 43" using digit_ne by auto
  then show ?thesis using False d dec_nat_digits [of "nat v"] dec_nat_val [of "nat v"] by (simp add: dec_int_def int_text_def)
qed (simp add: dec_int_def int_text_def)

text \<open>
  C31. \<open>parse_int\<close> returns a number exactly for the texts made of an optional sign and one or more decimal digits whose
  value is an \<open>int64\<close>, and then that value; it is \<open>none\<close> for every other text, also for one just past the range. \<open>to_str\<close>
  writes every \<open>int64\<close>, the smallest one included, as a text that reads back as the same number.
\<close>

theorem parse_int_exact:
  "parse_int s = (case int_text s of Some v \<Rightarrow> if in64 v then Some v else None | None \<Rightarrow> None)
   \<and> int_text (int64_to_str n) = Some n
   \<and> (in64 n \<longrightarrow> parse_int (int64_to_str n) = Some n)"
  by (simp add: parse_int_text int64_to_str_dec int_text_dec)

theorem parse_int_exact_witness:
  "parse_int (int64_to_str (- 9223372036854775808)) = Some (- 9223372036854775808)"
  using parse_int_exact [of "[]" "- 9223372036854775808"] by (simp add: range_simps)

section \<open>Searching\<close>

definition occurs_at :: "byte list \<Rightarrow> byte list \<Rightarrow> nat \<Rightarrow> bool" where
  "occurs_at s needle i \<longleftrightarrow> i + length needle \<le> length s \<and> take (length needle) (drop i s) = needle"

lemma matches_loop_spec:
  "i + length needle \<le> length s \<Longrightarrow> matches_loop s needle (int i) j = Some (\<forall>k. j \<le> k \<and> k < length needle \<longrightarrow> s ! (i + k) = needle ! k)"
proof (induction "length needle - j" arbitrary: j)
  case 0
  then show ?case by (subst matches_loop.simps) auto
next
  case (Suc n)
  then have j: "j < length needle" by simp
  have IH: "matches_loop s needle (int i) (Suc j) = Some (\<forall>k. Suc j \<le> k \<and> k < length needle \<longrightarrow> s ! (i + k) = needle ! k)"
    using Suc by (intro Suc.hyps(1)) simp_all
  have a: "kod_at s (int i + int j) = Some (s ! (i + j))" using j Suc.prems kod_at_nth [of "i + j" s] by simp
  have "(\<forall>k. j \<le> k \<and> k < length needle \<longrightarrow> s ! (i + k) = needle ! k) \<longleftrightarrow>
      s ! (i + j) = needle ! j \<and> (\<forall>k. Suc j \<le> k \<and> k < length needle \<longrightarrow> s ! (i + k) = needle ! k)"
    using j by (metis Suc_le_eq le_eq_less_or_eq)
  then show ?case using j a IH by (subst matches_loop.simps) simp
qed

lemma matches_occurs: "i + length needle \<le> length s \<Longrightarrow> matches_loop s needle (int i) 0 = Some (occurs_at s needle i)"
  by (auto simp: matches_loop_spec occurs_at_def list_eq_iff_nth_eq)

lemma matches_at_occurs: "i + length needle \<le> length s \<Longrightarrow> matches_at s needle (int i) = Some (occurs_at s needle i)"
  by (simp add: matches_at_def matches_occurs)

text \<open>The first occurrence at or after a position.\<close>

definition first_from :: "byte list \<Rightarrow> byte list \<Rightarrow> nat \<Rightarrow> nat option \<Rightarrow> bool" where
  "first_from s needle i r \<longleftrightarrow> (case r of
       None \<Rightarrow> \<forall>k \<ge> i. \<not> occurs_at s needle k
     | Some k \<Rightarrow> i \<le> k \<and> occurs_at s needle k \<and> (\<forall>l. i \<le> l \<and> l < k \<longrightarrow> \<not> occurs_at s needle l))"

lemma find_loop_first: "\<exists>r. find_loop s needle i = Some r \<and> first_from s needle i r"
proof (induction "Suc (length s) - i" arbitrary: i rule: less_induct)
  case less
  show ?case
  proof (cases "i + length needle \<le> length s")
    case False
    then show ?thesis by (subst find_loop.simps) (auto simp: first_from_def occurs_at_def)
  next
    case True
    then have "Suc (length s) - Suc i < Suc (length s) - i" by simp
    from less [OF this] obtain r where r: "find_loop s needle (Suc i) = Some r" "first_from s needle (Suc i) r" by auto
    show ?thesis
    proof (cases "occurs_at s needle i")
      case occ: True
      then show ?thesis using True by (subst find_loop.simps) (auto simp: matches_at_occurs first_from_def)
    next
      case no: False
      then have "first_from s needle i r" using r(2) unfolding first_from_def by (auto split: option.splits) (metis Suc_leI le_neq_implies_less)+
      then show ?thesis using True no r(1) by (subst find_loop.simps) (simp add: matches_at_occurs)
    qed
  qed
qed

lemma contains_loop_occurs: "contains_loop s needle i = Some (\<exists>k \<ge> i. occurs_at s needle k)"
proof (induction "Suc (length s) - i" arbitrary: i rule: less_induct)
  case less
  show ?case
  proof (cases "i + length needle \<le> length s")
    case False
    then show ?thesis by (subst contains_loop.simps) (auto simp: occurs_at_def)
  next
    case True
    then have IH: "contains_loop s needle (Suc i) = Some (\<exists>k \<ge> Suc i. occurs_at s needle k)" using less [of "Suc i"] by auto
    have "(\<exists>k \<ge> i. occurs_at s needle k) \<longleftrightarrow> occurs_at s needle i \<or> (\<exists>k \<ge> Suc i. occurs_at s needle k)"
      by (metis Suc_leD Suc_leI le_neq_implies_less order_refl)
    then show ?thesis using True IH by (subst contains_loop.simps) (simp add: matches_occurs)
  qed
qed

lemma str_find_first: "from \<ge> 0 \<Longrightarrow> from \<le> int (length s) \<Longrightarrow> \<exists>r. str_find s needle from = Some r \<and> first_from s needle (nat from) r"
  using find_loop_first [of s needle "nat from"] by (simp add: str_find_def Let_def)

text \<open>
  The searches agree with occurrence as a substring and never index outside their strings: \<open>find\<close> returns the
  first occurrence at or after the clamped start, or none when there is none, \<open>contains\<close> says whether there is one,
  \<open>starts_with\<close> and \<open>ends_with\<close> whether the string has the prefix or the suffix, and \<open>strip_prefix\<close> and \<open>strip_suffix\<close>
  remove it.
\<close>

theorem searches_correct:
  "(\<exists>r. str_find s needle from = Some r \<and> first_from s needle (min (nat from) (length s)) r)
   \<and> str_contains s needle = Some (\<exists>k. occurs_at s needle k)
   \<and> strip_prefix s needle = Some (if \<exists>t. s = needle @ t then Some (drop (length needle) s) else None)
   \<and> strip_suffix s needle = Some (if \<exists>t. s = t @ needle then Some (take (length s - length needle) s) else None)"
proof (intro conjI)
  show "\<exists>r. str_find s needle from = Some r \<and> first_from s needle (min (nat from) (length s)) r"
    using find_loop_first [of s needle "min (nat from) (length s)"]
    by (cases "from < 0"; cases "from > int (length s)") (simp_all add: str_find_def Let_def min_def nat_le_iff)
  have "occurs_at s needle 0" if "needle = []" using that by (simp add: occurs_at_def)
  then show "str_contains s needle = Some (\<exists>k. occurs_at s needle k)"
    by (auto simp: str_contains_def contains_loop_occurs occurs_at_def)
  have "(\<exists>t. s = needle @ t) \<longleftrightarrow> occurs_at s needle 0"
    by (auto simp: occurs_at_def) (metis append_take_drop_id)
  then show "strip_prefix s needle = Some (if \<exists>t. s = needle @ t then Some (drop (length needle) s) else None)"
    using matches_at_occurs [of 0 needle s] by (auto simp: strip_prefix_def starts_with_def kod_slice_def occurs_at_def)
  have "(\<exists>t. s = t @ needle) \<longleftrightarrow> length needle \<le> length s \<and> occurs_at s needle (length s - length needle)"
    by (auto simp: occurs_at_def) (metis append_take_drop_id)
  then show "strip_suffix s needle = Some (if \<exists>t. s = t @ needle then Some (take (length s - length needle) s) else None)"
    using matches_at_occurs [of "length s - length needle" needle s]
    by (cases "length needle \<le> length s") (auto simp: strip_suffix_def ends_with_def Let_def kod_slice_def of_nat_diff nat_diff_distrib)
qed

section \<open>Splitting\<close>

lemma occurs_drop: "start + k \<le> length s \<Longrightarrow> occurs_at s needle (start + k) \<longleftrightarrow> occurs_at (drop start s) needle k"
  by (auto simp: occurs_at_def add.commute)

lemma occurs_prefix: "k + length needle \<le> length u \<Longrightarrow> occurs_at (u @ v) needle k \<longleftrightarrow> occurs_at u needle k"
  by (auto simp: occurs_at_def)

text \<open>A piece ends at the first occurrence of the separator.\<close>

definition ends_piece :: "byte list \<Rightarrow> byte list \<Rightarrow> bool" where
  "ends_piece sep p \<longleftrightarrow> (\<forall>k < length p. \<not> occurs_at (p @ sep) sep k)"

lemma found_piece:
  assumes "first_from s sep start (Some i)" and "start \<le> length s"
  defines "p \<equiv> kod_slice s (int start) (int i)"
  shows "ends_piece sep p" and "i + length sep \<le> length s" and "drop start s = p @ sep @ drop (i + length sep) s"
proof -
  have f: "start \<le> i" "occurs_at s sep i" "\<forall>l. start \<le> l \<and> l < i \<longrightarrow> \<not> occurs_at s sep l"
    using assms(1) by (auto simp: first_from_def)
  show le: "i + length sep \<le> length s" using f(2) by (simp add: occurs_at_def)
  have p: "p = take (i - start) (drop start s)" by (simp add: p_def kod_slice_def drop_take)
  have sep: "drop i s = sep @ drop (i + length sep) s"
    using f(2) append_take_drop_id [of "length sep" "drop i s"] by (simp add: occurs_at_def add.commute)
  have "drop start s = p @ drop (i - start) (drop start s)" unfolding p by (rule append_take_drop_id [symmetric])
  then show d: "drop start s = p @ sep @ drop (i + length sep) s" using f(1) sep by simp
  have l: "length p = i - start" using le f(1) by (simp add: p)
  show "ends_piece sep p" unfolding ends_piece_def
  proof (intro allI impI)
    fix k assume k: "k < length p"
    then have "\<not> occurs_at s sep (start + k)" using f(3) l by simp
    then have "\<not> occurs_at ((p @ sep) @ drop (i + length sep) s) sep k" using occurs_drop [of start k s sep] k l le d by simp
    then show "\<not> occurs_at (p @ sep) sep k" using k by (subst (asm) occurs_prefix) simp_all
  qed
qed

lemma split_loop_spec:
  assumes "sep \<noteq> []"
  shows "start \<le> length s \<Longrightarrow> \<exists>ps st. split_loop s sep start parts = Some (st, parts @ ps) \<and> replace_loop s sep to start sb = Some (st, sb @ concat (map (\<lambda>p. p @ to) ps))
    \<and> (\<forall>p \<in> set ps. ends_piece sep p) \<and> drop start s = concat (map (\<lambda>p. p @ sep) ps) @ drop st s
    \<and> (\<forall>k. \<not> occurs_at (drop st s) sep k)"
proof (induction "length s - start" arbitrary: start parts sb rule: less_induct)
  case less
  obtain r where r: "str_find s sep (int start) = Some r" "first_from s sep start r" using less.prems str_find_first [of "int start" s sep] by auto
  show ?case
  proof (cases r)
    case None
    have "\<not> occurs_at (drop start s) sep k" for k
    proof
      assume o: "occurs_at (drop start s) sep k"
      then have "start + k \<le> length s" using less.prems by (auto simp: occurs_at_def)
      with o have "occurs_at s sep (start + k)" by (simp add: occurs_drop)
      then show False using r(2) None by (simp add: first_from_def)
    qed
    then show ?thesis using r(1) None by (intro exI [of _ "[]"] exI [of _ start]) (simp add: split_loop.simps replace_loop.simps)
  next
    case (Some i)
    let ?p = "kod_slice s (int start) (int i)"
    note f = found_piece [OF r(2) [unfolded Some] less.prems]
    have "start \<le> i" using r(2) Some by (simp add: first_from_def)
    then have "length s - (i + length sep) < length s - start" using f(2) assms by (cases sep) auto
    from less.hyps [OF this f(2), of "parts @ [?p]" "sb @ ?p @ to"] obtain ps st where
      "split_loop s sep (i + length sep) (parts @ [?p]) = Some (st, (parts @ [?p]) @ ps)"
      "replace_loop s sep to (i + length sep) (sb @ ?p @ to) = Some (st, (sb @ ?p @ to) @ concat (map (\<lambda>p. p @ to) ps))"
      "\<forall>p \<in> set ps. ends_piece sep p" "drop (i + length sep) s = concat (map (\<lambda>p. p @ sep) ps) @ drop st s"
      "\<forall>k. \<not> occurs_at (drop st s) sep k" by blast
    then show ?thesis using f r(1) Some
      by (intro exI [of _ "?p # ps"] exI [of _ st]) (simp add: split_loop.simps [of s sep start] replace_loop.simps [of s sep to start])
  qed
qed

lemma join_loop_on: "join_loop sep ps False sb = sb @ concat (map (\<lambda>p. sep @ p) ps)"
  by (induction ps arbitrary: sb) simp_all

lemma join_pieces: "str_join sep (ps @ [l]) = concat (map (\<lambda>p. p @ sep) ps) @ l"
proof -
  have "sep @ concat (map (\<lambda>p. p @ sep) ps) = concat (map (\<lambda>p. sep @ p) ps) @ sep" by (induction ps) simp_all
  then show ?thesis by (cases ps) (simp_all add: str_join_def join_loop_on)
qed

text \<open>
  C32. \<open>split\<close> returns for every string and every separator that is not empty, with the pieces between its occurrences
  from left to right: joined by the separator they are the string, each piece but the last ends at the first
  occurrence of the separator from its start, and the last contains none. \<open>replace\<close> is the pieces joined by the replacement.
\<close>

theorem split_correct:
  assumes "sep \<noteq> []"
  shows "\<exists>ps l. str_split s sep = Some (ps @ [l]) \<and> str_join sep (ps @ [l]) = s
    \<and> (\<forall>p \<in> set ps. ends_piece sep p) \<and> (\<forall>k. \<not> occurs_at l sep k)
    \<and> str_replace s sep to = Some (str_join to (ps @ [l]))"
proof -
  from split_loop_spec [OF assms, of 0 s "[]" to "[]"] obtain ps st where
    p: "split_loop s sep 0 [] = Some (st, ps)" "replace_loop s sep to 0 [] = Some (st, concat (map (\<lambda>p. p @ to) ps))"
      "\<forall>p \<in> set ps. ends_piece sep p" "s = concat (map (\<lambda>p. p @ sep) ps) @ drop st s" "\<forall>k. \<not> occurs_at (drop st s) sep k" by auto
  have "kod_slice s (int st) (int (length s)) = drop st s" by (simp add: kod_slice_def)
  then show ?thesis using p assms
    by (intro exI [of _ ps] exI [of _ "drop st s"]) (simp add: str_split_def str_replace_def join_pieces)
qed

theorem split_correct_witness:
  "\<exists>ps l. str_split [97, 44, 98, 44] [44] = Some (ps @ [l]) \<and> str_join [44] (ps @ [l]) = [97, 44, 98, 44]"
  using split_correct [of "[44]" "[97, 44, 98, 44]"] by blast

section \<open>Space and case\<close>

abbreviation space_byte :: "byte \<Rightarrow> bool" where
  "space_byte b \<equiv> is_space (uint b)"

lemma repeat_loop_on: "repeat_loop s k sb = sb @ concat (replicate k s)"
  by (induction k arbitrary: sb) simp_all

lemma str_repeat_spec: "str_repeat s n = concat (replicate (nat n) s)"
  by (simp add: str_repeat_def repeat_loop_on)

lemma trim_start_loop_drop: "i \<le> length s \<Longrightarrow> drop (trim_start_loop s i) s = dropWhile space_byte (drop i s)"
proof (induction "length s - i" arbitrary: i)
  case 0
  then show ?case by (subst trim_start_loop.simps) simp
next
  case (Suc n)
  then have i: "i < length s" by simp
  then have d: "drop i s = s ! i # drop (Suc i) s" by (simp add: Cons_nth_drop_Suc)
  have "drop (trim_start_loop s (Suc i)) s = dropWhile space_byte (drop (Suc i) s)" using Suc i by (intro Suc.hyps(1)) simp_all
  then show ?case using i d by (subst trim_start_loop.simps) simp
qed

lemma trim_end_loop_take: "j \<le> length s \<Longrightarrow> take (trim_end_loop s j) s = rev (dropWhile space_byte (rev (take j s)))"
  by (induction j) (simp_all add: take_Suc_conv_app_nth)

lemma str_trim_spec: "str_trim s = rev (dropWhile space_byte (rev (dropWhile space_byte s)))"
  using trim_start_loop_drop [of 0 s] trim_end_loop_take [of "length (trim_start s)" "trim_start s"]
  by (simp add: str_trim_def trim_end_def trim_start_def kod_slice_def)

lemma lower_upper: "str_upper (str_lower s) = str_upper s" "str_lower (str_upper s) = str_lower s"
  by (auto simp: str_lower_def str_upper_def uint_word_ariths)

end
