(* ===== verification/Kod_Utf8.thy ===== *)
theory Kod_Utf8
  imports Kod_Lang
begin

text \<open>
  The code points of a string, of \<open>src/stdlib/primitives/str.kod\<close>: the permissive UTF-8 decoder and the operations that
  count in code points. A string is its bytes; offsets are \<open>nat\<close>. \<open>None\<close> is a panic or a loop that does not end.
\<close>

section \<open>Definitions\<close>

definition byte_at :: "byte list \<Rightarrow> nat \<Rightarrow> int option" where
  "byte_at s i = map_option uint (kod_at s (int i))"

definition utf8_width_at :: "byte list \<Rightarrow> nat \<Rightarrow> nat option" where
  "utf8_width_at s i = do {
     let n = length s;
     b \<leftarrow> byte_at s i;
     if b < 192 then Some 1
     else if b < 224 then
       (if i + 1 < n then do {
          b2 \<leftarrow> byte_at s (i + 1);
          Some (if b2 \<ge> 128 \<and> b2 < 192 then 2 else 1)
        } else Some 1)
     else if b < 240 then
       (if i + 2 < n then do {
          b2 \<leftarrow> byte_at s (i + 1);
          b3 \<leftarrow> byte_at s (i + 2);
          Some (if b2 \<ge> 128 \<and> b2 < 192 \<and> b3 \<ge> 128 \<and> b3 < 192 then 3 else 1)
        } else Some 1)
     else if b < 248 then
       (if i + 3 < n then do {
          b2 \<leftarrow> byte_at s (i + 1);
          b3 \<leftarrow> byte_at s (i + 2);
          b4 \<leftarrow> byte_at s (i + 3);
          Some (if b2 \<ge> 128 \<and> b2 < 192 \<and> b3 \<ge> 128 \<and> b3 < 192 \<and> b4 \<ge> 128 \<and> b4 < 192 then 4 else 1)
        } else Some 1)
     else Some 1
   }"

definition utf8_value_at :: "byte list \<Rightarrow> nat \<Rightarrow> nat \<Rightarrow> int option" where
  "utf8_value_at s i width = do {
     b \<leftarrow> byte_at s i;
     if width = 1 then Some b
     else if width = 2 then do {
       b2 \<leftarrow> byte_at s (i + 1);
       Some ((b - 192) * 64 + (b2 - 128))
     }
     else if width = 3 then do {
       b2 \<leftarrow> byte_at s (i + 1);
       b3 \<leftarrow> byte_at s (i + 2);
       Some ((b - 224) * 4096 + (b2 - 128) * 64 + (b3 - 128))
     }
     else do {
       b2 \<leftarrow> byte_at s (i + 1);
       b3 \<leftarrow> byte_at s (i + 2);
       b4 \<leftarrow> byte_at s (i + 3);
       Some ((b - 240) * 262144 + (b2 - 128) * 4096 + (b3 - 128) * 64 + (b4 - 128))
     }
   }"

partial_function (option) code_points_loop :: "byte list \<Rightarrow> nat \<Rightarrow> int list \<Rightarrow> int list option" where
  "code_points_loop s i result =
     (if i < length s then do {
        width \<leftarrow> utf8_width_at s i;
        v \<leftarrow> utf8_value_at s i width;
        code_points_loop s (i + width) (result @ [v])
      } else Some result)"

definition code_points :: "byte list \<Rightarrow> int list option" where
  "code_points s = code_points_loop s 0 []"

partial_function (option) char_count_loop :: "byte list \<Rightarrow> nat \<Rightarrow> nat \<Rightarrow> nat option" where
  "char_count_loop s i count =
     (if i < length s then do {
        width \<leftarrow> utf8_width_at s i;
        char_count_loop s (i + width) (count + 1)
      } else Some count)"

definition char_count :: "byte list \<Rightarrow> nat option" where
  "char_count s = char_count_loop s 0 0"

partial_function (option) code_point_at_loop :: "byte list \<Rightarrow> int \<Rightarrow> nat \<Rightarrow> nat \<Rightarrow> int option" where
  "code_point_at_loop s n i cur =
     (if i < length s then do {
        width \<leftarrow> utf8_width_at s i;
        if int cur = n then utf8_value_at s i width
        else code_point_at_loop s n (i + width) (cur + 1)
      } else None)"

definition code_point_at :: "byte list \<Rightarrow> int \<Rightarrow> int option" where
  "code_point_at s n = do {
     n \<leftarrow> (if n < 0 then do { c \<leftarrow> char_count s; Some (n + int c) } else Some n);
     code_point_at_loop s n 0 0
   }"

partial_function (option) char_slice_loop :: "byte list \<Rightarrow> int \<Rightarrow> int \<Rightarrow> nat \<Rightarrow> nat \<Rightarrow> nat \<Rightarrow> nat \<Rightarrow> (nat \<times> nat) option" where
  "char_slice_loop s a b i cur a_byte b_byte =
     (if i < length s then
        (let a_byte = (if int cur = a then i else a_byte) in
         if int cur = b then Some (a_byte, i)
         else do {
           width \<leftarrow> utf8_width_at s i;
           char_slice_loop s a b (i + width) (cur + 1) a_byte b_byte
         })
      else Some (a_byte, b_byte))"

definition char_slice :: "byte list \<Rightarrow> int \<Rightarrow> int \<Rightarrow> byte list option" where
  "char_slice s a b = do {
     total \<leftarrow> char_count s;
     let a = (if a < 0 then a + int total else a);
     let b = (if b < 0 then b + int total else b);
     let a = (if a < 0 then 0 else a);
     let b = (if b > int total then int total else b);
     if a \<ge> b then Some []
     else do {
       (a_byte, b_byte) \<leftarrow> char_slice_loop s a b 0 0 0 (length s);
       Some (kod_slice s (int a_byte) (int b_byte))
     }
   }"

section \<open>Characters\<close>

text \<open>The string cut into what the decoder takes for one character each.\<close>

abbreviation cont :: "byte \<Rightarrow> bool" where
  "cont b \<equiv> 128 \<le> uint b \<and> uint b < 192"

definition char_width :: "byte list \<Rightarrow> nat" where
  "char_width t = (case t of
       b # b2 # b3 # b4 # _ \<Rightarrow>
         if uint b < 192 then 1
         else if uint b < 224 then (if cont b2 then 2 else 1)
         else if uint b < 240 then (if cont b2 \<and> cont b3 then 3 else 1)
         else if uint b < 248 then (if cont b2 \<and> cont b3 \<and> cont b4 then 4 else 1)
         else 1
     | b # b2 # b3 # _ \<Rightarrow>
         if uint b < 192 then 1
         else if uint b < 224 then (if cont b2 then 2 else 1)
         else if uint b < 240 then (if cont b2 \<and> cont b3 then 3 else 1)
         else 1
     | b # b2 # _ \<Rightarrow> if uint b < 192 then 1 else if uint b < 224 then (if cont b2 then 2 else 1) else 1
     | _ \<Rightarrow> 1)"

definition char_value :: "byte list \<Rightarrow> int" where
  "char_value c = (case c of
       [b] \<Rightarrow> uint b
     | [b, b2] \<Rightarrow> (uint b - 192) * 64 + (uint b2 - 128)
     | [b, b2, b3] \<Rightarrow> (uint b - 224) * 4096 + (uint b2 - 128) * 64 + (uint b3 - 128)
     | [b, b2, b3, b4] \<Rightarrow> (uint b - 240) * 262144 + (uint b2 - 128) * 4096 + (uint b3 - 128) * 64 + (uint b4 - 128)
     | _ \<Rightarrow> 0)"

lemma char_width_pos [simp]: "0 < char_width t"
  by (simp add: char_width_def split: list.split)

lemma char_width_le: "t \<noteq> [] \<Longrightarrow> char_width t \<le> length t"
  by (cases t rule: list.exhaust) (auto simp: char_width_def split: list.split)

function chars :: "byte list \<Rightarrow> byte list list" where
  "chars t = (if t = [] then [] else take (char_width t) t # chars (drop (char_width t) t))"
  by pat_completeness auto

termination by (relation "measure length") auto

declare chars.simps [simp del]

lemma byte_at_drop: "i + k < length s \<Longrightarrow> byte_at s (i + k) = Some (uint (drop i s ! k))"
  using kod_at_nth [of "i + k" s] by (simp add: byte_at_def del: kod_at_nth)

lemma first_four:
  assumes "t \<noteq> []"
  obtains b where "t = [b]" | b c where "t = [b, c]" | b c d where "t = [b, c, d]" | b c d e u where "t = b # c # d # e # u"
  using assms that by (cases t; cases "tl t"; cases "tl (tl t)"; cases "tl (tl (tl t))") auto

lemma byte_at_of_drop: "drop i s = t \<Longrightarrow> k < length t \<Longrightarrow> byte_at s (i + k) = Some (uint (t ! k))"
  using byte_at_drop [of i k s] by auto

lemma bytes_at:
  "drop i s = b # u \<Longrightarrow> byte_at s i = Some (uint b)"
  "drop i s = b # c # u \<Longrightarrow> byte_at s (Suc i) = Some (uint c)"
  "drop i s = b # c # d # u \<Longrightarrow> byte_at s (Suc (Suc i)) = Some (uint d)"
  "drop i s = b # c # d # e # u \<Longrightarrow> byte_at s (i + 3) = Some (uint e)"
  using byte_at_of_drop [of i s "b # u" 0] byte_at_of_drop [of i s "b # c # u" 1]
    byte_at_of_drop [of i s "b # c # d # u" 2] byte_at_of_drop [of i s "b # c # d # e # u" 3] by simp_all

lemma width_at: "i < length s \<Longrightarrow> utf8_width_at s i = Some (char_width (drop i s))"
proof -
  assume i: "i < length s"
  have n: "drop i s \<noteq> []" and l: "length s = i + length (drop i s)" using i by simp_all
  show ?thesis unfolding utf8_width_at_def Let_def l using n
    by (cases rule: first_four) (simp_all add: bytes_at char_width_def)
qed

lemma value_at: "i < length s \<Longrightarrow> utf8_value_at s i (char_width (drop i s)) = Some (char_value (take (char_width (drop i s)) (drop i s)))"
proof -
  assume i: "i < length s"
  have n: "drop i s \<noteq> []" using i by simp
  then show ?thesis unfolding utf8_value_at_def
    by (cases rule: first_four) (simp_all add: bytes_at char_width_def char_value_def)
qed

lemma width_in: "i < length s \<Longrightarrow> i + char_width (drop i s) \<le> length s"
  using char_width_le [of "drop i s"] by simp

lemma chars_at: "i < length s \<Longrightarrow> chars (drop i s) = take (char_width (drop i s)) (drop i s) # chars (drop (i + char_width (drop i s)) s)"
  by (subst chars.simps) (simp add: add.commute)

lemma chars_Nil [simp]: "chars [] = []"
  by (simp add: chars.simps)

lemma concat_chars: "concat (chars t) = t"
  by (induction t rule: chars.induct) (subst chars.simps, simp)

text \<open>The three walks over the string.\<close>

lemma code_points_loop_chars: "i \<le> length s \<Longrightarrow> code_points_loop s i r = Some (r @ map char_value (chars (drop i s)))"
proof (induction "length s - i" arbitrary: i r rule: less_induct)
  case less
  show ?case
  proof (cases "i < length s")
    case True
    let ?w = "char_width (drop i s)"
    have "length s - (i + ?w) < length s - i" using True char_width_pos [of "drop i s"] by linarith
    then have "code_points_loop s (i + ?w) (r @ [char_value (take ?w (drop i s))]) =
        Some ((r @ [char_value (take ?w (drop i s))]) @ map char_value (chars (drop (i + ?w) s)))"
      by (rule less.hyps [OF _ width_in [OF True]])
    then show ?thesis using True by (subst code_points_loop.simps) (simp add: width_at value_at chars_at)
  qed (use less.prems in \<open>simp add: code_points_loop.simps\<close>)
qed

lemma char_count_loop_chars: "i \<le> length s \<Longrightarrow> char_count_loop s i c = Some (c + length (chars (drop i s)))"
proof (induction "length s - i" arbitrary: i c rule: less_induct)
  case less
  show ?case
  proof (cases "i < length s")
    case True
    let ?w = "char_width (drop i s)"
    have "length s - (i + ?w) < length s - i" using True char_width_pos [of "drop i s"] by linarith
    then have "char_count_loop s (i + ?w) (c + 1) = Some (c + 1 + length (chars (drop (i + ?w) s)))"
      by (rule less.hyps [OF _ width_in [OF True]])
    then show ?thesis using True by (subst char_count_loop.simps) (simp add: width_at chars_at)
  qed (use less.prems in \<open>simp add: char_count_loop.simps\<close>)
qed

lemma code_point_at_loop_chars:
  "i \<le> length s \<Longrightarrow> code_point_at_loop s n i cur =
     (if int cur \<le> n \<and> n < int cur + int (length (chars (drop i s)))
      then Some (char_value (chars (drop i s) ! nat (n - int cur))) else None)"
proof (induction "length s - i" arbitrary: i cur rule: less_induct)
  case less
  show ?case
  proof (cases "i < length s")
    case True
    let ?w = "char_width (drop i s)"
    have "length s - (i + ?w) < length s - i" using True char_width_pos [of "drop i s"] by linarith
    note IH = less.hyps [OF this width_in [OF True], of "cur + 1"]
    show ?thesis
    proof (cases "int cur = n")
      case False
      then have "int cur < n \<Longrightarrow> nat (n - int cur) = Suc (nat (n - int (cur + 1)))" by (simp add: Suc_nat_eq_nat_zadd1)
      then show ?thesis using True False IH by (subst code_point_at_loop.simps) (auto simp: width_at chars_at)
    qed (use True in \<open>subst code_point_at_loop.simps, simp add: width_at value_at chars_at\<close>)
  qed (use less.prems in \<open>simp add: code_point_at_loop.simps\<close>)
qed

lemma code_points_chars: "code_points s = Some (map char_value (chars s))"
  by (simp add: code_points_def code_points_loop_chars)

lemma char_count_chars: "char_count s = Some (length (chars s))"
  by (simp add: char_count_def char_count_loop_chars)

section \<open>Slices\<close>

text \<open>Where the character with a given index starts.\<close>

definition char_off :: "byte list \<Rightarrow> nat \<Rightarrow> nat" where
  "char_off s k = length (concat (take k (chars s)))"

lemma drop_char_off: "drop (char_off s k) s = concat (drop k (chars s))"
proof -
  have "s = concat (take k (chars s)) @ concat (drop k (chars s))"
    unfolding concat_append [symmetric] append_take_drop_id concat_chars ..
  then show ?thesis unfolding char_off_def by (metis append_eq_conv_conj)
qed

lemma take_char_off: "take (char_off s k) s = concat (take k (chars s))"
proof -
  have "s = concat (take k (chars s)) @ concat (drop k (chars s))"
    unfolding concat_append [symmetric] append_take_drop_id concat_chars ..
  then show ?thesis unfolding char_off_def by (metis append_eq_conv_conj)
qed

lemma char_off_step:
  assumes "chars (drop (char_off s k) s) = drop k (chars s)" and "k < length (chars s)"
  shows "char_off s k < length s" and "char_off s (Suc k) = char_off s k + char_width (drop (char_off s k) s)"
    and "chars (drop (char_off s (Suc k)) s) = drop (Suc k) (chars s)"
proof -
  have "drop (char_off s k) s \<noteq> []" using assms by (metis chars_Nil drop_eq_Nil not_less)
  then show i: "char_off s k < length s" by simp
  let ?w = "char_width (drop (char_off s k) s)"
  have c: "chars s ! k = take ?w (drop (char_off s k) s)" "chars (drop (char_off s k + ?w) s) = drop (Suc k) (chars s)"
    using chars_at [OF i] assms by (metis Cons_nth_drop_Suc list.inject)+
  show "char_off s (Suc k) = char_off s k + ?w"
    using c(1) assms(2) width_in [OF i] by (simp add: char_off_def take_Suc_conv_app_nth)
  then show "chars (drop (char_off s (Suc k)) s) = drop (Suc k) (chars s)" using c(2) by simp
qed

lemma chars_char_off: "k \<le> length (chars s) \<Longrightarrow> chars (drop (char_off s k) s) = drop k (chars s)"
proof (induction k)
  case (Suc k)
  then show ?case by (intro char_off_step(3)) simp_all
qed (simp add: char_off_def)

lemma char_slice_loop_off:
  "a < b \<Longrightarrow> b \<le> length (chars s) \<Longrightarrow> k \<le> b \<Longrightarrow>
   char_slice_loop s (int a) (int b) (char_off s k) k ab (length s) = Some (if k \<le> a then char_off s a else ab, char_off s b)"
proof (induction "b - k" arbitrary: k ab)
  case 0
  then have k: "k = b" by simp
  have "char_off s b = length s" if "\<not> char_off s b < length s"
    using that drop_char_off [of s b] by (simp add: char_off_def) (metis concat_chars append_take_drop_id concat_append length_append le_add1 order_antisym not_less)
  then show ?case using k 0 by (subst char_slice_loop.simps) (auto simp: Let_def)
next
  case (Suc n)
  then have k: "k < b" "k < length (chars s)" by simp_all
  note f = char_off_step [OF chars_char_off k(2)]
  have "char_slice_loop s (int a) (int b) (char_off s (Suc k)) (Suc k) (if k = a then char_off s k else ab) (length s) =
      Some (if Suc k \<le> a then char_off s a else if k = a then char_off s k else ab, char_off s b)"
    using Suc by (intro Suc.hyps(1)) simp_all
  then show ?case using k f by (subst char_slice_loop.simps) (cases "k = a"; auto simp: Let_def width_at)
qed

lemma char_width_take: "char_width t \<le> n \<Longrightarrow> char_width (take n t) = char_width t"
proof (cases "t = []")
  case False
  assume n: "char_width t \<le> n"
  then obtain m where m: "n = Suc m" using char_width_pos [of t] by (cases n) auto
  show ?thesis using False n unfolding m
    by (cases rule: first_four) (auto simp: char_width_def take_Cons' split: if_splits)
qed simp

lemma chars_take: "chars (concat (take m (chars t))) = take m (chars t)"
proof (induction t arbitrary: m rule: chars.induct)
  case (1 t)
  show ?case
  proof (cases "t = [] \<or> m = 0")
    case False
    then obtain k where m: "m = Suc k" by (cases m) auto
    let ?w = "char_width t" and ?r = "drop (char_width t) t"
    let ?x = "concat (take m (chars t))"
    have c: "chars t = take ?w t # chars ?r" using False by (subst chars.simps) simp
    have x: "?x = take ?w t @ concat (take k (chars ?r))" unfolding c m by simp
    have "concat (take k (chars ?r)) = take (char_off ?r k) ?r" by (simp add: take_char_off)
    then have xt: "?x = take (?w + char_off ?r k) t" unfolding x by (simp add: take_add)
    have w: "char_width ?x = ?w" unfolding xt by (rule char_width_take) simp
    have wl: "length (take ?w t) = ?w" using char_width_le [of t] False by simp
    have "0 < length (take ?w t)" unfolding wl by simp
    then have "?x \<noteq> []" unfolding x by simp
    then have "chars ?x = take ?w ?x # chars (drop ?w ?x)" using w by (subst chars.simps) simp
    also have "drop ?w ?x = concat (take k (chars ?r))" unfolding x using wl by simp
    also have "take ?w ?x = take ?w t" unfolding x using wl by simp
    also have "chars (concat (take k (chars ?r))) = take k (chars ?r)" using 1 False by simp
    finally show ?thesis unfolding c m by simp
  qed auto
qed

lemma chars_slice: "a \<le> length (chars s) \<Longrightarrow> chars (concat (drop a (take b (chars s)))) = drop a (take b (chars s))"
  using chars_take [of "b - a" "drop (char_off s a) s"] by (simp add: chars_char_off drop_take)

section \<open>Encoding\<close>

text \<open>The encoding of RFC 3629.\<close>

definition utf8_encode :: "int \<Rightarrow> byte list" where
  "utf8_encode c =
     (if c < 128 then [word_of_int c]
      else if c < 2048 then [word_of_int (192 + c div 64), word_of_int (128 + c mod 64)]
      else if c < 65536 then [word_of_int (224 + c div 4096), word_of_int (128 + c div 64 mod 64), word_of_int (128 + c mod 64)]
      else [word_of_int (240 + c div 262144), word_of_int (128 + c div 4096 mod 64), word_of_int (128 + c div 64 mod 64),
        word_of_int (128 + c mod 64)])"

lemma uint_small: "0 \<le> v \<Longrightarrow> v < 256 \<Longrightarrow> uint (word_of_int v :: byte) = v"
  by (simp add: uint_word_of_int)

lemma sixbits: "uint (word_of_int (128 + c mod 64) :: byte) = 128 + c mod 64"
proof -
  have "0 \<le> c mod 64" "c mod 64 < 64" by simp_all
  then show ?thesis by (intro uint_small) linarith+
qed

lemma char_forms:
  "uint b < 128 \<Longrightarrow> char_width (b # t) = 1"
  "192 \<le> uint b \<Longrightarrow> uint b < 224 \<Longrightarrow> cont c \<Longrightarrow> char_width (b # c # t) = 2"
  "224 \<le> uint b \<Longrightarrow> uint b < 240 \<Longrightarrow> cont c \<Longrightarrow> cont d \<Longrightarrow> char_width (b # c # d # t) = 3"
  "240 \<le> uint b \<Longrightarrow> uint b < 248 \<Longrightarrow> cont c \<Longrightarrow> cont d \<Longrightarrow> cont e \<Longrightarrow> char_width (b # c # d # e # t) = 4"
  by (simp_all add: char_width_def split: list.split)

lemma encode_char:
  assumes "0 \<le> c" and "c < 1114112"
  shows "char_width (utf8_encode c @ t) = length (utf8_encode c) \<and> char_value (utf8_encode c) = c"
proof -
  have m: "0 \<le> x mod 64" "x mod 64 < 64" for x :: int by simp_all
  define b b2 b3 b4 where "b = (if c < 128 then c else if c < 2048 then 192 + c div 64 else if c < 65536 then 224 + c div 4096 else 240 + c div 262144)"
    and "b2 = (word_of_int (128 + c mod 64) :: byte)" and "b3 = (word_of_int (128 + c div 64 mod 64) :: byte)"
    and "b4 = (word_of_int (128 + c div 4096 mod 64) :: byte)"
  have k: "uint b2 = 128 + c mod 64" "uint b3 = 128 + c div 64 mod 64" "uint b4 = 128 + c div 4096 mod 64"
    unfolding b2_def b3_def b4_def by (rule sixbits)+
  have ct: "cont b2" "cont b3" "cont b4" unfolding k by (simp_all add: pos_mod_bound)
  have r: "128 \<le> c \<and> c < 2048 \<longrightarrow> c div 64 < 32" "c < 65536 \<longrightarrow> c div 4096 < 16" "c div 262144 < 8"
    "0 \<le> c div 64" "0 \<le> c div 4096" "0 \<le> c div 262144" using assms by linarith+
  then have u: "uint (word_of_int b :: byte) = b" unfolding b_def using assms by (intro uint_small) auto
  define b1 where "b1 = (word_of_int b :: byte)"
  have e: "utf8_encode c = (if c < 128 then [b1] else if c < 2048 then [b1, b2] else if c < 65536 then [b1, b3, b2] else [b1, b4, b3, b2])"
    unfolding utf8_encode_def b1_def b_def b2_def b3_def b4_def by simp
  have b1: "uint b1 = b" using u by (simp add: b1_def)
  have v: "c = 64 * (c div 64) + c mod 64" "c div 64 = 64 * (c div 4096) + c div 64 mod 64"
    "c div 4096 = 64 * (c div 262144) + c div 4096 mod 64"
    using zdiv_zmult2_eq [of 64 c 64] zdiv_zmult2_eq [of 64 c 4096] mult_div_mod_eq [of 64 "c div 64"] mult_div_mod_eq [of 64 "c div 4096"]
    by simp_all
  consider "c < 128" | "128 \<le> c" "c < 2048" | "2048 \<le> c" "c < 65536" | "65536 \<le> c" by linarith
  then have w: "char_width (utf8_encode c @ t) = length (utf8_encode c)" unfolding e
    by cases (use r in \<open>simp_all add: char_forms ct b1 b_def\<close>)
  have "char_value (utf8_encode c) = (if c < 128 then c else if c < 2048 then c div 64 * 64 + c mod 64
      else if c < 65536 then c div 4096 * 4096 + c div 64 mod 64 * 64 + c mod 64
      else c div 262144 * 262144 + c div 4096 mod 64 * 4096 + c div 64 mod 64 * 64 + c mod 64)"
    unfolding e by (simp add: char_value_def b1 b_def k)
  moreover have "c div 64 * 64 + c mod 64 = c" "c div 4096 * 4096 + c div 64 mod 64 * 64 + c mod 64 = c"
    "c div 262144 * 262144 + c div 4096 mod 64 * 4096 + c div 64 mod 64 * 64 + c mod 64 = c" using v by linarith+
  ultimately have "char_value (utf8_encode c) = c" by (simp only: if_cancel)
  with w show ?thesis ..
qed

lemma encode_ne: "utf8_encode c \<noteq> []"
  by (simp add: utf8_encode_def)

lemma chars_encode: "list_all (\<lambda>c. 0 \<le> c \<and> c < 1114112) cs \<Longrightarrow> chars (concat (map utf8_encode cs)) = map utf8_encode cs"
proof (induction cs)
  case (Cons c cs)
  then show ?case using encode_char [of c "concat (map utf8_encode cs)"] encode_ne [of c] by (subst chars.simps) simp
qed simp

section \<open>Properties\<close>

text \<open>
  What counts as one character on bytes that need not be UTF-8: a byte alone, or a lead byte with as many
  continuation bytes as its high bits say. The decoder looks at nothing else, so a sequence that RFC 3629
  forbids is decoded like any other: overlong ones, and four bytes past the last code point.
\<close>

definition char_shape :: "byte list \<Rightarrow> bool" where
  "char_shape c = (case c of
       [b] \<Rightarrow> True
     | [b, b2] \<Rightarrow> 192 \<le> uint b \<and> uint b < 224 \<and> cont b2
     | [b, b2, b3] \<Rightarrow> 224 \<le> uint b \<and> uint b < 240 \<and> cont b2 \<and> cont b3
     | [b, b2, b3, b4] \<Rightarrow> 240 \<le> uint b \<and> uint b < 248 \<and> cont b2 \<and> cont b3 \<and> cont b4
     | _ \<Rightarrow> False)"

lemma take_char_shape: "t \<noteq> [] \<Longrightarrow> char_shape (take (char_width t) t)"
  by (cases rule: first_four) (auto simp: char_width_def char_shape_def)

lemma chars_shape: "list_all char_shape (chars t)"
  by (induction t rule: chars.induct) (subst chars.simps, simp add: take_char_shape)

lemma code_points_overlong:
  "code_points [0xC0, 0x80] = Some [0]"
  "code_points [0xF7, 0xBF, 0xBF, 0xBF] = Some [2097151]"
  by (simp_all add: code_points_chars chars.simps char_width_def char_value_def)

text \<open>
  C33. The UTF-8 decoder inverts the encoding of RFC 3629: the code points of any sequence of encoded characters are
  that sequence. On any bytes at all it returns and consumes every byte: the string is cut into single bytes and lead bytes
  with their continuation bytes (\<open>char_shape\<close>, valid UTF-8 or not, see \<open>code_points_overlong\<close>), \<open>code_points\<close> gives the
  values of these, \<open>char_count\<close> their number, and the indexing by code points, negative from the end, the one with that
  index or a panic out of bounds.
\<close>

theorem code_points_decode:
  "(list_all (\<lambda>c. 0 \<le> c \<and> c < 1114112) cs \<longrightarrow> code_points (concat (map utf8_encode cs)) = Some cs)
   \<and> (\<exists>vs. code_points s = Some vs \<and> vs = map char_value (chars s) \<and> concat (chars s) = s \<and> list_all char_shape (chars s)
      \<and> char_count s = Some (length vs) \<and> code_point_at s n = kod_at vs n)"
proof (intro conjI impI)
  have "code_point_at s n = kod_at (map char_value (chars s)) n"
    by (simp add: code_point_at_def char_count_chars code_point_at_loop_chars kod_at_def Let_def)
  then show "\<exists>vs. code_points s = Some vs \<and> vs = map char_value (chars s) \<and> concat (chars s) = s \<and> list_all char_shape (chars s)
      \<and> char_count s = Some (length vs) \<and> code_point_at s n = kod_at vs n"
    by (simp add: code_points_chars char_count_chars concat_chars chars_shape)
  assume c: "list_all (\<lambda>c. 0 \<le> c \<and> c < 1114112) cs"
  then have "map (char_value \<circ> utf8_encode) cs = cs" using encode_char by (induction cs) auto
  then show "code_points (concat (map utf8_encode cs)) = Some cs" using c by (simp add: code_points_chars chars_encode)
qed

theorem code_points_decode_witness: "code_points (concat (map utf8_encode [75, 246, 8364, 128512])) = Some [75, 246, 8364, 128512]"
  using code_points_decode [of "[75, 246, 8364, 128512]" "[]" 0] by (simp del: concat.simps list.map)

text \<open>
  C34. \<open>char_slice\<close> never panics and never cuts a character: for all bounds and all bytes, valid UTF-8 or not, the code
  points of the slice are the code points of the string from the first bound up to the second, where a negative
  bound counts from the end and both are clamped to the string.
\<close>

theorem char_slice_correct:
  "\<exists>t vs. char_slice s a b = Some t \<and> code_points s = Some vs \<and>
     (let total = int (length vs); lo = max 0 (if a < 0 then a + total else a); hi = min total (if b < 0 then b + total else b)
      in code_points t = Some (drop (nat lo) (take (nat hi) vs)))"
proof -
  let ?n = "int (length (chars s))"
  define lo hi where "lo = max 0 (if a < 0 then a + ?n else a)" and "hi = min ?n (if b < 0 then b + ?n else b)"
  have c: "char_slice s a b = (if lo \<ge> hi then Some [] else do {
      (a_byte, b_byte) \<leftarrow> char_slice_loop s lo hi 0 0 0 (length s); Some (kod_slice s (int a_byte) (int b_byte)) })"
    unfolding char_slice_def char_count_chars lo_def hi_def by (simp add: Let_def max_def min_def)
  have "\<exists>t. char_slice s a b = Some t \<and> chars t = drop (nat lo) (take (nat hi) (chars s))"
  proof (cases "lo < hi")
    case False
    then show ?thesis using c by simp
  next
    case True
    have z: "0 \<le> lo" "hi \<le> ?n" by (simp_all add: lo_def hi_def)
    define i j where "i = nat lo" and "j = nat hi"
    have ij: "lo = int i" "hi = int j" "i < j" "j \<le> length (chars s)" using z True by (simp_all add: i_def j_def)
    have "char_slice_loop s lo hi 0 0 0 (length s) = Some (char_off s i, char_off s j)"
      using char_slice_loop_off [OF ij(3,4), of 0 0] ij(1,2) by (simp add: char_off_def)
    moreover have "drop (char_off s i) (take (char_off s j) s) = concat (drop i (take j (chars s)))"
    proof -
      have "concat (take j (chars s)) = concat (take i (chars s)) @ concat (drop i (take j (chars s)))"
        unfolding concat_append [symmetric] using ij(3) append_take_drop_id [of i "take j (chars s)"] by (simp add: min_def)
      then show ?thesis unfolding take_char_off by (simp add: char_off_def)
    qed
    ultimately have "char_slice s a b = Some (concat (drop i (take j (chars s))))" using c True by (simp add: kod_slice_def)
    then show ?thesis using chars_slice [of i s j] ij by simp
  qed
  then obtain t where "char_slice s a b = Some t" "chars t = drop (nat lo) (take (nat hi) (chars s))" by blast
  then show ?thesis unfolding lo_def hi_def
    by (intro exI [of _ t] exI [of _ "map char_value (chars s)"]) (simp only: code_points_chars Let_def drop_map take_map length_map simp_thms)
qed

end
