(* ===== verification/Kod_Distance.thy ===== *)
theory Kod_Distance
  imports Kod_Lang
begin

text \<open>
  \<open>distance\<close> of \<open>src/stdlib/primitives/str.kod\<close>: the edit distance behind the compiler's suggestions, by dynamic programming
  with two rolling rows. The counters run up to the lengths of the strings and are \<open>nat\<close>; the rows are lists
  of \<open>int\<close>, whose entries are at most the sum of the lengths. \<open>None\<close> is an index out of bounds.
\<close>

section \<open>Definitions\<close>

function row_loop :: "byte list \<Rightarrow> byte list \<Rightarrow> nat \<Rightarrow> int list \<Rightarrow> nat \<Rightarrow> int list \<Rightarrow> int list option" where
  "row_loop s other i prev j cur =
     (if j < length other then do {
        a \<leftarrow> kod_at s (int i);
        b \<leftarrow> kod_at other (int j);
        let cost = (if a = b then 0 else 1);
        pd \<leftarrow> kod_at prev (int j + 1);
        ci \<leftarrow> kod_at cur (int j);
        ps \<leftarrow> kod_at prev (int j);
        let del = pd + 1;
        let ins = ci + 1;
        let sub = ps + cost;
        let best = del;
        let best = (if ins < best then ins else best);
        let best = (if sub < best then sub else best);
        row_loop s other i prev (j + 1) (cur @ [best])
      } else Some cur)"
  by pat_completeness auto

termination by (relation "measure (\<lambda>(s, other, i, prev, j, cur). length other - j)") auto

declare row_loop.simps [simp del]

function rows_loop :: "byte list \<Rightarrow> byte list \<Rightarrow> nat \<Rightarrow> int list \<Rightarrow> int list option" where
  "rows_loop s other i prev =
     (if i < length s then do {
        cur \<leftarrow> row_loop s other i prev 0 [int i + 1];
        rows_loop s other (i + 1) cur
      } else Some prev)"
  by pat_completeness auto

termination by (relation "measure (\<lambda>(s, other, i, prev). length s - i)") auto

declare rows_loop.simps [simp del]

definition distance :: "byte list \<Rightarrow> byte list \<Rightarrow> int option" where
  "distance s other =
     (if length s = 0 then Some (int (length other))
      else if length other = 0 then Some (int (length s))
      else do {
        row \<leftarrow> rows_loop s other 0 (map int [0..<length other + 1]);
        kod_at row (int (length other))
      })"

section \<open>Edits and alignments\<close>

inductive edit :: "'a list \<Rightarrow> 'a list \<Rightarrow> bool" where
  insertion: "edit xs (y # xs)"
| deletion: "edit (x # xs) xs"
| substitution: "edit (x # xs) (y # xs)"
| further: "edit xs ys \<Longrightarrow> edit (x # xs) (x # ys)"

inductive_cases edit_Nil: "edit xs []"

inductive aligned :: "nat \<Rightarrow> 'a list \<Rightarrow> 'a list \<Rightarrow> bool" where
  a_nil: "aligned 0 [] []"
| a_keep: "aligned n xs ys \<Longrightarrow> aligned n (x # xs) (x # ys)"
| a_del: "aligned n xs ys \<Longrightarrow> aligned (Suc n) (x # xs) ys"
| a_ins: "aligned n xs ys \<Longrightarrow> aligned (Suc n) xs (y # ys)"
| a_sub: "aligned n xs ys \<Longrightarrow> aligned (Suc n) (x # xs) (y # ys)"

fun lev :: "'a list \<Rightarrow> 'a list \<Rightarrow> nat" where
  "lev [] ys = length ys"
| "lev xs [] = length xs"
| "lev (x # xs) (y # ys) = min (Suc (lev xs (y # ys))) (min (Suc (lev (x # xs) ys)) (lev xs ys + (if x = y then 0 else 1)))"

lemma aligned_ins_all: "aligned (length ys) [] ys"
  by (induction ys) (auto intro: aligned.intros)

lemma aligned_del_all: "aligned (length xs) xs []"
  by (induction xs) (auto intro: aligned.intros)

lemma aligned_lev: "aligned (lev xs ys) xs ys"
proof (induction xs ys rule: lev.induct)
  case (3 x xs y ys)
  let ?d = "Suc (lev xs (y # ys))" and ?i = "Suc (lev (x # xs) ys)" and ?s = "lev xs ys + (if x = y then 0 else 1)"
  have "aligned ?d (x # xs) (y # ys)" "aligned ?i (x # xs) (y # ys)" "aligned ?s (x # xs) (y # ys)"
    using 3 by (auto intro: aligned.intros)
  then show ?case by (simp only: lev.simps min_def split: if_split) blast
qed (use aligned_ins_all aligned_del_all [of "_ # _"] in auto)

lemma lev_steps: "lev (x # xs) ys \<le> Suc (lev xs ys)" "lev xs (y # ys) \<le> Suc (lev xs ys)" "lev (x # xs) (y # ys) \<le> Suc (lev xs ys)"
    "lev (x # xs) (x # ys) \<le> lev xs ys"
proof -
  have n: "lev zs [] = length zs" for zs :: "'a list" by (cases zs) auto
  show "lev (x # xs) ys \<le> Suc (lev xs ys)" by (cases ys) (simp_all add: n)
  show "lev xs (y # ys) \<le> Suc (lev xs ys)" by (cases xs) simp_all
qed (simp_all add: min_le_iff_disj)

lemma lev_least: "aligned n xs ys \<Longrightarrow> lev xs ys \<le> n"
proof (induction rule: aligned.induct)
  case (a_keep n xs ys x)
  then show ?case using lev_steps(4) [of x xs ys] by linarith
next
  case (a_del n xs ys x)
  then show ?case using lev_steps(1) [of x xs ys] by linarith
next
  case (a_ins n xs ys y)
  then show ?case using lev_steps(2) [of xs y ys] by linarith
next
  case (a_sub n xs ys x y)
  then show ?case using lev_steps(3) [of x xs y ys] by linarith
qed simp

lemma aligned_append: "aligned n xs ys \<Longrightarrow> aligned m us vs \<Longrightarrow> aligned (n + m) (xs @ us) (ys @ vs)"
  by (induction rule: aligned.induct) (auto intro: aligned.intros)

lemma aligned_rev: "aligned n xs ys \<Longrightarrow> aligned n (rev xs) (rev ys)"
proof (induction rule: aligned.induct)
  case (a_keep n xs ys x)
  then show ?case using aligned_append [of n "rev xs" "rev ys" 0 "[x]" "[x]"] by (simp add: aligned.intros)
next
  case (a_del n xs ys x)
  then show ?case using aligned_append [of n "rev xs" "rev ys" 1 "[x]" "[]"] by (simp add: aligned.intros)
next
  case (a_ins n xs ys y)
  then show ?case using aligned_append [of n "rev xs" "rev ys" 1 "[]" "[y]"] by (simp add: aligned.intros)
next
  case (a_sub n xs ys x y)
  then show ?case using aligned_append [of n "rev xs" "rev ys" 1 "[x]" "[y]"] by (simp add: aligned.intros)
qed (simp add: aligned.intros)

lemma lev_rev: "lev (rev xs) (rev ys) = lev xs ys"
  using lev_least [OF aligned_rev [OF aligned_lev [of xs ys]]] lev_least [OF aligned_rev [OF aligned_lev [of "rev xs" "rev ys"]]] by simp

text \<open>An alignment of cost \<open>n\<close> is \<open>n\<close> edits, and each edit adds at most one to the cost.\<close>

lemma edits_further: "(edit ^^ n) xs ys \<Longrightarrow> (edit ^^ n) (x # xs) (x # ys)"
  by (induction n arbitrary: ys) (auto intro: further)

lemma aligned_edits: "aligned n xs ys \<Longrightarrow> (edit ^^ n) xs ys"
proof (induction rule: aligned.induct)
  case (a_del n xs ys x)
  then show ?case by (intro relpowp_Suc_I2) (rule deletion)
next
  case (a_ins n xs ys y)
  then show ?case by (intro relpowp_Suc_I) (auto intro: insertion)
next
  case (a_sub n xs ys x y)
  have "(edit ^^ n) (y # xs) (y # ys)" using a_sub.IH by (rule edits_further)
  then show ?case by (intro relpowp_Suc_I2) (rule substitution)
qed (auto intro: edits_further)

lemma edit_aligned: "aligned n xs ys \<Longrightarrow> edit ws xs \<Longrightarrow> \<exists>m \<le> Suc n. aligned m ws ys"
proof (induction arbitrary: ws rule: aligned.induct)
  case a_nil
  then show ?case using a_del [OF aligned.a_nil] by (auto elim!: edit_Nil intro!: exI [of _ 1])
next
  case (a_keep n xs ys x)
  from a_keep.prems show ?case
  proof cases
    case (further us)
    then show ?thesis using a_keep.IH [of us] by (auto intro: aligned.intros)
  qed (use a_keep.hyps in \<open>auto intro!: exI [of _ "Suc n"] intro: aligned.intros\<close>)
next
  case (a_del n xs ys x)
  from a_del.prems show ?case
  proof cases
    case (further us)
    then obtain m where "m \<le> Suc n" "aligned m us ys" using a_del.IH [of us] by auto
    then show ?thesis using further by (intro exI [of _ "Suc m"]) (auto intro: aligned.intros)
  next
    case insertion
    then show ?thesis using a_del.hyps by (intro exI [of _ n]) auto
  next
    case substitution
    then show ?thesis using a_del.hyps by (intro exI [of _ "Suc n"]) (auto intro: aligned.intros)
  qed (use a_del.hyps in \<open>auto intro: aligned.intros\<close>)
next
  case (a_ins n xs ys y)
  then obtain m where "m \<le> Suc n" "aligned m ws ys" by auto
  then show ?case by (intro exI [of _ "Suc m"]) (auto intro: aligned.intros)
next
  case (a_sub n xs ys x y)
  from a_sub.prems show ?case
  proof cases
    case (further us)
    then obtain m where "m \<le> Suc n" "aligned m us ys" using a_sub.IH [of us] by auto
    then show ?thesis using further by (intro exI [of _ "Suc m"]) (auto intro: aligned.intros)
  next
    case insertion
    then show ?thesis using a_sub.hyps by (intro exI [of _ "Suc n"]) (auto intro: aligned.intros)
  next
    case substitution
    then show ?thesis using a_sub.hyps by (intro exI [of _ "Suc n"]) (auto intro: aligned.intros)
  qed (use a_sub.hyps in \<open>auto intro: aligned.intros\<close>)
qed

lemma edits_aligned: "(edit ^^ n) xs ys \<Longrightarrow> \<exists>m \<le> n. aligned m xs ys"
proof (induction n arbitrary: xs)
  case 0
  have "aligned 0 xs xs" by (induction xs) (auto intro: aligned.intros)
  then show ?case using 0 by auto
next
  case (Suc n)
  then obtain zs where "edit xs zs" "(edit ^^ n) zs ys" by (blast elim: relpowp_Suc_E2)
  with Suc.IH obtain m where "m \<le> n" "aligned m zs ys" by blast
  then show ?case using edit_aligned [OF _ \<open>edit xs zs\<close>, of m ys] by (meson Suc_le_mono order_trans)
qed

section \<open>The table\<close>

definition cell :: "byte list \<Rightarrow> byte list \<Rightarrow> nat \<Rightarrow> nat \<Rightarrow> int" where
  "cell s t i j = int (lev (rev (take i s)) (rev (take j t)))"

lemma cell_0: "cell s t 0 j = int (min (length t) j)" "i \<le> length s \<Longrightarrow> cell s t i 0 = int i"
  by (cases "rev (take i s)"; simp add: cell_def; fail)+ (use length_rev [of "take i s"] in \<open>cases "rev (take i s)"; simp add: cell_def\<close>)

lemma cell_Suc:
  assumes "i < length s" and "j < length t"
  shows "cell s t (Suc i) (Suc j) = min (cell s t i (Suc j) + 1) (min (cell s t (Suc i) j + 1) (cell s t i j + (if s ! i = t ! j then 0 else 1)))"
  using assms by (simp add: cell_def take_Suc_conv_app_nth of_nat_min add.commute)

lemma row_loop_cells:
  assumes "i < length s" and "prev = map (cell s t i) [0..<length t + 1]"
  shows "j \<le> length t \<Longrightarrow> row_loop s t i prev j (map (cell s t (Suc i)) [0..<j + 1]) = Some (map (cell s t (Suc i)) [0..<length t + 1])"
proof (induction "length t - j" arbitrary: j)
  case 0
  then show ?case by (subst row_loop.simps) simp
next
  case (Suc n)
  let ?cur = "map (cell s t (Suc i)) [0..<j + 1]"
  have j: "j < length t" using Suc.hyps(2) by simp
  have p: "kod_at prev (int j + 1) = Some (cell s t i (Suc j))" "kod_at prev (int j) = Some (cell s t i j)"
    "kod_at ?cur (int j) = Some (cell s t (Suc i) j)"
    using j kod_at_nth [of "Suc j" prev] kod_at_nth [of j prev] kod_at_nth [of j ?cur]
    by (simp_all add: assms(2) nth_append add.commute del: upt_Suc kod_at_nth)
  let ?d = "cell s t i (Suc j) + 1" and ?i = "cell s t (Suc i) j + 1" and ?s = "cell s t i j + (if s ! i = t ! j then 0 else 1)"
  have b: "(if ?s < (if ?i < ?d then ?i else ?d) then ?s else if ?i < ?d then ?i else ?d) = cell s t (Suc i) (Suc j)"
    unfolding cell_Suc [OF assms(1) j] by (simp add: min_def)
  have "row_loop s t i prev j ?cur = row_loop s t i prev (j + 1) (?cur @ [cell s t (Suc i) (Suc j)])"
    using j assms(1) p b by (subst row_loop.simps) (simp add: Let_def del: upt_Suc)
  also have "\<dots> = row_loop s t i prev (Suc j) (map (cell s t (Suc i)) [0..<Suc j + 1])" by simp
  also have "\<dots> = Some (map (cell s t (Suc i)) [0..<length t + 1])" using Suc by (intro Suc.hyps(1)) simp_all
  finally show ?case .
qed

lemma rows_loop_cells:
  "i \<le> length s \<Longrightarrow> rows_loop s t i (map (cell s t i) [0..<length t + 1]) = Some (map (cell s t (length s)) [0..<length t + 1])"
proof (induction "length s - i" arbitrary: i)
  case 0
  then show ?case by (subst rows_loop.simps) simp
next
  case (Suc n)
  then have i: "i < length s" by simp
  have "map (cell s t (Suc i)) [0..<0 + 1] = [int i + 1]" using i cell_0(2) [of "Suc i" s t] by simp
  then have "row_loop s t i (map (cell s t i) [0..<length t + 1]) 0 [int i + 1] = Some (map (cell s t (Suc i)) [0..<length t + 1])"
    using row_loop_cells [OF i refl, of 0 t] by (simp del: upt_Suc)
  moreover have "rows_loop s t (Suc i) (map (cell s t (Suc i)) [0..<length t + 1]) = Some (map (cell s t (length s)) [0..<length t + 1])"
    using Suc by (intro Suc.hyps(1)) simp_all
  ultimately show ?case using i by (subst rows_loop.simps) (simp del: upt_Suc)
qed

lemma distance_lev: "distance s t = Some (int (lev s t))"
proof -
  have r: "map int [0..<length t + 1] = map (cell s t 0) [0..<length t + 1]" by (simp add: cell_0(1))
  have c: "cell s t (length s) (length t) = int (lev s t)" by (simp add: cell_def lev_rev)
  show ?thesis
  proof (cases "s = [] \<or> t = []")
    case True
    then show ?thesis by (cases s; cases t) (auto simp: distance_def)
  next
    case False
    then show ?thesis
      using rows_loop_cells [of 0 s t] kod_at_nth [of "length t" "map (cell s t (length s)) [0..<length t + 1]"]
      unfolding distance_def r by (simp add: c nth_append del: upt_Suc kod_at_nth)
  qed
qed

text \<open>
  C35. \<open>distance\<close> never indexes outside its rows and returns the edit distance: the strings are that many single-byte
  insertions, deletions and substitutions apart, and no fewer edits lead from the one to the other.
\<close>

theorem distance_correct:
  "\<exists>d. distance s t = Some (int d) \<and> (edit ^^ d) s t \<and> (\<forall>n. (edit ^^ n) s t \<longrightarrow> d \<le> n)"
proof (intro exI conjI allI impI)
  show "distance s t = Some (int (lev s t))" by (rule distance_lev)
  show "(edit ^^ lev s t) s t" by (rule aligned_edits [OF aligned_lev])
  fix n assume "(edit ^^ n) s t"
  then show "lev s t \<le> n" using edits_aligned lev_least order_trans by meson
qed

theorem distance_correct_witness: "\<exists>d. distance [107, 111] [107] = Some (int d) \<and> d \<le> 1"
proof -
  have "(edit ^^ 1) [107, 111] [107 :: byte]" by (simp add: eq_OO further deletion)
  then show ?thesis using distance_correct [of "[107, 111]" "[107]"] by blast
qed

end
