(* ===== verification/Kod_Time.thy ===== *)
theory Kod_Time
  imports Kod_Strings
begin

text \<open>
  \<open>src/stdlib/time.kod\<close>: durations, moments and the calendar; the timestamps are in \<open>Kod_Timestamp\<close>. All numbers are \<open>int64\<close>, with the
  wrap-around written out where a value can leave the range.
\<close>

section \<open>Definitions\<close>

subsection \<open>Durations\<close>

record Duration =
  ns :: int

definition Duration_init :: "int \<Rightarrow> int \<Rightarrow> int \<Rightarrow> int \<Rightarrow> int \<Rightarrow> int \<Rightarrow> Duration" where
  "Duration_init hours minutes seconds ms us n =
     \<lparr>ns = w64 (n + us * 1000 + ms * 1000000 + seconds * 1000000000 + minutes * 60000000000 + hours * 3600000000000)\<rparr>"

definition duration_add :: "Duration \<Rightarrow> Duration \<Rightarrow> Duration" where
  "duration_add d e = \<lparr>ns = w64 (ns d + ns e)\<rparr>"

definition duration_sub :: "Duration \<Rightarrow> Duration \<Rightarrow> Duration" where
  "duration_sub d e = \<lparr>ns = w64 (ns d - ns e)\<rparr>"

definition duration_rsub :: "Duration \<Rightarrow> int \<Rightarrow> Duration" where
  "duration_rsub d k = \<lparr>ns = w64 (k - ns d)\<rparr>"

definition duration_mul :: "Duration \<Rightarrow> int \<Rightarrow> Duration" where
  "duration_mul d k = \<lparr>ns = w64 (ns d * k)\<rparr>"

definition duration_div :: "Duration \<Rightarrow> int \<Rightarrow> Duration" where
  "duration_div d k = \<lparr>ns = w64 (c_quot (ns d) k)\<rparr>"

definition duration_lt :: "Duration \<Rightarrow> Duration \<Rightarrow> bool" where
  "duration_lt d e \<longleftrightarrow> ns d < ns e"

definition as_ms :: "Duration \<Rightarrow> int" where
  "as_ms d = c_quot (ns d) 1000000"

definition ceil_ms :: "Duration \<Rightarrow> int" where
  "ceil_ms d = (if ns d > 0 then c_quot (w64 (ns d + 999999)) 1000000 else c_quot (ns d) 1000000)"

definition as_seconds :: "Duration \<Rightarrow> int" where
  "as_seconds d = c_quot (ns d) 1000000000"

definition as_hours :: "Duration \<Rightarrow> int" where
  "as_hours d = c_quot (ns d) 3600000000000"

definition as_days :: "Duration \<Rightarrow> int" where
  "as_days d = c_quot (ns d) 86400000000000"

text \<open>The loop that drops trailing zeros, shared by \<open>decimal\<close> and \<open>Time.to_str\<close>.\<close>

fun zeros_loop :: "byte list \<Rightarrow> nat \<Rightarrow> nat" where
  "zeros_loop digits 0 = 0"
| "zeros_loop digits (Suc j) = (if digits ! j = 48 then zeros_loop digits j else Suc j)"

definition decimal :: "int \<Rightarrow> int \<Rightarrow> int \<Rightarrow> byte list" where
  "decimal whole frac scale =
     (if frac = 0 then int64_to_str whole
      else let digits = int (length (int64_to_str scale)) - 1;
               raw = int64_to_str frac;
               padded = str_repeat (bytes_of ''0'') (digits - int (length raw)) @ raw
           in int64_to_str whole @ bytes_of ''.'' @ kod_slice padded 0 (int (zeros_loop padded (length padded))))"

definition duration_to_str :: "Duration \<Rightarrow> byte list" where
  "duration_to_str d =
     (if ns d = 0 then bytes_of ''0s''
      else let sign = (if ns d < 0 then bytes_of ''-'' else []);
               n = (if ns d < 0 then w64 (0 - ns d) else ns d)
        in if n < 1000 then sign @ int64_to_str n @ bytes_of ''ns''
           else if n < 1000000 then sign @ decimal (c_quot n 1000) (c_rem n 1000) 1000 @ bytes_of ''us''
           else if n < 1000000000 then sign @ decimal (c_quot n 1000000) (c_rem n 1000000) 1000000 @ bytes_of ''ms''
           else let whole_seconds = c_quot n 1000000000;
                    hours = c_quot whole_seconds 3600;
                    minutes = c_quot (c_rem whole_seconds 3600) 60;
                    secs = decimal (c_rem whole_seconds 60) (c_rem n 1000000000) 1000000000 @ bytes_of ''s''
             in if hours > 0 then sign @ int64_to_str hours @ bytes_of ''h'' @ int64_to_str minutes @ bytes_of ''m'' @ secs
                else if minutes > 0 then sign @ int64_to_str minutes @ bytes_of ''m'' @ secs
                else sign @ secs)"

subsection \<open>Moments and the calendar\<close>

record Time =
  seconds :: int
  nanos :: int

record Utc =
  year :: int
  month :: int
  day :: int
  hour :: int
  minute :: int
  sec :: int

definition kod_floor_div :: "int \<Rightarrow> int \<Rightarrow> int" where
  "kod_floor_div a b = (let q = c_quot a b in if c_rem a b < 0 then w64 (q - 1) else q)"

definition time_add :: "Time \<Rightarrow> Duration \<Rightarrow> Time" where
  "time_add t d =
     (let whole = kod_floor_div (ns d) 1000000000;
          n = w64 (nanos t + w64 (ns d - w64 (whole * 1000000000)))
      in if n \<ge> 1000000000 then \<lparr>seconds = w64 (seconds t + w64 (whole + 1)), nanos = n - 1000000000\<rparr>
         else \<lparr>seconds = w64 (seconds t + whole), nanos = n\<rparr>)"

definition time_sub :: "Time \<Rightarrow> Time \<Rightarrow> Duration" where
  "time_sub t u = \<lparr>ns = w64 (w64 (w64 (w64 (seconds t - seconds u) * 1000000000) + nanos t) - nanos u)\<rparr>"

definition time_lt :: "Time \<Rightarrow> Time \<Rightarrow> bool" where
  "time_lt t u = (if seconds t \<noteq> seconds u then seconds t < seconds u else nanos t < nanos u)"

definition utc :: "Time \<Rightarrow> Utc" where
  "utc t =
     (let days = kod_floor_div (seconds t) 86400;
          rest = w64 (seconds t - w64 (days * 86400));
          z = days + 719468;
          era = kod_floor_div z 146097;
          doe = z - era * 146097;
          yoe = c_quot (doe - c_quot doe 1460 + c_quot doe 36524 - c_quot doe 146096) 365;
          doy = doe - (365 * yoe + c_quot yoe 4 - c_quot yoe 100);
          mp = c_quot (5 * doy + 2) 153;
          dy = doy - c_quot (153 * mp + 2) 5 + 1;
          mon = (if mp \<ge> 10 then mp - 9 else mp + 3);
          yr = (if mp \<ge> 10 then yoe + era * 400 + 1 else yoe + era * 400)
      in \<lparr>year = yr, month = mon, day = dy, hour = c_quot rest 3600, minute = c_quot (c_rem rest 3600) 60, sec = c_rem rest 60\<rparr>)"

definition days_in_month :: "int \<Rightarrow> int \<Rightarrow> int" where
  "days_in_month y m =
     (if m = 2 then (if c_rem y 4 = 0 \<and> (c_rem y 100 \<noteq> 0 \<or> c_rem y 400 = 0) then 29 else 28)
      else if m = 4 \<or> m = 6 \<or> m = 9 \<or> m = 11 then 30 else 31)"

definition days_from_civil :: "int \<Rightarrow> int \<Rightarrow> int \<Rightarrow> int" where
  "days_from_civil yr mon dy =
     (let y = (if mon \<le> 2 then yr - 1 else yr);
          shifted = (if mon \<le> 2 then mon + 9 else mon - 3);
          era = kod_floor_div y 400;
          yoe = y - era * 400;
          doy = c_quot (153 * shifted + 2) 5 + dy - 1;
          doe = yoe * 365 + c_quot yoe 4 - c_quot yoe 100 + doy
      in era * 146097 + doe - 719468)"

definition time_now :: "int \<Rightarrow> Time" where
  "time_now n = \<lparr>seconds = c_quot n 1000000000, nanos = c_rem n 1000000000\<rparr>"

section \<open>Division\<close>

lemma div_by: "0 < b \<Longrightarrow> b * q \<le> a \<Longrightarrow> a < b * q + b \<Longrightarrow> a div b = (q :: int)"
  by (rule int_div_pos_eq [of a b q "a - b * q"]) simp_all

lemma c_quot_div: "0 < b \<Longrightarrow> a div b = c_quot a b - (if c_rem a b < 0 then 1 else 0)"
  using c_rem_bounds [of b a] by (intro div_by) (auto simp: c_rem_def algebra_simps)

lemma floor_div_div: "in64 a \<Longrightarrow> 1 < b \<Longrightarrow> kod_floor_div a b = a div b"
proof -
  assume a: "in64 a" "1 < b"
  have "\<bar>a\<bar> div b \<le> \<bar>a\<bar> div 2" using a(2) by (intro zdiv_mono2) auto
  then have "in64 (c_quot a b - 1)" using c_quot_abs_le [of b a] a by (auto simp: range_simps)
  then show ?thesis using c_quot_div [of b a] a(2) by (simp add: kod_floor_div_def Let_def w64_id)
qed

lemma c_rem_0_iff: "0 < b \<Longrightarrow> c_rem a b = 0 \<longleftrightarrow> a mod b = 0"
proof (cases "0 \<le> a")
  case False
  assume b: "0 < b"
  have "c_rem a b = - (- a mod b)" using c_rem_neg [OF b, of "- a"] c_rem_nonneg [of "- a" b] False b by simp
  then show ?thesis using pos_mod_bound [OF b, of a] by (simp add: zmod_zminus1_eq_if)
qed (simp add: c_rem_nonneg)

section \<open>The calendar\<close>

type_synonym date = "int \<times> int \<times> int"

definition valid_date :: "date \<Rightarrow> bool" where
  "valid_date = (\<lambda>(y, m, d). 1 \<le> m \<and> m \<le> 12 \<and> 1 \<le> d \<and> d \<le> days_in_month y m)"

definition next_date :: "date \<Rightarrow> date" where
  "next_date = (\<lambda>(y, m, d). if d < days_in_month y m then (y, m, d + 1) else if m < 12 then (y, m + 1, 1) else (y + 1, 1, 1))"

definition prev_date :: "date \<Rightarrow> date" where
  "prev_date = (\<lambda>(y, m, d). if 1 < d then (y, m, d - 1)
     else if 1 < m then (y, m - 1, days_in_month y (m - 1)) else (y - 1, 12, 31))"

text \<open>The date of a day by counting from the epoch.\<close>

definition date_of_day :: "int \<Rightarrow> date" where
  "date_of_day n = (if 0 \<le> n then (next_date ^^ nat n) (1970, 1, 1) else (prev_date ^^ nat (- n)) (1970, 1, 1))"

definition leap :: "int \<Rightarrow> bool" where
  "leap y \<longleftrightarrow> y mod 4 = 0 \<and> (y mod 100 \<noteq> 0 \<or> y mod 400 = 0)"

lemma days_in_month_leap: "days_in_month y m = (if m = 2 then (if leap y then 29 else 28) else if m = 4 \<or> m = 6 \<or> m = 9 \<or> m = 11 then 30 else 31)"
  by (simp add: days_in_month_def leap_def c_rem_0_iff)

text \<open>Days before the March of a year, and before a month counted from March.\<close>

definition year_days :: "int \<Rightarrow> int" where
  "year_days y = 365 * y + y div 4 - y div 100 + y div 400"

definition month_days :: "int \<Rightarrow> int" where
  "month_days k = (153 * k + 2) div 5"

definition day_number :: "date \<Rightarrow> int" where
  "day_number = (\<lambda>(y, m, d). (if m \<le> 2 then year_days (y - 1) + month_days (m + 9) else year_days y + month_days (m - 3)) + d - 719469)"

lemma year_days_Suc: "year_days y - year_days (y - 1) = 365 + (if leap y then 1 else 0)"
proof -
  have s: "y div b - (y - 1) div b = (if y mod b = 0 then 1 else 0)" if "0 < b" for b :: int
  proof (cases "y mod b = 0")
    case True
    then have "(y - 1) div b = y div b - 1" using that minus_mod_eq_mult_div [of y b] by (intro div_by) (auto simp: algebra_simps)
    then show ?thesis using True by simp
  next
    case False
    then have "0 < y mod b" "y mod b < b" using that pos_mod_sign [of b y] pos_mod_bound [of b y] by linarith+
    then have "(y - 1) div b = y div b" using that mult_div_mod_eq [of b y] by (intro div_by) linarith+
    then show ?thesis using False by simp
  qed
  have m: "y mod 400 = 0 \<Longrightarrow> y mod 100 = 0" "y mod 100 = 0 \<Longrightarrow> y mod 4 = 0"
    using mod_mod_cancel [of 100 400 y] mod_mod_cancel [of 4 100 y] by simp_all
  have lin: "365 * y + a - b + c - (365 * (y - 1) + a' - b' + c') = 365 + (a - a') - (b - b') + (c - c')" for a a' b b' c c' :: int by simp
  have e: "year_days y - year_days (y - 1) =
      365 + (if y mod 4 = 0 then 1 else 0) - (if y mod 100 = 0 then 1 else 0) + (if y mod 400 = 0 then 1 else 0)"
    unfolding year_days_def lin s [of 4, OF zero_less_numeral] s [of 100, OF zero_less_numeral] s [of 400, OF zero_less_numeral] ..
  have "(r \<Longrightarrow> q) \<Longrightarrow> (q \<Longrightarrow> p) \<Longrightarrow> 365 + (if p then 1 else 0) - (if q then 1 else 0) + (if r then 1 else 0) = 365 + (if p \<and> (\<not> q \<or> r) then 1 else 0 :: int)" for p q r
    by (cases p; cases q; cases r) simp_all
  from this [OF m] show ?thesis unfolding e leap_def .
qed

lemma months: "1 \<le> m \<Longrightarrow> m \<le> 12 \<Longrightarrow> m \<in> {1, 2, 3, 4, 5, 6, 7, 8, 9, 10, 11, 12 :: int}"
  unfolding insert_iff empty_iff by presburger

lemma next_date_valid: "valid_date x \<Longrightarrow> valid_date (next_date x)"
  by (auto simp: valid_date_def next_date_def days_in_month_leap split: if_splits)

lemma day_number_next: "valid_date x \<Longrightarrow> day_number (next_date x) = day_number x + 1"
proof -
  assume v: "valid_date x"
  obtain y m d where x: "x = (y, m, d)" by (cases x)
  show ?thesis
  proof (cases "d < days_in_month y m")
    case True
    then show ?thesis by (simp add: x next_date_def day_number_def)
  next
    case False
    then have d: "d = days_in_month y m" using v by (simp add: x valid_date_def)
    have "m \<in> {1, 2, 3, 4, 5, 6, 7, 8, 9, 10, 11, 12}" using v by (intro months) (simp_all add: x valid_date_def)
    then show ?thesis using year_days_Suc [of y] d
      by (auto simp: x next_date_def day_number_def month_days_def days_in_month_leap)
  qed
qed

lemma prev_date_valid: "valid_date x \<Longrightarrow> valid_date (prev_date x)"
  by (auto simp: valid_date_def prev_date_def days_in_month_leap split: if_splits)

lemma next_prev: "valid_date x \<Longrightarrow> next_date (prev_date x) = x"
  by (auto simp: valid_date_def prev_date_def next_date_def days_in_month_leap split: if_splits)

lemma day_number_prev: "valid_date x \<Longrightarrow> day_number (prev_date x) = day_number x - 1"
  using day_number_next [OF prev_date_valid, of x] next_prev [of x] by simp

lemma date_of_day_number: "valid_date (date_of_day n) \<and> day_number (date_of_day n) = n"
proof -
  have e: "valid_date (1970, 1, 1)" "day_number (1970, 1, 1) = 0"
    by (simp_all add: valid_date_def days_in_month_leap day_number_def year_days_def month_days_def)
  have "valid_date ((next_date ^^ k) (1970, 1, 1)) \<and> day_number ((next_date ^^ k) (1970, 1, 1)) = int k" for k
    using e by (induction k) (simp_all add: next_date_valid day_number_next)
  moreover have "valid_date ((prev_date ^^ k) (1970, 1, 1)) \<and> day_number ((prev_date ^^ k) (1970, 1, 1)) = - int k" for k
    using e by (induction k) (simp_all add: prev_date_valid day_number_prev)
  ultimately show ?thesis by (simp add: date_of_day_def)
qed

section \<open>Hinnant's algorithms\<close>

text \<open>The year of an era from the day of the era.\<close>

lemma year_of_era:
  fixes yoe doy :: int
  assumes "0 \<le> yoe" and "yoe < 400" and "0 \<le> doy" and "doy \<le> 365" and "doy = 365 \<Longrightarrow> leap (yoe + 1)"
  defines "doe \<equiv> 365 * yoe + yoe div 4 - yoe div 100 + doy"
  shows "(doe - doe div 1460 + doe div 36524 - doe div 146096) div 365 = yoe"
proof -
  define c q k where "c = yoe div 100" and "q = yoe mod 100 div 4" and "k = yoe mod 100 mod 4"
  have ck: "0 \<le> c" "c \<le> 3" "0 \<le> q" "q \<le> 24" "0 \<le> k" "k \<le> 3" using assms(1,2) unfolding c_def q_def k_def by linarith+
  have y: "yoe = 100 * c + 4 * q + k" by (simp add: c_def q_def k_def)
  have q4: "yoe div 4 = 25 * c + q" unfolding y using ck by (intro div_by) (simp_all add: algebra_simps)
  have "doe = 365 * (100 * c + 4 * q + k) + (25 * c + q) - c + doy" unfolding doe_def q4 c_def [symmetric] y [symmetric] ..
  then have doe: "doe = 36524 * c + 1461 * q + 365 * k + doy" by simp
  have last: "doy \<le> 364 \<or> k = 3 \<and> (q \<le> 23 \<or> c = 3)"
  proof (cases "doy = 365")
    case True
    then have l: "leap (100 * c + 4 * q + k + 1)" using assms(5) y by simp
    then have "(100 * c + 4 * q + k + 1) mod 4 = 0" by (simp add: leap_def)
    then have "k = 3" using ck by presburger
    moreover have "q \<le> 23 \<or> c = 3"
    proof (rule ccontr)
      assume "\<not> (q \<le> 23 \<or> c = 3)"
      then have "100 * c + 4 * q + k + 1 = 100 * (c + 1)" "c = 0 \<or> c = 1 \<or> c = 2" using ck \<open>k = 3\<close> by auto
      then have "\<not> leap (100 * c + 4 * q + k + 1)" by (elim disjE) (simp_all only: leap_def, simp_all)
      with l show False by simp
    qed
    ultimately show ?thesis by simp
  qed (use assms(4) in linarith)
  have century: "doe div 36524 - doe div 146096 = c"
  proof (cases "doe = 146096")
    case True
    then have "c = 3" using doe ck last assms(3,4) by linarith
    with True show ?thesis by simp
  next
    case False
    then have "doe < 36524 * c + 36524" using doe ck last assms(4) by linarith
    moreover have "36524 * c \<le> doe" using doe ck assms(3) by linarith
    ultimately have "doe div 36524 = c" "doe div 146096 = 0" using ck by (auto intro!: div_by)
    then show ?thesis by simp
  qed
  define e where "e = 24 * c + q + 365 * k + doy"
  have "doe div 1460 = 25 * c + q + (if 1460 \<le> e then 1 else 0)"
    using doe ck assms(3,4) by (intro div_by) (auto simp: e_def)
  then have "doe - doe div 1460 + doe div 36524 - doe div 146096 = 365 * yoe + (doy - (if 1460 \<le> e then 1 else 0))"
    using century doe y by simp
  moreover have "0 \<le> doy - (if 1460 \<le> e then 1 else 0)" "doy - (if 1460 \<le> e then 1 else 0) < 365"
    using ck last assms(3,4) by (auto simp: e_def)
  ultimately show ?thesis by (intro div_by) linarith+
qed

text \<open>Month and day from the day of a year that starts in March.\<close>

lemma month_of_year:
  assumes "0 \<le> k" and "k \<le> 11" and "1 \<le> d" and "d \<le> (if k < 11 then month_days (k + 1) - month_days k else 29)"
  shows "(5 * (month_days k + d - 1) + 2) div 153 = k"
proof -
  have "k \<in> {0, 1, 2, 3, 4, 5, 6, 7, 8, 9, 10, 11}" using assms(1,2) unfolding insert_iff empty_iff by presburger
  then show ?thesis using assms(3,4) by (intro div_by) (auto simp: month_days_def)
qed

lemma valid_march:
  assumes "valid_date (y, m, d)"
  obtains z k where "0 \<le> k" "k \<le> 11" "1 \<le> d" "d \<le> (if k < 11 then month_days (k + 1) - month_days k else 29)"
    "k = 11 \<and> d = 29 \<Longrightarrow> leap (z + 1)" "day_number (y, m, d) = year_days z + month_days k + d - 719469"
    "m = (if k \<ge> 10 then k - 9 else k + 3)" "y = (if k \<ge> 10 then z + 1 else z)" "z = (if m \<le> 2 then y - 1 else y)" "k = (if m \<le> 2 then m + 9 else m - 3)"
proof -
  have v: "1 \<le> m" "m \<le> 12" "1 \<le> d" "d \<le> days_in_month y m" using assms by (simp_all add: valid_date_def)
  define z k where "z = (if m \<le> 2 then y - 1 else y)" and "k = (if m \<le> 2 then m + 9 else m - 3)"
  have "m \<in> {1, 2, 3, 4, 5, 6, 7, 8, 9, 10, 11, 12}" using v by (intro months)
  then have "d \<le> (if k < 11 then month_days (k + 1) - month_days k else 29)"
    using v(4) by (auto simp: k_def month_days_def days_in_month_leap split: if_splits)
  moreover have "leap (z + 1)" if "k = 11 \<and> d = 29"
    using that v by (auto simp: k_def z_def days_in_month_leap split: if_splits)
  moreover have "0 \<le> k" "k \<le> 11" "m = (if k \<ge> 10 then k - 9 else k + 3)" "y = (if k \<ge> 10 then z + 1 else z)"
    using v by (simp_all add: k_def z_def)
  moreover have "day_number (y, m, d) = year_days z + month_days k + d - 719469" by (simp add: day_number_def k_def z_def)
  ultimately show ?thesis using that [of k z] v(3) z_def k_def by blast
qed

lemma year_days_era:
  fixes z :: int
  defines "era \<equiv> z div 400" and "yoe \<equiv> z mod 400"
  shows "year_days z = 146097 * era + (365 * yoe + yoe div 4 - yoe div 100)"
proof -
  have z: "z = 400 * era + yoe" by (simp add: era_def yoe_def)
  have "z div 4 = 100 * era + yoe div 4" "z div 100 = 4 * era + yoe div 100" "z div 400 = era"
    unfolding z by (simp_all add: div_plus_div_distrib_dvd_left yoe_def)
  then show ?thesis unfolding year_days_def by (subst z) simp
qed

text \<open>The two conversions are inverse to each other.\<close>

lemma utc_of_day:
  assumes "valid_date (y, m, d)" and "n = day_number (y, m, d)"
  defines "era \<equiv> (n + 719468) div 146097"
  defines "doe \<equiv> n + 719468 - era * 146097"
  defines "yoe \<equiv> (doe - doe div 1460 + doe div 36524 - doe div 146096) div 365"
  defines "doy \<equiv> doe - (365 * yoe + yoe div 4 - yoe div 100)"
  defines "mp \<equiv> (5 * doy + 2) div 153"
  shows "0 \<le> doe" and "0 \<le> yoe" and "0 \<le> doy" and "0 \<le> mp" and "doe - doe div 1460 + doe div 36524 - doe div 146096 \<ge> 0"
    and "m = (if mp \<ge> 10 then mp - 9 else mp + 3)" and "d = doy - month_days mp + 1"
    and "y = (if mp \<ge> 10 then yoe + era * 400 + 1 else yoe + era * 400)"
proof -
  obtain z k where zk: "0 \<le> k" "k \<le> 11" "1 \<le> d" "d \<le> (if k < 11 then month_days (k + 1) - month_days k else 29)"
    "k = 11 \<and> d = 29 \<Longrightarrow> leap (z + 1)" "day_number (y, m, d) = year_days z + month_days k + d - 719469"
    "m = (if k \<ge> 10 then k - 9 else k + 3)" "y = (if k \<ge> 10 then z + 1 else z)"
    "z = (if m \<le> 2 then y - 1 else y)" "k = (if m \<le> 2 then m + 9 else m - 3)"
    by (rule valid_march [OF assms(1)]) (rule that)
  let ?e = "z div 400" and ?r = "z mod 400" and ?d = "month_days k + d - 1"
  have k: "k \<in> {0, 1, 2, 3, 4, 5, 6, 7, 8, 9, 10, 11}" using zk(1,2) unfolding insert_iff empty_iff by presburger
  have d: "0 \<le> ?d" "?d \<le> 365" "?d = 365 \<Longrightarrow> k = 11 \<and> d = 29" using k zk(3,4) by (auto simp: month_days_def)
  have l: "?d = 365 \<Longrightarrow> leap (?r + 1)"
  proof -
    assume "?d = 365"
    then have "leap (z + 1)" using d(3) zk(5) by blast
    moreover have "(z + 1) mod b = (?r + 1) mod b" if "b dvd 400" for b using that by (metis mod_add_left_eq mod_mod_cancel)
    ultimately show ?thesis by (simp add: leap_def)
  qed
  have r: "0 \<le> ?r" "?r < 400" by simp_all
  have q: "0 \<le> ?r div 4" "?r div 4 \<le> 99" "0 \<le> ?r div 100" "?r div 100 \<le> 3" "?r div 100 \<le> ?r div 4" using r by (auto intro: zdiv_mono2)
  let ?o = "365 * ?r + ?r div 4 - ?r div 100 + ?d"
  have n: "n + 719468 = 146097 * ?e + ?o" using year_days_era [of z] zk(6) assms(2) by simp
  have o: "0 \<le> ?o" "?o < 146097" using r q d(1,2) by linarith+
  have era: "era = ?e" unfolding era_def n using o by (intro div_by) simp_all
  have doe: "doe = ?o" unfolding doe_def n era by simp
  have yoe: "yoe = ?r" unfolding yoe_def doe by (rule year_of_era [OF r d(1,2) l])
  have doy: "doy = ?d" unfolding doy_def doe yoe by simp
  have mp: "mp = k" unfolding mp_def doy using month_of_year [OF zk(1-4)] by (simp add: algebra_simps)
  show "0 \<le> doe" unfolding doe by (rule o(1))
  show "0 \<le> doy" unfolding doy by (rule d(1))
  show "0 \<le> mp" unfolding mp by (rule zk(1))
  show "0 \<le> yoe" unfolding yoe by (rule r(1))
  then show "doe - doe div 1460 + doe div 36524 - doe div 146096 \<ge> 0" unfolding yoe_def by (simp only: pos_imp_zdiv_nonneg_iff zero_less_numeral)
  show "m = (if mp \<ge> 10 then mp - 9 else mp + 3)" "d = doy - month_days mp + 1" using zk(7) by (simp_all add: mp doy)
  show "y = (if mp \<ge> 10 then yoe + era * 400 + 1 else yoe + era * 400)" unfolding mp yoe era using zk(8) by simp
qed

lemma days_from_civil_number:
  assumes "\<bar>y\<bar> < 10 ^ 15" and "1 \<le> m"
  shows "days_from_civil y m d = day_number (y, m, d)"
proof -
  define z k where "z = (if m \<le> 2 then y - 1 else y)" and "k = (if m \<le> 2 then m + 9 else m - 3)"
  have "kod_floor_div z 400 = z div 400" using assms(1) by (intro floor_div_div) (auto simp: z_def range_simps)
  then have f: "kod_floor_div z 400 = z div 400" "z - z div 400 * 400 = z mod 400" by (simp_all add: minus_div_mult_eq_mod)
  have k: "0 \<le> k" using assms(2) by (simp add: k_def)
  have "days_from_civil y m d = z div 400 * 146097 + (z mod 400 * 365 + z mod 400 div 4 - z mod 400 div 100 + (month_days k + d - 1)) - 719468"
    unfolding days_from_civil_def Let_def z_def [symmetric] k_def [symmetric] f using k
    by (simp add: c_quot_nonneg month_days_def)
  also have "\<dots> = year_days z + month_days k + d - 719469" using year_days_era [of z] by simp
  also have "\<dots> = day_number (y, m, d)" by (simp add: day_number_def z_def k_def)
  finally show ?thesis .
qed

lemma day_bound: "in64 s \<Longrightarrow> \<bar>s div 86400\<bar> \<le> 10 ^ 15"
  using zdiv_mono1 [of "- 9223372036854775808" s 86400] zdiv_mono1 [of s 9223372036854775807 86400] by (simp add: range_simps)

lemma year_bound:
  assumes "valid_date (y, m, d)" and "\<bar>day_number (y, m, d)\<bar> \<le> 10 ^ 15"
  shows "\<bar>y\<bar> < 10 ^ 14"
proof -
  obtain z k where zk: "0 \<le> k" "k \<le> 11" "1 \<le> d" "d \<le> (if k < 11 then month_days (k + 1) - month_days k else 29)"
    "k = 11 \<and> d = 29 \<Longrightarrow> leap (z + 1)" "day_number (y, m, d) = year_days z + month_days k + d - 719469"
    "m = (if k \<ge> 10 then k - 9 else k + 3)" "y = (if k \<ge> 10 then z + 1 else z)"
    "z = (if m \<le> 2 then y - 1 else y)" "k = (if m \<le> 2 then m + 9 else m - 3)"
    by (rule valid_march [OF assms(1)]) (rule that)
  have k: "k \<in> {0, 1, 2, 3, 4, 5, 6, 7, 8, 9, 10, 11}" using zk(1,2) unfolding insert_iff empty_iff by presburger
  then have md: "0 \<le> month_days k + d" "month_days k + d \<le> 366" using zk(3,4) by (auto simp: month_days_def)
  have "\<bar>z\<bar> < 10 ^ 13"
  proof (cases "0 \<le> z")
    case True
    then have "z div 100 \<le> z div 4" "0 \<le> z div 400" by (auto intro: zdiv_mono2)
    then have "365 * z \<le> year_days z" by (simp add: year_days_def)
    then show ?thesis using True zk(6) assms(2) md by simp
  next
    case False
    then have "z div 4 \<le> z div 100" "z div 400 \<le> 0" by (auto intro: zdiv_mono2_neg simp: div_nonpos_pos_le0)
    then have "year_days z \<le> 365 * z" by (simp add: year_days_def)
    then show ?thesis using False zk(6) assms(2) md by simp
  qed
  then show ?thesis using zk(8) by auto
qed

lemma utc_date:
  assumes "in64 (seconds t)"
  shows "(year (utc t), month (utc t), day (utc t)) = date_of_day (seconds t div 86400)"
    and "hour (utc t) = seconds t mod 86400 div 3600" and "minute (utc t) = seconds t mod 86400 mod 3600 div 60"
    and "sec (utc t) = seconds t mod 86400 mod 60"
proof -
  define n where "n = seconds t div 86400"
  obtain y m d where dt: "date_of_day n = (y, m, d)" by (cases "date_of_day n")
  then have v: "valid_date (y, m, d)" "n = day_number (y, m, d)" using date_of_day_number [of n] by simp_all
  note f = utc_of_day [OF v]
  have days: "kod_floor_div (seconds t) 86400 = n" using floor_div_div [OF assms] by (simp add: n_def)
  have nb: "\<bar>n\<bar> \<le> 10 ^ 15" unfolding n_def by (rule day_bound [OF assms])
  have era: "kod_floor_div (n + 719468) 146097 = (n + 719468) div 146097" using nb by (intro floor_div_div) (auto simp: range_simps)
  have rest: "w64 (seconds t - w64 (n * 86400)) = seconds t mod 86400"
  proof -
    have "w64 (seconds t - w64 (n * 86400)) = w64 (seconds t - n * 86400)" by (rule w64_absorb)
    also have "seconds t - n * 86400 = seconds t mod 86400" by (simp add: n_def minus_div_mult_eq_mod)
    also have "w64 (seconds t mod 86400) = seconds t mod 86400" by (rule w64_id) (simp add: range_simps, linarith)
    finally show ?thesis .
  qed
  define e where "e = (n + 719468) div 146097"
  define doe where "doe = n + 719468 - e * 146097"
  define yoe where "yoe = (doe - doe div 1460 + doe div 36524 - doe div 146096) div 365"
  define doy where "doy = doe - (365 * yoe + yoe div 4 - yoe div 100)"
  define mp where "mp = (5 * doy + 2) div 153"
  note g = f [folded e_def, folded doe_def, folded yoe_def, folded doy_def, folded mp_def]
  have c: "c_quot doe k = doe div k" "c_quot yoe k = yoe div k" if "0 < k" for k using that g(1,2) by (simp_all add: c_quot_nonneg)
  have y: "c_quot (doe - doe div 1460 + doe div 36524 - doe div 146096) 365 = yoe" unfolding yoe_def by (rule c_quot_nonneg [OF g(5)]) simp
  have m: "c_quot (5 * doy + 2) 153 = mp" "c_quot (153 * mp + 2) 5 = month_days mp"
    unfolding mp_def month_days_def by (rule c_quot_nonneg; use g(3,4) mp_def in simp)+
  show "(year (utc t), month (utc t), day (utc t)) = date_of_day (seconds t div 86400)"
    unfolding n_def [symmetric] dt utc_def Let_def days era e_def [symmetric] doe_def [symmetric] c [OF zero_less_numeral] y doy_def [symmetric] m
    using g(6-8) by simp
  have "c_quot (seconds t mod 86400) 3600 = seconds t mod 86400 div 3600" "c_rem (seconds t mod 86400) 60 = seconds t mod 86400 mod 60"
    "c_quot (c_rem (seconds t mod 86400) 3600) 60 = seconds t mod 86400 mod 3600 div 60"
    by (simp_all add: c_quot_nonneg c_rem_nonneg)
  then show "hour (utc t) = seconds t mod 86400 div 3600" "minute (utc t) = seconds t mod 86400 mod 3600 div 60"
    "sec (utc t) = seconds t mod 86400 mod 60"
    unfolding utc_def Let_def days rest Utc.simps by (simp_all only:)
qed

text \<open>
  C36. \<open>Time.utc\<close> is the Gregorian calendar for every \<open>int64\<close> moment, before 1970 as after it: the date is the one reached
  from 1 January 1970 by counting the days one by one with the lengths of the months and the leap years, and hour,
  minute and second are those of the rest of the day. \<open>_days_from_civil\<close> is its inverse: it numbers that date with the day.
\<close>

theorem utc_counts_days:
  assumes "in64 (seconds t)"
  shows "let (y, m, d) = date_of_day (seconds t div 86400); r = seconds t mod 86400 in
     utc t = \<lparr>year = y, month = m, day = d, hour = r div 3600, minute = r mod 3600 div 60, sec = r mod 60\<rparr>
     \<and> valid_date (y, m, d) \<and> days_from_civil y m d = seconds t div 86400"
proof -
  obtain y m d where dt: "date_of_day (seconds t div 86400) = (y, m, d)" by (cases "date_of_day (seconds t div 86400)")
  then have v: "valid_date (y, m, d)" "day_number (y, m, d) = seconds t div 86400"
    using date_of_day_number [of "seconds t div 86400"] by simp_all
  have "\<bar>y\<bar> < 10 ^ 14" by (rule year_bound [OF v(1)]) (simp only: v(2) day_bound [OF assms])
  then have "days_from_civil y m d = seconds t div 86400"
    using v days_from_civil_number [of y m d] by (simp add: valid_date_def)
  moreover have "utc t = \<lparr>year = y, month = m, day = d, hour = seconds t mod 86400 div 3600,
      minute = seconds t mod 86400 mod 3600 div 60, sec = seconds t mod 86400 mod 60\<rparr>"
    using utc_date [OF assms] unfolding dt by (intro Utc.equality) ((simp only: prod.inject Utc.simps; fail) | simp)+
  ultimately show ?thesis using v(1) unfolding dt Let_def prod.case by blast
qed

theorem utc_counts_days_witness:
  "utc \<lparr>seconds = 86399, nanos = 0\<rparr> = \<lparr>year = 1970, month = 1, day = 1, hour = 23, minute = 59, sec = 59\<rparr>"
proof -
  have d: "date_of_day (86399 div 86400) = (1970, 1, 1)" by (simp add: date_of_day_def)
  have "in64 (seconds \<lparr>seconds = 86399, nanos = 0\<rparr>)" by (simp add: range_simps)
  from utc_counts_days [OF this] show ?thesis unfolding Time.simps d Let_def prod.case by simp
qed

section \<open>Arithmetic\<close>

lemma small_mod: "w64 (a mod 1000000000) = a mod 1000000000"
proof (rule w64_id)
  have "0 \<le> a mod 1000000000" "a mod 1000000000 < 1000000000" by simp_all
  then show "in64 (a mod 1000000000)" unfolding range_simps by linarith
qed

text \<open>Adding the difference of two moments to one of them gives the other.\<close>

lemma time_add_sub:
  assumes "in64 (seconds t)" and "0 \<le> nanos t" "nanos t < 1000000000" and "0 \<le> nanos u" "nanos u < 1000000000" and "in64 (seconds u)"
    and "in64 ((seconds u - seconds t) * 1000000000 + nanos u - nanos t)"
  shows "time_add t (time_sub u t) = u"
proof -
  let ?d = "(seconds u - seconds t) * 1000000000 + nanos u - nanos t"
  let ?w = "?d div 1000000000"
  have d: "ns (time_sub u t) = ?d" using assms(7) by (simp add: time_sub_def w64_id algebra_simps)
  have f: "kod_floor_div ?d 1000000000 = ?w" using floor_div_div [OF assms(7)] by simp
  have m: "w64 (?d - w64 (?w * 1000000000)) = ?d mod 1000000000"
    unfolding w64_absorb minus_div_mult_eq_mod by (rule small_mod)
  show ?thesis
  proof (cases "nanos t \<le> nanos u")
    case True
    then have "?w = seconds u - seconds t" using assms(2-5) by (intro div_by) simp_all
    moreover have "?d mod 1000000000 = nanos u - nanos t" unfolding minus_div_mult_eq_mod [of ?d 1000000000, symmetric] \<open>?w = _\<close> by (simp add: algebra_simps)
    ultimately show ?thesis using assms True unfolding time_add_def Let_def d f m by (simp add: w64_id range_simps)
  next
    case False
    then have "?w = seconds u - seconds t - 1" using assms(2-5) by (intro div_by) simp_all
    moreover have "?d mod 1000000000 = nanos u - nanos t + 1000000000" unfolding minus_div_mult_eq_mod [of ?d 1000000000, symmetric] \<open>?w = _\<close> by (simp add: algebra_simps)
    ultimately show ?thesis using assms False unfolding time_add_def Let_def d f m by (simp add: w64_id range_simps)
  qed
qed

text \<open>
  Three values for which the code does not do what it documents: the shortest duration prints two signs, a duration
  close to the longest rounds up to a negative timeout, and a clock before 1970 makes a moment with negative nanoseconds.
\<close>

lemma duration_to_str_min: "duration_to_str \<lparr>ns = - 9223372036854775808\<rparr> = bytes_of ''--9223372036854775808ns''"
proof -
  have "w64 (0 - - 9223372036854775808) = - 9223372036854775808" by (simp add: w64_def)
  moreover have "dec_nat 9223372036854775808 = bytes_of ''9223372036854775808''"
    by (simp add: dec_nat_step dec_nat_digit bytes_of_def of_char_def)
  ultimately show ?thesis by (simp add: duration_to_str_def Let_def int64_to_str_dec dec_int_def bytes_of_def of_char_def)
qed

lemma ceil_ms_negative: "ceil_ms \<lparr>ns = 9223372036854775807\<rparr> = - 9223372036853"
  by (simp add: ceil_ms_def w64_def c_quot_def)

lemma time_now_negative: "time_now (- 1) = \<lparr>seconds = 0, nanos = - 1\<rparr>"
  by (simp add: time_now_def c_quot_def c_rem_def)

end
