(* ===== verification/Kod_Timestamp.thy ===== *)
theory Kod_Timestamp
  imports Kod_Time
begin

text \<open>
  RFC 3339 timestamps of \<open>src/stdlib/time.kod\<close>: \<open>Time.to_str\<close>, \<open>parse\<close> and \<open>parse_date\<close>. A Kod optional is an option;
  there is another option around it, whose \<open>None\<close> is an index out of range.
\<close>

section \<open>Definitions\<close>

definition pad_int :: "int \<Rightarrow> int \<Rightarrow> byte list" where
  "pad_int n width =
     (let t = int64_to_str n in
      if int (length t) \<ge> width then t else str_repeat (bytes_of ''0'') (width - int (length t)) @ t)"

partial_function (option) fraction_loop :: "byte list \<Rightarrow> int \<Rightarrow> int option" where
  "fraction_loop digits end = do {
     b \<leftarrow> kod_at digits (end - 1);
     if b = 48 then fraction_loop digits (end - 1) else Some end
   }"

definition fraction_str :: "int \<Rightarrow> byte list option" where
  "fraction_str n =
     (if n > 0 then do {
        let digits = pad_int n 9;
        e \<leftarrow> fraction_loop digits (int (length digits));
        Some (bytes_of ''.'' @ kod_slice digits 0 e)
      } else Some [])"

definition time_to_str :: "Time \<Rightarrow> byte list option" where
  "time_to_str t = do {
     let u = utc t;
     fraction \<leftarrow> fraction_str (nanos t);
     Some (pad_int (year u) 4 @ bytes_of ''-'' @ pad_int (month u) 2 @ bytes_of ''-'' @ pad_int (day u) 2 @ bytes_of ''T'' @
       pad_int (hour u) 2 @ bytes_of '':'' @ pad_int (minute u) 2 @ bytes_of '':'' @ pad_int (sec u) 2 @ fraction @ bytes_of ''Z'')
   }"

fun digits_loop :: "byte list \<Rightarrow> int \<Rightarrow> nat \<Rightarrow> int \<Rightarrow> int option option" where
  "digits_loop s i 0 n = Some (Some n)"
| "digits_loop s i (Suc k) n = do {
     b \<leftarrow> kod_at s i;
     if uint b < 48 \<or> uint b > 57 then Some None
     else digits_loop s (i + 1) k (n * 10 + (uint b - 48))
   }"

definition digits_at :: "byte list \<Rightarrow> int \<Rightarrow> nat \<Rightarrow> int option option" where
  "digits_at s at count = digits_loop s at count 0"

definition parse_date :: "byte list \<Rightarrow> Time option option" where
  "parse_date s =
     (if length s \<noteq> 10 then Some None
      else do {
        c4 \<leftarrow> kod_at s 4;
        c7 \<leftarrow> kod_at s 7;
        if c4 \<noteq> 45 \<or> c7 \<noteq> 45 then Some None
        else do {
          y \<leftarrow> digits_at s 0 4;
          case y of None \<Rightarrow> Some None | Some y \<Rightarrow> do {
            m \<leftarrow> digits_at s 5 2;
            case m of None \<Rightarrow> Some None | Some m \<Rightarrow> do {
              d \<leftarrow> digits_at s 8 2;
              case d of None \<Rightarrow> Some None | Some d \<Rightarrow>
                if m < 1 \<or> m > 12 \<or> d < 1 \<or> d > days_in_month y m then Some None
                else Some (Some \<lparr>seconds = days_from_civil y m d * 86400, nanos = 0\<rparr>)
            }
          }
        }
      })"

text \<open>The fraction of \<open>parse\<close>: the digits from \<open>i\<close> on.\<close>

function fraction_digits :: "byte list \<Rightarrow> nat \<Rightarrow> int \<Rightarrow> int \<Rightarrow> nat \<times> int" where
  "fraction_digits s i n scale =
     (if i < length s \<and> uint (s ! i) \<ge> 48 \<and> uint (s ! i) \<le> 57
      then fraction_digits s (Suc i) (n + (uint (s ! i) - 48) * scale) (c_quot scale 10)
      else (i, n))"
  by pat_completeness auto

termination by (relation "measure (\<lambda>(s, i, n, scale). length s - i)") auto

declare fraction_digits.simps [simp del]

text \<open>The zone of \<open>parse\<close> from \<open>i\<close> on: the offset and the index behind it.\<close>

definition parse_zone :: "byte list \<Rightarrow> nat \<Rightarrow> (int \<times> nat) option option" where
  "parse_zone s i = do {
     c \<leftarrow> kod_at s (int i);
     if c = 90 \<or> c = 122 then Some (Some (0, i + 1))
     else if (c \<noteq> 43 \<and> c \<noteq> 45) \<or> length s \<noteq> i + 6 then Some None
     else do {
       c3 \<leftarrow> kod_at s (int i + 3);
       if c3 \<noteq> 58 then Some None
       else do {
         off_hour \<leftarrow> digits_at s (int i + 1) 2;
         case off_hour of None \<Rightarrow> Some None | Some off_hour \<Rightarrow> do {
           off_minute \<leftarrow> digits_at s (int i + 4) 2;
           case off_minute of None \<Rightarrow> Some None | Some off_minute \<Rightarrow>
             if off_hour > 23 \<or> off_minute > 59 then Some None
             else let offset = off_hour * 3600 + off_minute * 60
               in Some (Some (if c = 45 then 0 - offset else offset, i + 6))
         }
       }
     }
   }"

text \<open>\<open>parse\<close> from the fraction on, with the seconds of the date and the time of day read before it.\<close>

definition parse_rest :: "byte list \<Rightarrow> int \<Rightarrow> Time option option" where
  "parse_rest s secs = do {
     c \<leftarrow> kod_at s 19;
     let (i, n) = (if c = 46 then fraction_digits s 20 0 100000000 else (19, 0));
     if c = 46 \<and> i = 20 then Some None
     else if i \<ge> length s then Some None
     else do {
       z \<leftarrow> parse_zone s i;
       case z of None \<Rightarrow> Some None | Some (offset, i) \<Rightarrow>
         if i \<noteq> length s then Some None
         else Some (Some \<lparr>seconds = secs - offset, nanos = n\<rparr>)
     }
   }"

definition time_parse :: "byte list \<Rightarrow> Time option option" where
  "time_parse s =
     (if length s < 20 then Some None
      else do {
        c10 \<leftarrow> kod_at s 10;
        c13 \<leftarrow> kod_at s 13;
        c16 \<leftarrow> kod_at s 16;
        if (c10 \<noteq> 84 \<and> c10 \<noteq> 116) \<or> c13 \<noteq> 58 \<or> c16 \<noteq> 58 then Some None
        else do {
          date \<leftarrow> parse_date (kod_slice s 0 10);
          case date of None \<Rightarrow> Some None | Some date \<Rightarrow> do {
            h \<leftarrow> digits_at s 11 2;
            case h of None \<Rightarrow> Some None | Some h \<Rightarrow> do {
              m \<leftarrow> digits_at s 14 2;
              case m of None \<Rightarrow> Some None | Some m \<Rightarrow> do {
                sc \<leftarrow> digits_at s 17 2;
                case sc of None \<Rightarrow> Some None | Some sc \<Rightarrow>
                  if h > 23 \<or> m > 59 \<or> sc > 60 then Some None
                  else parse_rest s (seconds date + h * 3600 + m * 60 + sc)
              }
            }
          }
        }
      })"

section \<open>Reading digits\<close>

lemma digits_loop_read:
  "all_digits (take k (drop i s)) \<Longrightarrow> i + k \<le> length s \<Longrightarrow>
   digits_loop s (int i) k n = Some (Some (n * 10 ^ k + int (dec_val (take k (drop i s)))))"
proof (induction k arbitrary: i n)
  case (Suc k)
  then have i: "i < length s" by simp
  have t: "take (Suc k) (drop i s) = s ! i # take k (drop (Suc i) s)" using i by (simp add: take_Suc_Cons Cons_nth_drop_Suc [symmetric])
  have d: "is_digit (s ! i)" "all_digits (take k (drop (Suc i) s))" using Suc.prems(1) unfolding t by simp_all
  have r: "48 \<le> uint (s ! i)" "uint (s ! i) \<le> 57" using d(1) unfolding digit_range by linarith+
  have v: "uint (s ! i) - 48 = int (unat (s ! i) - 48)" using r(1) uint_nat [of "s ! i"] by linarith
  have l: "length (take k (drop (Suc i) s)) = k" using Suc.prems(2) by simp
  have c: "dec_val (take (Suc k) (drop i s)) = (unat (s ! i) - 48) * 10 ^ k + dec_val (take k (drop (Suc i) s))"
    unfolding t using dec_val_append [of "[s ! i]" "take k (drop (Suc i) s)"] l by (simp add: dec_val_def)
  have "digits_loop s (int i) (Suc k) n = digits_loop s (int (Suc i)) k (n * 10 + (uint (s ! i) - 48))"
    using i r by (simp add: add.commute)
  also have "\<dots> = Some (Some ((n * 10 + (uint (s ! i) - 48)) * 10 ^ k + int (dec_val (take k (drop (Suc i) s)))))"
    using Suc.prems(2) by (intro Suc.IH d(2)) simp
  finally have e: "digits_loop s (int i) (Suc k) n = Some (Some ((n * 10 + (uint (s ! i) - 48)) * 10 ^ k + int (dec_val (take k (drop (Suc i) s)))))" .
  show ?case unfolding e c v by (simp only: of_nat_add of_nat_mult of_nat_power of_nat_numeral power_Suc distrib_right mult.assoc add.assoc)
qed (simp add: dec_val_def)

section \<open>Writing digits\<close>

lemma dec_nat_fits: "n < 10 ^ Suc w \<Longrightarrow> length (dec_nat n) \<le> Suc w"
proof (induction w arbitrary: n)
  case 0
  then show ?case by (simp add: dec_nat_digit)
next
  case (Suc w)
  show ?case
  proof (cases "n < 10")
    case True
    then show ?thesis by (simp add: dec_nat_digit)
  next
    case False
    have "n div 10 < 10 ^ Suc w" using Suc.prems by (simp add: div_less_iff_less_mult mult.commute)
    then show ?thesis using Suc.IH [of "n div 10"] dec_nat_step [of n] False by simp
  qed
qed

lemma pad_int_digits:
  assumes "0 \<le> n" and "n < 10 ^ Suc w"
  defines "ds \<equiv> pad_int n (int (Suc w))"
  shows "length ds = Suc w" and "all_digits ds" and "int (dec_val ds) = n"
proof -
  have "nat n < 10 ^ Suc w" using assms(1,2) by (simp add: nat_less_iff)
  then have l: "length (dec_nat (nat n)) \<le> Suc w" by (rule dec_nat_fits)
  have c: "concat (replicate k [48]) = replicate k (48 :: byte)" for k by (induction k) simp_all
  have "ds = replicate (Suc w - length (dec_nat (nat n))) 48 @ dec_nat (nat n)"
  proof (cases "length (dec_nat (nat n)) = Suc w")
    case False
    then have "nat (int (Suc w) - int (length (dec_nat (nat n)))) = Suc w - length (dec_nat (nat n))" using l by linarith
    then show ?thesis using False l assms(1)
      by (simp add: ds_def pad_int_def Let_def int64_to_str_dec dec_int_def str_repeat_spec bytes_of_def of_char_def c)
  qed (use assms(1) in \<open>simp add: ds_def pad_int_def Let_def int64_to_str_dec dec_int_def\<close>)
  moreover have "all_digits (replicate k 48)" for k by (induction k) simp_all
  ultimately show "length ds = Suc w" "all_digits ds" "int (dec_val ds) = n"
    using l assms(1) by (simp_all add: dec_val_append)
qed

lemma fraction_loop_drops:
  assumes "\<exists>j < k. ds ! j \<noteq> 48" and "k \<le> length ds"
  shows "\<exists>e. fraction_loop ds (int k) = Some (int e) \<and> 0 < e \<and> e \<le> k \<and> (\<forall>j. e \<le> j \<and> j < k \<longrightarrow> ds ! j = 48)"
  using assms
proof (induction k)
  case (Suc k)
  have a: "kod_at ds (int (Suc k) - 1) = Some (ds ! k)" using Suc.prems(2) kod_at_nth [of k ds] by simp
  show ?case
  proof (cases "ds ! k = 48")
    case True
    then have "\<exists>j < k. ds ! j \<noteq> 48" using Suc.prems(1) less_Suc_eq by auto
    then obtain e where e: "fraction_loop ds (int k) = Some (int e)" "0 < e" "e \<le> k" "\<forall>j. e \<le> j \<and> j < k \<longrightarrow> ds ! j = 48"
      using Suc.IH Suc.prems(2) by auto
    have "fraction_loop ds (int (Suc k)) = Some (int e)" using a True e(1) by (subst fraction_loop.simps) simp
    then show ?thesis using e True less_Suc_eq by (intro exI [of _ e]) auto
  next
    case False
    then have "fraction_loop ds (int (Suc k)) = Some (int (Suc k))" using a by (subst fraction_loop.simps) simp
    then show ?thesis by (intro exI [of _ "Suc k"]) auto
  qed
qed simp

lemma dec_val_0: "list_all (\<lambda>d. d = 48) ds \<Longrightarrow> dec_val ds = 0"
  by (induction ds rule: rev_induct) (simp_all add: dec_val_snoc)

lemma fraction_text:
  assumes "0 < n" and "n < 1000000000"
  shows "\<exists>ds. fraction_str n = Some (46 # ds) \<and> ds \<noteq> [] \<and> length ds \<le> 9 \<and> all_digits ds \<and> int (dec_val ds) * 10 ^ (9 - length ds) = n"
proof -
  let ?p = "pad_int n 9"
  have p: "length ?p = 9" "all_digits ?p" "int (dec_val ?p) = n" using pad_int_digits [of n 8] assms by simp_all
  have "\<exists>j < 9. ?p ! j \<noteq> 48"
  proof (rule ccontr)
    assume "\<not> (\<exists>j < 9. ?p ! j \<noteq> 48)"
    then have "list_all (\<lambda>d. d = 48) ?p" using p(1) by (simp add: list_all_length)
    then show False using dec_val_0 p(3) assms(1) by fastforce
  qed
  then obtain e where e: "fraction_loop ?p (int 9) = Some (int e)" "0 < e" "e \<le> 9" "\<forall>j. e \<le> j \<and> j < 9 \<longrightarrow> ?p ! j = 48"
    using fraction_loop_drops [of 9 ?p] p(1) by auto
  have z: "drop e ?p = replicate (9 - e) 48" using e(3,4) p(1) by (intro nth_equalityI) simp_all
  have "dec_val ?p = dec_val (take e ?p) * 10 ^ (9 - e)"
    using dec_val_append [of "take e ?p" "replicate (9 - e) 48"] append_take_drop_id [of e ?p, unfolded z] by simp
  moreover have "fraction_str n = Some (46 # take e ?p)"
    using assms(1) e(1) p(1) by (simp add: fraction_str_def Let_def kod_slice_def bytes_of_def of_char_def)
  moreover have "all_digits (take e ?p)" using p(2) by (auto simp: list_all_iff dest: in_set_takeD)
  ultimately show ?thesis using e(2,3) p(1,3) by (intro exI [of _ "take e ?p"]) auto
qed

lemma fraction_digits_read:
  "all_digits ds \<Longrightarrow> length ds \<le> m \<Longrightarrow> drop i s = ds @ c # u \<Longrightarrow> \<not> is_digit c \<Longrightarrow>
   fraction_digits s i n (10 ^ m div 10) = (i + length ds, n + int (dec_val ds) * 10 ^ (m - length ds))"
proof (induction ds arbitrary: i n m)
  case Nil
  then have "i < length s \<and> s ! i = c" by (metis append_Nil drop_all hd_drop_conv_nth linorder_not_le list.distinct(1) list.sel(1))
  then show ?case using Nil.prems(4) by (subst fraction_digits.simps) (auto simp: digit_range)
next
  case (Cons d ds)
  then obtain k where m: "m = Suc k" by (cases m) auto
  have i: "i < length s" "s ! i = d" using Cons.prems(3) by (metis append_Cons drop_all hd_drop_conv_nth linorder_not_le list.distinct(1) list.sel(1))+
  have t: "drop (Suc i) s = ds @ c # u" using Cons.prems(3) by (metis append_Cons drop_Suc list.sel(3) tl_drop)
  have g: "48 \<le> uint d" "uint d \<le> 57" using Cons.prems(1) digit_range [of d] by auto
  then have v: "uint d - 48 = int (unat d - 48)" using uint_nat [of d] by linarith
  have dv: "dec_val (d # ds) = (unat d - 48) * 10 ^ length ds + dec_val ds"
    using dec_val_append [of "[d]" ds] by (simp add: dec_val_def)
  have q: "c_quot (10 ^ k) 10 = 10 ^ k div (10 :: int)" by (rule c_quot_nonneg) simp_all
  have "fraction_digits s i n (10 ^ m div 10) = fraction_digits s (Suc i) (n + int (unat d - 48) * 10 ^ k) (10 ^ k div 10)"
    using i g by (subst fraction_digits.simps) (simp add: m v q)
  also have "\<dots> = (Suc i + length ds, (n + int (unat d - 48) * 10 ^ k) + int (dec_val ds) * 10 ^ (k - length ds))"
    using Cons.prems m t by (intro Cons.IH) simp_all
  also have "int (unat d - 48) * 10 ^ k = int ((unat d - 48) * 10 ^ length ds) * 10 ^ (k - length ds)"
    using Cons.prems(2) m by (simp add: power_add [symmetric] mult.assoc)
  finally show ?case unfolding dv m by (simp only: of_nat_add distrib_right add.assoc length_Cons add_Suc_right add_Suc diff_Suc_Suc)
qed

section \<open>Round trip\<close>

text \<open>A timestamp read field by field.\<close>

lemma digits_at_read: "drop i s = ds @ u \<Longrightarrow> all_digits ds \<Longrightarrow> digits_at s (int i) (length ds) = Some (Some (int (dec_val ds)))"
proof -
  assume d: "drop i s = ds @ u" "all_digits ds"
  show ?thesis
  proof (cases ds)
    case Nil
    then show ?thesis by (simp add: digits_at_def dec_val_def)
  next
    case (Cons c cs)
    then have "length (drop i s) = length ds + length u" "i < length s" using d(1) by (simp, metis append_Cons drop_all linorder_not_le list.distinct(1))
    then have "i + length ds \<le> length s" by simp
    then show ?thesis using digits_loop_read [of "length ds" i s 0] d by (simp add: digits_at_def)
  qed
qed

lemma parse_rest_plain: "length p = 19 \<Longrightarrow> parse_rest (p @ [90]) x = Some (Some \<lparr>seconds = x, nanos = 0\<rparr>)"
  using kod_at_nth [of 19 "p @ [90]"] by (simp add: parse_rest_def parse_zone_def nth_append)

lemma parse_rest_fraction:
  assumes "length p = 19" and "all_digits ds" and "ds \<noteq> []" and "length ds \<le> 9"
  shows "parse_rest (p @ 46 # ds @ [90]) x = Some (Some \<lparr>seconds = x, nanos = int (dec_val ds) * 10 ^ (9 - length ds)\<rparr>)"
proof -
  let ?s = "p @ 46 # ds @ [90]"
  have "drop 20 ?s = ds @ [90]" using assms(1) by simp
  then have f: "fraction_digits ?s 20 0 100000000 = (20 + length ds, int (dec_val ds) * 10 ^ (9 - length ds))"
    using fraction_digits_read [OF assms(2,4), of 20 ?s 90 "[]" 0] by (simp add: is_digit_def)
  have z: "kod_at ?s 19 = Some 46" "kod_at ?s (int (20 + length ds)) = Some 90"
    using assms(1) kod_at_nth [of 19 ?s] kod_at_nth [of "20 + length ds" ?s] by (simp_all add: nth_append)
  show ?thesis unfolding parse_rest_def z(1) using assms(1,3) f z(2) by (simp add: parse_zone_def)
qed

text \<open>The fixed part of a timestamp, with the digits of its six fields.\<close>

definition stamp :: "byte list \<Rightarrow> byte list \<Rightarrow> byte list \<Rightarrow> byte list \<Rightarrow> byte list \<Rightarrow> byte list \<Rightarrow> byte list" where
  "stamp y m d h i c = y @ 45 # m @ 45 # d @ 84 # h @ 58 # i @ 58 # c"

definition number_of :: "nat \<Rightarrow> byte list \<Rightarrow> int \<Rightarrow> bool" where
  "number_of w ds v \<longleftrightarrow> length ds = w \<and> all_digits ds \<and> int (dec_val ds) = v"

lemma number_of_pad: "0 \<le> n \<Longrightarrow> n < 100 \<Longrightarrow> number_of 2 (pad_int n 2) n" "0 \<le> n \<Longrightarrow> n < 10000 \<Longrightarrow> number_of 4 (pad_int n 4) n"
  using pad_int_digits [of n 1] pad_int_digits [of n 3] by (simp_all add: number_of_def)

lemma digits_at_number: "drop i s = ds @ u \<Longrightarrow> number_of w ds v \<Longrightarrow> digits_at s (int i) w = Some (Some v)"
  using digits_at_read [of i s ds u] by (auto simp: number_of_def)

lemma kod_at_drop: "drop i s = c # u \<Longrightarrow> kod_at s (int i) = Some c"
  by (metis drop_all hd_drop_conv_nth kod_at_nth linorder_not_le list.distinct(1) list.sel(1))

lemma stamp_drops:
  assumes "length y = 4" and "length m = 2" and "length d = 2" and "length h = 2" and "length i = 2" and "length c = 2"
  shows "drop 11 (stamp y m d h i c @ u) = h @ 58 # i @ 58 # c @ u" and "drop 14 (stamp y m d h i c @ u) = i @ 58 # c @ u"
    and "drop 17 (stamp y m d h i c @ u) = c @ u" and "drop 10 (stamp y m d h i c @ u) = 84 # h @ 58 # i @ 58 # c @ u"
    and "drop 13 (stamp y m d h i c @ u) = 58 # i @ 58 # c @ u" and "drop 16 (stamp y m d h i c @ u) = 58 # c @ u"
    and "take 10 (stamp y m d h i c @ u) = y @ 45 # m @ 45 # d" and "length (stamp y m d h i c @ u) = 19 + length u"
  using assms by (simp_all add: stamp_def drop_append take_append)

lemma parse_date_fields:
  assumes "number_of 4 ys y" and "number_of 2 ms m" and "number_of 2 ds d" and "valid_date (y, m, d)"
  shows "parse_date (ys @ 45 # ms @ 45 # ds) = Some (Some \<lparr>seconds = days_from_civil y m d * 86400, nanos = 0\<rparr>)"
proof -
  let ?s = "ys @ 45 # ms @ 45 # ds"
  have l: "length ys = 4" "length ms = 2" "length ds = 2" using assms(1-3) by (simp_all add: number_of_def)
  have c: "kod_at ?s 4 = Some 45" "kod_at ?s 7 = Some 45"
    using kod_at_drop [of 4 ?s 45 "ms @ 45 # ds"] kod_at_drop [of 7 ?s 45 ds] l by simp_all
  have f: "digits_at ?s 0 4 = Some (Some y)" "digits_at ?s 5 2 = Some (Some m)" "digits_at ?s 8 2 = Some (Some d)"
    using digits_at_number [of 0 ?s ys "45 # ms @ 45 # ds", OF _ assms(1)] digits_at_number [of 5 ?s ms "45 # ds", OF _ assms(2)]
      digits_at_number [of 8 ?s ds "[]", OF _ assms(3)] l by simp_all
  show ?thesis unfolding parse_date_def c f using l assms(4) by (simp add: valid_date_def)
qed

lemma time_parse_fields:
  assumes "number_of 4 ys y" and "number_of 2 ms m" and "number_of 2 ds d" and "number_of 2 hs h" and "number_of 2 is i" and "number_of 2 cs c"
    and "valid_date (y, m, d)" and "h \<le> 23" and "i \<le> 59" and "c \<le> 60" and "u \<noteq> []"
  shows "time_parse (stamp ys ms ds hs is cs @ u) =
    parse_rest (stamp ys ms ds hs is cs @ u) (days_from_civil y m d * 86400 + h * 3600 + i * 60 + c)"
proof -
  let ?s = "stamp ys ms ds hs is cs @ u"
  have l: "length ys = 4" "length ms = 2" "length ds = 2" "length hs = 2" "length is = 2" "length cs = 2"
    using assms(1-6) by (simp_all add: number_of_def)
  note p = stamp_drops [OF l, of u]
  have k: "kod_at ?s 10 = Some 84" "kod_at ?s 13 = Some 58" "kod_at ?s 16 = Some 58"
    using kod_at_drop [OF p(4)] kod_at_drop [OF p(5)] kod_at_drop [OF p(6)] by simp_all
  have f: "digits_at ?s 11 2 = Some (Some h)" "digits_at ?s 14 2 = Some (Some i)" "digits_at ?s 17 2 = Some (Some c)"
    using digits_at_number [OF p(1) assms(4)] digits_at_number [OF p(2) assms(5)] digits_at_number [OF p(3) assms(6)] by simp_all
  have sl: "kod_slice ?s 0 10 = ys @ 45 # ms @ 45 # ds" using p(7) by (simp add: kod_slice_def)
  have "\<not> length ?s < 20" unfolding p(8) using assms(11) by (cases u) simp_all
  then show ?thesis unfolding time_parse_def k f sl parse_date_fields [OF assms(1-3,7)] using assms(8-10) by simp
qed

text \<open>No text makes \<open>parse\<close> read outside it.\<close>

lemma kod_at_in: "0 \<le> i \<Longrightarrow> i < int (length s) \<Longrightarrow> \<exists>c. kod_at s i = Some c"
  by (simp add: kod_at_def)

lemma digits_loop_in: "0 \<le> i \<Longrightarrow> i + int k \<le> int (length s) \<Longrightarrow> \<exists>r. digits_loop s i k n = Some r"
proof (induction k arbitrary: i n)
  case (Suc k)
  then obtain c where "kod_at s i = Some c" using kod_at_in [of i s] by auto
  then show ?case using Suc.IH [of "i + 1"] Suc.prems by auto
qed simp

lemma digits_at_in: "0 \<le> i \<Longrightarrow> i + int k \<le> int (length s) \<Longrightarrow> \<exists>r. digits_at s i k = Some r"
  by (simp add: digits_at_def digits_loop_in)

lemma parse_date_total: "\<exists>r. parse_date s = Some r"
proof (cases "length s = 10")
  case True
  then obtain a b y m d where "kod_at s 4 = Some a" "kod_at s 7 = Some b" "digits_at s 0 4 = Some y" "digits_at s 5 2 = Some m" "digits_at s 8 2 = Some d"
    using kod_at_in [of 4 s] kod_at_in [of 7 s] digits_at_in [of 0 4 s] digits_at_in [of 5 2 s] digits_at_in [of 8 2 s] by auto
  then show ?thesis by (auto simp: parse_date_def split: option.split)
qed (simp add: parse_date_def)

lemma parse_zone_total: "i < length s \<Longrightarrow> \<exists>r. parse_zone s i = Some r"
proof -
  assume i: "i < length s"
  obtain c where c: "kod_at s (int i) = Some c" using i by simp
  show ?thesis
  proof (cases "length s = i + 6")
    case True
    then obtain a h m where "kod_at s (int i + 3) = Some a" "digits_at s (int i + 1) 2 = Some h" "digits_at s (int i + 4) 2 = Some m"
      using kod_at_in [of "int i + 3" s] digits_at_in [of "int i + 1" 2 s] digits_at_in [of "int i + 4" 2 s] by auto
    with c show ?thesis by (auto simp: parse_zone_def Let_def split: option.split)
  qed (simp add: parse_zone_def c)
qed

lemma parse_rest_total: "20 \<le> length s \<Longrightarrow> \<exists>r. parse_rest s x = Some r"
proof -
  assume "20 \<le> length s"
  then obtain c where c: "kod_at s 19 = Some c" using kod_at_in [of 19 s] by auto
  obtain i n where i: "(if c = 46 then fraction_digits s 20 0 100000000 else (19, 0)) = (i, n)" by (cases "if c = 46 then fraction_digits s 20 0 100000000 else (19, 0)")
  show ?thesis
  proof (cases "i < length s")
    case True
    then obtain z where "parse_zone s i = Some z" using parse_zone_total by blast
    then show ?thesis using True by (auto simp: parse_rest_def c i split: option.split)
  qed (simp add: parse_rest_def c i)
qed

lemma time_parse_total: "\<exists>r. time_parse s = Some r"
proof (cases "length s < 20")
  case False
  then obtain a b c h m x where k: "kod_at s 10 = Some a" "kod_at s 13 = Some b" "kod_at s 16 = Some c"
    and d: "digits_at s 11 2 = Some h" "digits_at s 14 2 = Some m" "digits_at s 17 2 = Some x"
    using kod_at_in [of 10 s] kod_at_in [of 13 s] kod_at_in [of 16 s] digits_at_in [of 11 2 s] digits_at_in [of 14 2 s] digits_at_in [of 17 2 s] by auto
  obtain p where p: "parse_date (kod_slice s 0 10) = Some p" using parse_date_total by blast
  have r: "\<exists>r. parse_rest s z = Some r" for z using False by (intro parse_rest_total) simp
  show ?thesis unfolding time_parse_def k d p using r by (auto split: option.split)
qed (simp add: time_parse_def)

text \<open>
  C37. Printing and parsing of timestamps are inverse: for every moment of the years 0 to 9999, before 1970 as after it,
  \<open>to_str\<close> returns and \<open>parse\<close> reads its text back as exactly the same second and nanosecond. No text makes \<open>parse\<close> panic.
\<close>

theorem timestamp_round_trip:
  assumes "in64 (seconds t)" and "0 \<le> year (utc t)" and "year (utc t) \<le> 9999" and "0 \<le> nanos t" and "nanos t < 1000000000"
  shows "(\<exists>s. time_to_str t = Some s \<and> time_parse s = Some (Some t)) \<and> (\<exists>r. time_parse x = Some r)"
proof -
  define n r where "n = seconds t div 86400" and "r = seconds t mod 86400"
  obtain y m d where dt: "date_of_day n = (y, m, d)" by (cases "date_of_day n")
  then have v: "valid_date (y, m, d)" "day_number (y, m, d) = n" using date_of_day_number [of n] by simp_all
  have u: "year (utc t) = y" "month (utc t) = m" "day (utc t) = d" "hour (utc t) = r div 3600" "minute (utc t) = r mod 3600 div 60" "sec (utc t) = r mod 60"
    using utc_date [OF assms(1)] dt unfolding n_def [symmetric] r_def [symmetric] by simp_all
  have r: "0 \<le> r" "r < 86400" by (simp_all add: r_def)
  have b: "0 \<le> m" "m < 100" "0 \<le> d" "d < 100" using v(1) by (auto simp: valid_date_def days_in_month_leap split: if_splits)
  have rb: "0 \<le> r div 3600" "r div 3600 \<le> 23" "0 \<le> r mod 3600 div 60" "r mod 3600 div 60 \<le> 59" "0 \<le> r mod 60" "r mod 60 \<le> 60"
    using r by (simp_all; presburger)+
  have "days_from_civil y m d = n" using days_from_civil_number [of y m d] v assms(2,3) u(1) by (simp add: valid_date_def)
  moreover have "r = 3600 * (r div 3600) + r mod 3600" "r mod 3600 = 60 * (r mod 3600 div 60) + r mod 3600 mod 60" "r mod 3600 mod 60 = r mod 60"
    using mult_div_mod_eq [of 60 "r mod 3600"] mod_mod_cancel [of 60 3600 r] by simp_all
  moreover have "seconds t = 86400 * n + r" by (simp add: n_def r_def)
  ultimately have e: "days_from_civil y m d * 86400 + r div 3600 * 3600 + r mod 3600 div 60 * 60 + r mod 60 = seconds t" by linarith
  let ?p = "stamp (pad_int y 4) (pad_int m 2) (pad_int d 2) (pad_int (r div 3600) 2) (pad_int (r mod 3600 div 60) 2) (pad_int (r mod 60) 2)"
  have num: "number_of 4 (pad_int y 4) y" "number_of 2 (pad_int m 2) m" "number_of 2 (pad_int d 2) d" "number_of 2 (pad_int (r div 3600) 2) (r div 3600)"
    "number_of 2 (pad_int (r mod 3600 div 60) 2) (r mod 3600 div 60)" "number_of 2 (pad_int (r mod 60) 2) (r mod 60)"
    by (rule number_of_pad; use assms(2,3) u(1) b rb in linarith)+
  have parse: "w \<noteq> [] \<Longrightarrow> time_parse (?p @ w) = parse_rest (?p @ w) (seconds t)" for w
    using time_parse_fields [OF num v(1) rb(2,4,6)] e by simp
  have str: "fraction_str (nanos t) = Some w \<Longrightarrow> time_to_str t = Some (?p @ w @ [90])" for w
    by (simp add: time_to_str_def Let_def u stamp_def bytes_of_def of_char_def)
  have l: "length ?p = 19" using num stamp_drops(8) [where u = "[]"] by (simp add: number_of_def)
  show ?thesis
  proof (cases "nanos t = 0")
    case True
    then have "time_to_str t = Some (?p @ [90])" using str [of "[]"] by (simp add: fraction_str_def)
    moreover have "time_parse (?p @ [90]) = Some (Some t)" using parse [of "[90]"] parse_rest_plain [OF l, of "seconds t"] True by simp
    ultimately show ?thesis using time_parse_total [of x] by blast
  next
    case False
    then obtain ds where ds: "fraction_str (nanos t) = Some (46 # ds)" "ds \<noteq> []" "length ds \<le> 9" "all_digits ds"
      "int (dec_val ds) * 10 ^ (9 - length ds) = nanos t" using fraction_text [of "nanos t"] assms(4,5) by auto
    then have "time_to_str t = Some (?p @ 46 # ds @ [90])" using str [of "46 # ds"] by simp
    moreover have "time_parse (?p @ 46 # ds @ [90]) = Some (Some t)"
      using parse [of "46 # ds @ [90]"] parse_rest_fraction [OF l ds(4,2,3), of "seconds t"] ds(5) by simp
    ultimately show ?thesis using time_parse_total [of x] by blast
  qed
qed

theorem timestamp_round_trip_witness:
  "\<exists>s. time_to_str \<lparr>seconds = 86399, nanos = 250000000\<rparr> = Some s \<and> time_parse s = Some (Some \<lparr>seconds = 86399, nanos = 250000000\<rparr>)"
proof -
  have "in64 86399" by (simp add: range_simps)
  moreover have "year (utc \<lparr>seconds = 86399, nanos = 250000000\<rparr>) = 1970"
    using utc_date(1) [of "\<lparr>seconds = 86399, nanos = 250000000\<rparr>"] \<open>in64 86399\<close> by (simp add: date_of_day_def)
  ultimately show ?thesis using timestamp_round_trip [of "\<lparr>seconds = 86399, nanos = 250000000\<rparr>"] by simp
qed

section \<open>Years before 0\<close>

text \<open>The padding goes before the sign, so that the text of a year before 0 is no timestamp.\<close>

lemma pad_int_negative: "pad_int (- 1) 4 = bytes_of ''00-1''"
  by (simp add: pad_int_def Let_def int64_to_str_dec dec_int_def dec_nat_digit str_repeat_spec bytes_of_def of_char_def numeral_2_eq_2)

end
