(* ===== verification/Kod_Stream.thy ===== *)
theory Kod_Stream
  imports Kod_Lang Kod_Decimal Kod_Posix
begin

text \<open>
  \<open>src/stdlib/stream.kod\<close> and the descriptor streams of \<open>src/stdlib/posix.kod\<close>: what a program does with a stream of bytes,
  for any stream. The Kod interfaces \<open>Reader\<close> and \<open>Writer\<close> are function arguments here, with the state of the object passed
  through; the locales \<open>reader\<close> and \<open>writer\<close> state what their implementations promise. A result is \<open>Inl\<close> of
  the error that is thrown or \<open>Inr\<close>; \<open>None\<close> is a loop or a call that does not return. A \<open>StrBuilder\<close> is the list of its bytes.
\<close>

section \<open>Definitions\<close>

subsection \<open>Errors\<close>

datatype IoKind = NotFound | PermissionDenied | AlreadyExists | InvalidInput | WouldBlock | TimedOut | ConnectionRefused
  | ConnectionReset | BrokenPipe | UnexpectedEof | Other | HostNotFound | Tls | Protocol

record IoError =
  err_kind :: IoKind
  err_op :: "byte list"
  err_errno :: int
  err_detail :: "byte list"

definition io_error_to_str :: "IoError \<Rightarrow> byte list" where
  "io_error_to_str e = err_op e @ bytes_of '': '' @ err_detail e"

definition kind_at :: "int \<Rightarrow> IoKind" where
  "kind_at i =
     (if i = 0 then NotFound else if i = 1 then PermissionDenied else if i = 2 then AlreadyExists
      else if i = 3 then InvalidInput else if i = 4 then TimedOut else if i = 5 then TimedOut
      else if i = 6 then ConnectionRefused else if i = 7 then ConnectionReset else if i = 8 then BrokenPipe else Other)"

definition kind_of_errno :: "int \<Rightarrow> IoKind" where
  "kind_of_errno err = (if err \<le> 0 then Other else kind_at (kod_errno_kind err))"

definition os_error :: "(int \<Rightarrow> byte list) \<Rightarrow> byte list \<Rightarrow> int \<Rightarrow> IoError" where
  "os_error strerror op errno =
     \<lparr>err_kind = kind_of_errno errno, err_op = op, err_errno = errno, err_detail = kod_errno_message strerror errno\<rparr>"

subsection \<open>Reading and writing\<close>

type_synonym 's reading = "int \<Rightarrow> 's \<Rightarrow> ((IoError + byte list) \<times> 's) option"
type_synonym 's writing = "byte list \<Rightarrow> 's \<Rightarrow> ((IoError + int) \<times> 's) option"

partial_function (option) read_all_loop :: "'s reading \<Rightarrow> byte list \<Rightarrow> 's \<Rightarrow> ((IoError + byte list) \<times> 's) option" where
  "read_all_loop read out s = do {
     (r, s) \<leftarrow> read 65536 s;
     case r of
       Inl e \<Rightarrow> Some (Inl e, s)
     | Inr piece \<Rightarrow> if piece = [] then Some (Inr out, s) else read_all_loop read (out @ piece) s
   }"

definition read_all :: "'s reading \<Rightarrow> 's \<Rightarrow> ((IoError + byte list) \<times> 's) option" where
  "read_all read s = read_all_loop read [] s"

definition early_end :: "nat \<Rightarrow> int \<Rightarrow> IoError" where
  "early_end got n = \<lparr>err_kind = UnexpectedEof, err_op = bytes_of ''read'', err_errno = 0,
     err_detail = bytes_of ''stream ended after '' @ dec_nat got @ bytes_of '' of '' @ dec_int n @ bytes_of '' bytes''\<rparr>"

partial_function (option) read_exact_loop :: "'s reading \<Rightarrow> int \<Rightarrow> byte list \<Rightarrow> 's \<Rightarrow> ((IoError + byte list) \<times> 's) option" where
  "read_exact_loop read n out s =
     (if int (length out) < n then do {
        (r, s) \<leftarrow> read (n - int (length out)) s;
        case r of
          Inl e \<Rightarrow> Some (Inl e, s)
        | Inr piece \<Rightarrow> if piece = [] then Some (Inl (early_end (length out) n), s) else read_exact_loop read n (out @ piece) s
      } else Some (Inr out, s))"

definition read_exact :: "'s reading \<Rightarrow> int \<Rightarrow> 's \<Rightarrow> ((IoError + byte list) \<times> 's) option" where
  "read_exact read n s = read_exact_loop read n [] s"

definition wrote_nothing :: IoError where
  "wrote_nothing = \<lparr>err_kind = Other, err_op = bytes_of ''write'', err_errno = 0, err_detail = bytes_of ''write returned 0''\<rparr>"

partial_function (option) write_all_loop :: "'s writing \<Rightarrow> byte list \<Rightarrow> int \<Rightarrow> 's \<Rightarrow> ((IoError + unit) \<times> 's) option" where
  "write_all_loop write data don s =
     (if don < int (length data) then do {
        (r, s) \<leftarrow> write (kod_slice data don (int (length data))) s;
        case r of
          Inl e \<Rightarrow> Some (Inl e, s)
        | Inr n \<Rightarrow> if n \<le> 0 then Some (Inl wrote_nothing, s) else write_all_loop write data (w64 (don + n)) s
      } else Some (Inr (), s))"

definition write_all :: "'s writing \<Rightarrow> byte list \<Rightarrow> 's \<Rightarrow> ((IoError + unit) \<times> 's) option" where
  "write_all write data s = write_all_loop write data 0 s"

text \<open>A \<open>str\<close> and its \<open>bytes\<close> are the same list.\<close>

definition write_str :: "'s writing \<Rightarrow> byte list \<Rightarrow> 's \<Rightarrow> ((IoError + unit) \<times> 's) option" where
  "write_str write text s = write_all write text s"

subsection \<open>Streams in memory and on descriptors\<close>

record MemReader =
  mr_data :: "byte list"
  mr_pos :: int

definition mem_read :: "MemReader reading" where
  "mem_read maxn r = Some (
     let stop = w64 (mr_pos r + maxn) in
     if maxn \<le> 0 \<or> mr_pos r \<ge> int (length (mr_data r)) then (Inr [], r)
     else let piece = kod_slice (mr_data r) (mr_pos r) stop
       in (Inr piece, r\<lparr>mr_pos := w64 (mr_pos r + int (length piece))\<rparr>))"

record MemWriter =
  mw_buf :: "byte list"

definition mem_write :: "MemWriter writing" where
  "mem_write data w = Some (Inr (int (length data)), w\<lparr>mw_buf := mw_buf w @ data\<rparr>)"

definition fd_stream_read :: "(int \<Rightarrow> byte list) \<Rightarrow> int \<Rightarrow> 'a io_scheme reading" where
  "fd_stream_read strerror fd maxn w = do {
     (data, w) \<leftarrow> kod_fd_read fd maxn w;
     let err = kod_io_errno w;
     Some (if err \<noteq> 0 then Inl (os_error strerror (bytes_of ''read'') err) else Inr data, w)
   }"

definition fd_stream_write :: "(int \<Rightarrow> byte list) \<Rightarrow> int \<Rightarrow> 'a io_scheme writing" where
  "fd_stream_write strerror fd data w = do {
     (n, w) \<leftarrow> kod_fd_write fd data w;
     Some (if n < 0 then Inl (os_error strerror (bytes_of ''write'') (kod_io_errno w)) else Inr n, w)
   }"

definition fd_stream_close :: "(int \<Rightarrow> byte list) \<Rightarrow> int \<Rightarrow> 'a io_scheme \<Rightarrow> ((IoError + unit) \<times> 'a io_scheme) option" where
  "fd_stream_close strerror fd w = do {
     (rc, w) \<leftarrow> kod_fd_close fd w;
     Some (if rc < 0 then Inl (os_error strerror (bytes_of ''close'') (kod_io_errno w)) else Inr (), w)
   }"

definition open_with :: "(int \<Rightarrow> byte list) \<Rightarrow> byte list \<Rightarrow> int \<Rightarrow> 'a io_scheme \<Rightarrow> ((IoError + int) \<times> 'a io_scheme) option" where
  "open_with strerror path mode w = do {
     (fd, w) \<leftarrow> kod_fd_open path mode w;
     Some (if fd < 0 then Inl (os_error strerror (bytes_of ''open '' @ path) (kod_io_errno w)) else Inr fd, w)
   }"

definition open_read :: "(int \<Rightarrow> byte list) \<Rightarrow> byte list \<Rightarrow> 'a io_scheme \<Rightarrow> ((IoError + int) \<times> 'a io_scheme) option" where
  "open_read strerror path w = open_with strerror path 0 w"

definition create_fd :: "(int \<Rightarrow> byte list) \<Rightarrow> byte list \<Rightarrow> 'a io_scheme \<Rightarrow> ((IoError + int) \<times> 'a io_scheme) option" where
  "create_fd strerror path w = open_with strerror path 1 w"

definition append_fd :: "(int \<Rightarrow> byte list) \<Rightarrow> byte list \<Rightarrow> 'a io_scheme \<Rightarrow> ((IoError + int) \<times> 'a io_scheme) option" where
  "append_fd strerror path w = open_with strerror path 2 w"

subsection \<open>Buffered reading\<close>

record 's BufReader =
  inner :: 's
  limit :: int
  chunk :: int
  buf :: "byte list"
  pos :: int
  ended :: bool

definition buf_read :: "'s reading \<Rightarrow> 's BufReader reading" where
  "buf_read read maxn b =
     (if maxn \<le> 0 then Some (Inr [], b)
      else if pos b < int (length (buf b)) then
        (let stop = w64 (pos b + maxn);
             stop = (if stop > int (length (buf b)) then int (length (buf b)) else stop);
             piece = kod_slice (buf b) (pos b) stop
         in Some (Inr piece, b\<lparr>pos := stop\<rparr>))
      else do {
        (r, s) \<leftarrow> read maxn (inner b);
        Some (r, b\<lparr>inner := s\<rparr>)
      })"

definition buf_read_exact :: "'s reading \<Rightarrow> int \<Rightarrow> 's BufReader \<Rightarrow> ((IoError + byte list) \<times> 's BufReader) option" where
  "buf_read_exact read n b = read_exact (buf_read read) n b"

function scan_loop :: "byte list \<Rightarrow> int \<Rightarrow> int \<Rightarrow> int option" where
  "scan_loop bs delim i =
     (if i < int (length bs) then (case kod_at bs i of
        None \<Rightarrow> None
      | Some c \<Rightarrow> if uint c \<noteq> delim then scan_loop bs delim (i + 1) else Some i)
      else Some i)"
  by pat_completeness auto

termination by (relation "measure (\<lambda>(bs, delim, i). nat (int (length bs) - i))") auto

declare scan_loop.simps [simp del]

definition line_too_long :: IoError where
  "line_too_long = \<lparr>err_kind = InvalidInput, err_op = bytes_of ''read'', err_errno = 0, err_detail = bytes_of ''line too long''\<rparr>"

text \<open>One round of \<open>read_until\<close>, in two steps. \<open>until_fill\<close> reads when the buffer is used up, and \<open>until_scan\<close> takes what
  is there; each either ends the call with a result or hands on.\<close>

definition until_fill :: "'s reading \<Rightarrow> byte list \<Rightarrow> 's BufReader \<Rightarrow> ((IoError + byte list option) option \<times> 's BufReader) option" where
  "until_fill read out b =
     (if pos b \<ge> int (length (buf b)) then do {
        (r, s) \<leftarrow> read (chunk b) (inner b);
        let b = b\<lparr>inner := s\<rparr>;
        Some (case r of
          Inl e \<Rightarrow> (Some (Inl e), b)
        | Inr got \<Rightarrow>
            if got = [] then (if out = [] then (Some (Inr None), b) else (Some (Inr (Some out)), b\<lparr>ended := True\<rparr>))
            else (None, b\<lparr>buf := got, pos := 0\<rparr>))
      } else Some (None, b))"

definition until_scan :: "int \<Rightarrow> byte list \<Rightarrow> 's BufReader \<Rightarrow> ((IoError + byte list option) option \<times> byte list \<times> 's BufReader) option" where
  "until_scan delim out b = do {
     let n = int (length (buf b));
     i \<leftarrow> scan_loop (buf b) delim (pos b);
     let out = out @ kod_slice (buf b) (pos b) i;
     Some (if int (length out) > limit b then (Some (Inl line_too_long), out, b)
       else if i < n then (Some (Inr (Some out)), out, b\<lparr>pos := i + 1\<rparr>)
       else (None, out, b\<lparr>pos := n\<rparr>))
   }"

partial_function (option) until_loop :: "'s reading \<Rightarrow> int \<Rightarrow> byte list \<Rightarrow> 's BufReader \<Rightarrow> ((IoError + byte list option) \<times> 's BufReader) option" where
  "until_loop read delim out b = do {
     (stop, b) \<leftarrow> until_fill read out b;
     case stop of
       Some r \<Rightarrow> Some (r, b)
     | None \<Rightarrow> do {
         (stop, out, b) \<leftarrow> until_scan delim out b;
         case stop of Some r \<Rightarrow> Some (r, b) | None \<Rightarrow> until_loop read delim out b
       }
   }"

definition read_until :: "'s reading \<Rightarrow> int \<Rightarrow> 's BufReader \<Rightarrow> ((IoError + byte list option) \<times> 's BufReader) option" where
  "read_until read delim b = until_loop read delim [] b"

definition strip_cr :: "byte list \<Rightarrow> byte list" where
  "strip_cr s = (let n = length s in if 0 < n \<and> s ! (n - 1) = 13 then kod_slice s 0 (int n - 1) else s)"

definition read_line :: "'s reading \<Rightarrow> 's BufReader \<Rightarrow> ((IoError + byte list option) \<times> 's BufReader) option" where
  "read_line read b = do {
     (r, b) \<leftarrow> read_until read 10 b;
     Some (case r of Inl e \<Rightarrow> Inl e | Inr None \<Rightarrow> Inr None | Inr (Some raw) \<Rightarrow> Inr (Some (strip_cr raw)), b)
   }"

section \<open>What a reader promises\<close>

text \<open>
  \<open>pending\<close> is what the stream will still deliver. A read for one of the \<open>sizes\<close> the client uses returns a prefix of it of
  at most that size, which is empty only at the end; \<open>ok\<close> says that the stream has not failed and not ended.
\<close>

locale reader =
  fixes read :: "'s reading" and pending :: "'s \<Rightarrow> byte list" and ok :: "'s \<Rightarrow> bool" and sizes :: "int \<Rightarrow> bool"
  assumes reads: "ok s \<Longrightarrow> sizes n \<Longrightarrow> 0 < n \<Longrightarrow> \<exists>piece s'. read n s = Some (Inr piece, s') \<and>
    pending s = piece @ pending s' \<and> int (length piece) \<le> n \<and> (piece = [] \<longrightarrow> pending s = []) \<and> (piece \<noteq> [] \<longrightarrow> ok s')"
begin

lemma read_all_loop_pending:
  "ok s \<Longrightarrow> sizes 65536 \<Longrightarrow> \<exists>s'. read_all_loop read out s = Some (Inr (out @ pending s), s') \<and> pending s' = []"
proof (induction "length (pending s)" arbitrary: s out rule: less_induct)
  case less
  obtain piece s' where r: "read 65536 s = Some (Inr piece, s')" "pending s = piece @ pending s'" "piece = [] \<longrightarrow> pending s = []" "piece \<noteq> [] \<longrightarrow> ok s'"
    using reads [OF less.prems] by auto
  show ?case
  proof (cases "piece = []")
    case True
    then show ?thesis using r by (subst read_all_loop.simps) simp
  next
    case False
    then have "length (pending s') < length (pending s)" using r(2) by simp
    then show ?thesis using less.hyps [of s' "out @ piece"] less.prems(2) r False by (subst read_all_loop.simps) simp
  qed
qed

lemma read_all_pending: "ok s \<Longrightarrow> sizes 65536 \<Longrightarrow> \<exists>s'. read_all read s = Some (Inr (pending s), s') \<and> pending s' = []"
  using read_all_loop_pending [of s "[]"] by (simp add: read_all_def)

lemma read_exact_loop_pending:
  "ok s \<Longrightarrow> \<forall>k. 0 < k \<and> k \<le> n \<longrightarrow> sizes k \<Longrightarrow> int (length out) \<le> n \<Longrightarrow>
   \<exists>s'. read_exact_loop read n out s = Some (
     (if n \<le> int (length out) + int (length (pending s)) then Inr (out @ take (nat n - length out) (pending s))
      else Inl (early_end (length out + length (pending s)) n)), s')
     \<and> pending s' = drop (nat n - length out) (pending s)"
proof (induction "length (pending s)" arbitrary: s out rule: less_induct)
  case less
  show ?case
  proof (cases "int (length out) < n")
    case False
    then have "n = int (length out)" using less.prems(3) by simp
    then show ?thesis using False by (subst read_exact_loop.simps) auto
  next
    case True
    obtain piece s' where r: "read (n - int (length out)) s = Some (Inr piece, s')" "pending s = piece @ pending s'"
      "int (length piece) \<le> n - int (length out)" "piece = [] \<longrightarrow> pending s = []" "piece \<noteq> [] \<longrightarrow> ok s'"
      using reads [of s "n - int (length out)"] less.prems True by auto
    show ?thesis
    proof (cases "piece = []")
      case empty: True
      then have p: "pending s = []" "pending s' = []" using r(2,4) by simp_all
      show ?thesis using True r(1) empty p by (subst read_exact_loop.simps) simp
    next
      case False
      have shorter: "length (pending s') < length (pending s)" using r(2) False by simp
      have fits: "int (length (out @ piece)) \<le> n" using r(3) by simp
      obtain s'' where
        s: "read_exact_loop read n (out @ piece) s' = Some (
          (if n \<le> int (length (out @ piece)) + int (length (pending s')) then Inr ((out @ piece) @ take (nat n - length (out @ piece)) (pending s'))
           else Inl (early_end (length (out @ piece) + length (pending s')) n)), s'')"
        "pending s'' = drop (nat n - length (out @ piece)) (pending s')"
        using less.hyps [OF shorter _ less.prems(2) fits] r(5) False by blast
      have k: "nat n - length out = length piece + (nat n - length (out @ piece))" using r(3) True by (simp add: le_nat_iff)
      have e: "read_exact_loop read n out s = read_exact_loop read n (out @ piece) s'"
        using True r(1) False by (subst read_exact_loop.simps) simp
      have "early_end (length (out @ piece) + length (pending s')) n = early_end (length out + length (pending s)) n"
        using r(2) by (simp add: add.assoc)
      then show ?thesis unfolding e s(1) using s(2) r(2) k by (intro exI [of _ s'']) simp
    qed
  qed
qed

lemma read_exact_pending:
  assumes "ok s" and "\<forall>k. 0 < k \<and> k \<le> n \<longrightarrow> sizes k" and "0 \<le> n"
  shows "\<exists>s'. read_exact read n s = Some (
     (if n \<le> int (length (pending s)) then Inr (take (nat n) (pending s)) else Inl (early_end (length (pending s)) n)), s')
     \<and> pending s' = drop (nat n) (pending s)"
  using read_exact_loop_pending [OF assms(1,2), of "[]"] assms(3) by (auto simp: read_exact_def split: if_splits)

end

section \<open>A buffered reader is a reader\<close>

definition buf_pending :: "('s \<Rightarrow> byte list) \<Rightarrow> 's BufReader \<Rightarrow> byte list" where
  "buf_pending pending b = drop (nat (pos b)) (buf b) @ pending (inner b)"

text \<open>The position lies in the buffer, and buffer and chunk are small enough for the sum of a position and a size.\<close>

definition bufreader_ok :: "('s \<Rightarrow> bool) \<Rightarrow> 's BufReader \<Rightarrow> bool" where
  "bufreader_ok ok b \<longleftrightarrow> 0 \<le> pos b \<and> pos b \<le> int (length (buf b)) \<and> length (buf b) < 2 ^ 62 \<and> 0 < chunk b \<and> chunk b < 2 ^ 62 \<and> ok (inner b)"

definition small :: "int \<Rightarrow> bool" where
  "small n \<longleftrightarrow> n < 2 ^ 62"

lemma scan_loop_takeWhile:
  "0 \<le> i \<Longrightarrow> i \<le> int (length bs) \<Longrightarrow>
   scan_loop bs delim i = Some (i + int (length (takeWhile (\<lambda>c. uint c \<noteq> delim) (drop (nat i) bs))))"
proof (induction bs delim i rule: scan_loop.induct)
  case (1 bs delim i)
  show ?case
  proof (cases "i < int (length bs)")
    case True
    have n: "nat i < length bs" using True 1(2) by linarith
    have d: "drop (nat i) bs = bs ! nat i # drop (nat (i + 1)) bs" "kod_at bs i = Some (bs ! nat i)"
      using Cons_nth_drop_Suc [OF n] 1(2) True by (simp_all add: nat_add_distrib kod_at_def)
    show ?thesis using 1(1) [OF True d(2)] 1(2) True d by (subst scan_loop.simps) simp
  next
    case False
    then show ?thesis using 1(3) by (subst scan_loop.simps) simp
  qed
qed

lemma until_scan_eq:
  fixes b :: "'s BufReader"
  assumes "0 \<le> pos b" and "pos b \<le> int (length (buf b))"
  shows "until_scan delim out b = Some (
    let rest = drop (nat (pos b)) (buf b); line = takeWhile (\<lambda>c. uint c \<noteq> delim) rest; out = out @ line
    in if int (length out) > limit b then (Some (Inl line_too_long), out, b)
       else if length line < length rest then (Some (Inr (Some out)), out, b\<lparr>pos := pos b + int (length line) + 1\<rparr>)
       else (None, out, b\<lparr>pos := int (length (buf b))\<rparr>))"
proof -
  let ?rest = "drop (nat (pos b)) (buf b)"
  let ?line = "takeWhile (\<lambda>c. uint c \<noteq> delim) ?rest"
  have l: "length ?line \<le> length ?rest" by (rule length_takeWhile_le)
  have "kod_slice (buf b) (pos b) (pos b + int (length ?line)) = take (length ?line) ?rest"
    using assms by (simp add: kod_slice_def drop_take nat_add_distrib)
  then have "kod_slice (buf b) (pos b) (pos b + int (length ?line)) = ?line" by (simp add: takeWhile_eq_take [symmetric])
  moreover have "pos b + int (length ?line) < int (length (buf b)) \<longleftrightarrow> length ?line < length ?rest"
    using assms l by auto
  ultimately show ?thesis
    using scan_loop_takeWhile [OF assms] by (simp add: until_scan_def Let_def)
qed

text \<open>The outcome of \<open>read_until\<close> on what the stream still delivers.\<close>

definition until_result :: "int \<Rightarrow> int \<Rightarrow> byte list \<Rightarrow> byte list \<Rightarrow> IoError + byte list option" where
  "until_result delim lim out p =
     (let line = out @ takeWhile (\<lambda>c. uint c \<noteq> delim) p in
      if int (length line) > lim then Inl line_too_long else if out = [] \<and> p = [] then Inr None else Inr (Some line))"

lemma takeWhile_prefix_le: "length (takeWhile P xs) \<le> length (takeWhile P (xs @ ys))"
  by (induction xs) auto

lemma takeWhile_found:
  "\<not> (\<forall>c \<in> set xs. P c) \<Longrightarrow> takeWhile P (xs @ ys) = takeWhile P xs \<and> length (takeWhile P xs) < length xs"
proof (induction xs)
  case (Cons x xs)
  then show ?case by (cases "P x") auto
qed simp

context reader
begin

lemma buf_reads: "reader (buf_read read) (buf_pending pending) (bufreader_ok ok) (\<lambda>n. sizes n \<and> small n)"
proof
  fix b :: "'s BufReader" and n :: int
  assume b: "bufreader_ok ok b" and n: "sizes n \<and> small n" "0 < n"
  let ?P = "\<lambda>piece b'. buf_read read n b = Some (Inr piece, b') \<and>
    buf_pending pending b = piece @ buf_pending pending b' \<and> int (length piece) \<le> n \<and> (piece = [] \<longrightarrow> buf_pending pending b = []) \<and>
    (piece \<noteq> [] \<longrightarrow> bufreader_ok ok b')"
  show "\<exists>piece b'. ?P piece b'"
  proof (cases "pos b < int (length (buf b))")
    case True
    have w: "w64 (pos b + n) = pos b + n"
      using b n by (intro w64_id) (simp add: bufreader_ok_def small_def range_simps)
    define stop where "stop = min (pos b + n) (int (length (buf b)))"
    have st: "pos b < stop" "stop \<le> int (length (buf b))" "stop \<le> pos b + n" using True n by (auto simp: stop_def)
    have "0 \<le> pos b" using b by (simp add: bufreader_ok_def)
    then have k: "nat (pos b) < nat stop" "nat stop \<le> length (buf b)" using st by linarith+
    have p: "drop (nat (pos b)) (buf b) = kod_slice (buf b) (pos b) stop @ drop (nat stop) (buf b)"
      using append_take_drop_id [of "nat stop - nat (pos b)" "drop (nat (pos b)) (buf b)"] k by (simp add: kod_slice_def drop_take)
    have "length (kod_slice (buf b) (pos b) stop) = nat stop - nat (pos b)" using k by (simp add: kod_slice_def)
    then have l: "kod_slice (buf b) (pos b) stop \<noteq> []" "int (length (kod_slice (buf b) (pos b) stop)) \<le> n"
      using k st \<open>0 \<le> pos b\<close> by (auto simp del: length_0_conv simp: length_0_conv [symmetric])
    have "buf_read read n b = Some (Inr (kod_slice (buf b) (pos b) stop), b\<lparr>pos := stop\<rparr>)"
      using True n(2) w by (simp add: buf_read_def Let_def stop_def min_def)
    then have "?P (kod_slice (buf b) (pos b) stop) (b\<lparr>pos := stop\<rparr>)"
      using p l b k st by (simp add: buf_pending_def bufreader_ok_def)
    then show ?thesis by blast
  next
    case False
    then have "drop (nat (pos b)) (buf b) = []" by simp
    moreover obtain piece s' where "read n (inner b) = Some (Inr piece, s')" "pending (inner b) = piece @ pending s'"
      "int (length piece) \<le> n" "piece = [] \<longrightarrow> pending (inner b) = []" "piece \<noteq> [] \<longrightarrow> ok s'"
      using reads [of "inner b" n] b n by (auto simp: bufreader_ok_def)
    ultimately have "?P piece (b\<lparr>inner := s'\<rparr>)"
      using False n(2) b by (auto simp: buf_read_def buf_pending_def bufreader_ok_def)
    then show ?thesis by blast
  qed
qed

text \<open>A call that finds the buffer used up either meets the end of the stream or refills the buffer.\<close>

lemma until_fill_cases:
  assumes "bufreader_ok ok b" and "sizes (chunk b)"
  obtains (end_of_stream) s' where "buf_pending pending b = []" "pending s' = []" "int (length (buf b)) \<le> pos b"
      "until_fill read out b = Some (Some (Inr (if out = [] then None else Some out)), b\<lparr>inner := s', ended := ended b \<or> out \<noteq> []\<rparr>)"
  | (filled) b' where "until_fill read out b = Some (None, b')" "bufreader_ok ok b'" "pos b' < int (length (buf b'))"
      "buf_pending pending b' = buf_pending pending b" "limit b' = limit b" "chunk b' = chunk b" "ended b' = ended b"
proof (cases "pos b < int (length (buf b))")
  case True
  then show ?thesis using assms(1) filled [of b] by (simp add: until_fill_def)
next
  case False
  obtain got s' where r: "read (chunk b) (inner b) = Some (Inr got, s')" "pending (inner b) = got @ pending s'"
    "int (length got) \<le> chunk b" "got = [] \<longrightarrow> pending (inner b) = []" "got \<noteq> [] \<longrightarrow> ok s'"
    using reads [of "inner b" "chunk b"] assms by (auto simp: bufreader_ok_def)
  show ?thesis
  proof (cases "got = []")
    case True
    have "until_fill read out b = Some (Some (Inr (if out = [] then None else Some out)), b\<lparr>inner := s', ended := ended b \<or> out \<noteq> []\<rparr>)"
      using False r(1) True by (simp add: until_fill_def)
    then show ?thesis using end_of_stream [of s'] False r(2,4) True by (simp add: buf_pending_def)
  next
    case got: False
    have "int (length got) < 2 ^ 62" using r(3) assms(1) by (simp add: bufreader_ok_def)
    then have "length got < 2 ^ 62" by simp
    then show ?thesis
      using filled [of "b\<lparr>inner := s', buf := got, pos := 0\<rparr>"] False got r assms(1)
      by (simp add: until_fill_def buf_pending_def bufreader_ok_def)
  qed
qed

lemma until_scan_cases:
  fixes delim :: int and out :: "byte list"
  defines "line \<equiv> \<lambda>p. takeWhile (\<lambda>c :: byte. uint c \<noteq> delim) p"
  assumes "bufreader_ok ok b" and "pos b < int (length (buf b))"
  obtains (too_long) out' where "until_scan delim out b = Some (Some (Inl line_too_long), out', b)"
      "limit b < int (length (out @ line (buf_pending pending b)))"
  | (found) b' where "until_scan delim out b = Some (Some (Inr (Some (out @ line (buf_pending pending b)))), out @ line (buf_pending pending b), b')"
      "int (length (out @ line (buf_pending pending b))) \<le> limit b" "delim \<in> uint ` set (buf_pending pending b)" "bufreader_ok ok b'"
      "buf_pending pending b' = drop (Suc (length (line (buf_pending pending b)))) (buf_pending pending b)"
      "limit b' = limit b" "chunk b' = chunk b" "ended b' = ended b"
  | (through) rest b' where "until_scan delim out b = Some (None, out @ rest, b')" "rest \<noteq> []" "\<forall>c \<in> set rest. uint c \<noteq> delim"
      "int (length (out @ rest)) \<le> limit b" "buf_pending pending b = rest @ buf_pending pending b'" "bufreader_ok ok b'"
      "limit b' = limit b" "chunk b' = chunk b" "ended b' = ended b"
proof -
  define rest where "rest = drop (nat (pos b)) (buf b)"
  have p: "buf_pending pending b = rest @ pending (inner b)" by (simp add: buf_pending_def rest_def)
  have rest: "rest \<noteq> []" using assms(2,3) by (auto simp: rest_def bufreader_ok_def)
  have pos: "0 \<le> pos b" "pos b \<le> int (length (buf b))" using assms(2) by (simp_all add: bufreader_ok_def)
  note scan = until_scan_eq [OF pos, of delim out, folded rest_def line_def, unfolded Let_def]
  have n: "int (length rest) = int (length (buf b)) - pos b" using pos by (simp add: rest_def of_nat_diff)
  consider "int (length (out @ line rest)) > limit b"
    | "int (length (out @ line rest)) \<le> limit b" "\<forall>c \<in> set rest. uint c \<noteq> delim"
    | "int (length (out @ line rest)) \<le> limit b" "\<not> (\<forall>c \<in> set rest. uint c \<noteq> delim)" by linarith
  then show ?thesis
  proof cases
    case 1
    then have "int (length (out @ line (buf_pending pending b))) > limit b"
      unfolding p line_def using takeWhile_prefix_le [of "\<lambda>c. uint c \<noteq> delim" rest "pending (inner b)"] by simp
    then show ?thesis using too_long scan 1 by simp
  next
    case 2
    then have "line rest = rest" by (simp add: line_def takeWhile_eq_all_conv)
    then show ?thesis
      using through [of rest "b\<lparr>pos := int (length (buf b))\<rparr>"] scan 2 rest p assms(2) by (simp add: bufreader_ok_def buf_pending_def)
  next
    case 3
    then have l: "line (buf_pending pending b) = line rest" "length (line rest) < length rest" and f: "delim \<in> uint ` set rest"
      unfolding line_def p using takeWhile_found [of rest "\<lambda>c. uint c \<noteq> delim" "pending (inner b)"] by auto
    let ?b = "b\<lparr>pos := pos b + int (length (line rest)) + 1\<rparr>"
    have e: "nat (pos b + int (length (line rest)) + 1) = Suc (length (line rest)) + nat (pos b)" using pos(1) by linarith
    have "buf_pending pending ?b = drop (Suc (length (line rest))) rest @ pending (inner b)"
      unfolding rest_def drop_drop by (simp add: buf_pending_def e [unfolded rest_def])
    moreover have "bufreader_ok ok ?b" using assms(2) l(2) n by (simp add: bufreader_ok_def)
    ultimately show ?thesis using found [of ?b] scan 3(1) l f p by (simp add: image_Un)
  qed
qed

lemma until_loop_pending:
  "bufreader_ok ok b \<Longrightarrow> sizes (chunk b) \<Longrightarrow> int (length out) \<le> limit b \<Longrightarrow>
   \<exists>b'. until_loop read delim out b = Some (until_result delim (limit b) out (buf_pending pending b), b') \<and>
     (int (length (out @ takeWhile (\<lambda>c. uint c \<noteq> delim) (buf_pending pending b))) \<le> limit b \<longrightarrow>
       buf_pending pending b' = drop (Suc (length (takeWhile (\<lambda>c. uint c \<noteq> delim) (buf_pending pending b)))) (buf_pending pending b) \<and>
       (if delim \<in> uint ` set (buf_pending pending b)
        then bufreader_ok ok b' \<and> limit b' = limit b \<and> chunk b' = chunk b \<and> ended b' = ended b
        else ended b' \<longleftrightarrow> ended b \<or> out \<noteq> [] \<or> buf_pending pending b \<noteq> []))"
proof (induction "length (buf_pending pending b)" arbitrary: b out rule: less_induct)
  case less
  from less.prems(1,2) show ?case
  proof (cases rule: until_fill_cases [where out = out])
    case (end_of_stream s')
    then show ?thesis using less.prems(3)
      by (subst until_loop.simps) (auto simp: until_result_def buf_pending_def)
  next
    case (filled b1)
    note same = filled(4-7)
    from filled(2,3) show ?thesis
    proof (cases rule: until_scan_cases [where delim = delim and out = out])
      case (too_long out')
      then show ?thesis using filled(1) same by (subst until_loop.simps) (simp add: until_result_def Let_def)
    next
      case (found b2)
      then have "buf_pending pending b \<noteq> []" using same by auto
      then show ?thesis using found filled(1) same
        by (subst until_loop.simps) (simp add: until_result_def Let_def)
    next
      case (through rest b2)
      have loop: "until_loop read delim out b = until_loop read delim (out @ rest) b2"
        using filled(1) through(1) by (subst until_loop.simps) simp
      have shorter: "length (buf_pending pending b2) < length (buf_pending pending b)" using through(2,5) same by simp
      have b2: "sizes (chunk b2)" "int (length (out @ rest)) \<le> limit b2" using through(4,7,8) same less.prems(2) by simp_all
      have p: "buf_pending pending b = rest @ buf_pending pending b2" "limit b2 = limit b" "chunk b2 = chunk b" "ended b2 = ended b"
        using through(5,7-9) same by simp_all
      show ?thesis
        using less.hyps [OF shorter through(6) b2] through(2,3) unfolding loop p
        by (auto simp: until_result_def Let_def takeWhile_append2 image_Un)
    qed
  qed
qed

lemma read_until_pending:
  assumes "bufreader_ok ok b" and "sizes (chunk b)" and "0 \<le> limit b"
  shows "\<exists>b'. read_until read delim b = Some (until_result delim (limit b) [] (buf_pending pending b), b') \<and>
     (int (length (takeWhile (\<lambda>c. uint c \<noteq> delim) (buf_pending pending b))) \<le> limit b \<longrightarrow>
       buf_pending pending b' = drop (Suc (length (takeWhile (\<lambda>c. uint c \<noteq> delim) (buf_pending pending b)))) (buf_pending pending b) \<and>
       (if delim \<in> uint ` set (buf_pending pending b)
        then bufreader_ok ok b' \<and> limit b' = limit b \<and> chunk b' = chunk b \<and> ended b' = ended b
        else ended b' \<longleftrightarrow> ended b \<or> buf_pending pending b \<noteq> []))"
  unfolding read_until_def using until_loop_pending [OF assms(1,2), of "[]" delim] assms(3) by (simp split del: if_split cong: if_cong)

end

section \<open>What a writer promises\<close>

locale writer =
  fixes wr :: "'s writing" and written :: "'s \<Rightarrow> byte list"
  assumes writes: "data \<noteq> [] \<Longrightarrow> \<exists>n s'. wr data s = Some (Inr (int n), s') \<and> 0 < n \<and> n \<le> length data \<and> written s' = written s @ take n data"
begin

lemma write_all_loop_written:
  "d \<le> length data \<Longrightarrow> int (length data) \<le> INT64_MAX \<Longrightarrow>
   \<exists>s'. write_all_loop wr data (int d) s = Some (Inr (), s') \<and> written s' = written s @ drop d data"
proof (induction "length data - d" arbitrary: d s rule: less_induct)
  case less
  show ?case
  proof (cases "d < length data")
    case True
    then obtain n s' where n: "wr (drop d data) s = Some (Inr (int n), s')" "0 < n" "n \<le> length data - d"
      "written s' = written s @ take n (drop d data)"
      using writes [of "drop d data" s] by auto
    have w: "w64 (int d + int n) = int (d + n)" using n(3) True less.prems(2) by (subst w64_id) (auto simp: range_simps)
    have "write_all_loop wr data (int d) s = write_all_loop wr data (int (d + n)) s'"
      using True n(1,2) w by (subst write_all_loop.simps) (simp add: kod_slice_def)
    then show ?thesis
      using less.hyps [of "d + n" s'] less.prems(2) n True append_take_drop_id [of n "drop d data"] by (simp add: add.commute)
  next
    case False
    then show ?thesis using less.prems(1) by (subst write_all_loop.simps) simp
  qed
qed

lemma write_all_written:
  "int (length data) \<le> INT64_MAX \<Longrightarrow> \<exists>s'. write_all wr data s = Some (Inr (), s') \<and> written s' = written s @ data"
  using write_all_loop_written [of 0 data s] by (simp add: write_all_def)

end

section \<open>The streams of the library\<close>

definition mem_pending :: "MemReader \<Rightarrow> byte list" where
  "mem_pending r = drop (nat (mr_pos r)) (mr_data r)"

definition mem_ok :: "MemReader \<Rightarrow> bool" where
  "mem_ok r \<longleftrightarrow> 0 \<le> mr_pos r \<and> mr_pos r \<le> int (length (mr_data r)) \<and> length (mr_data r) < 2 ^ 62"

interpretation mem: reader mem_read mem_pending mem_ok small
proof
  fix r :: MemReader and n :: int
  assume r: "mem_ok r" and n: "small n" "0 < n"
  have w: "w64 (mr_pos r + n) = mr_pos r + n"
    using r n by (intro w64_id) (simp add: mem_ok_def small_def range_simps)
  have v: "w64 (mr_pos r + int k) = mr_pos r + int k" if "k < 2 ^ 62" for k
    using r that by (intro w64_id) (simp add: mem_ok_def range_simps)
  let ?piece = "take (nat n) (mem_pending r)"
  have "kod_slice (mr_data r) (mr_pos r) (mr_pos r + n) = ?piece"
    using r n by (simp add: kod_slice_def mem_pending_def drop_take mem_ok_def nat_add_distrib)
  moreover have "length ?piece < 2 ^ 62" using r by (auto simp: mem_pending_def mem_ok_def)
  moreover have "mr_pos r \<ge> int (length (mr_data r)) \<longleftrightarrow> mem_pending r = []" using r by (auto simp: mem_pending_def mem_ok_def)
  ultimately have e: "mem_read n r = Some (Inr ?piece, r\<lparr>mr_pos := mr_pos r + int (length ?piece)\<rparr>)"
    using n w v by (auto simp: mem_read_def Let_def)
  have "drop (nat (mr_pos r + int (length ?piece))) (mr_data r) = drop (length ?piece) (mem_pending r)"
    using r by (simp add: mem_pending_def mem_ok_def nat_add_distrib add.commute)
  then have "mem_pending r = ?piece @ mem_pending (r\<lparr>mr_pos := mr_pos r + int (length ?piece)\<rparr>)"
    by (simp add: mem_pending_def [of "r\<lparr>mr_pos := x\<rparr>" for x] min_def)
  moreover have "mem_ok (r\<lparr>mr_pos := mr_pos r + int (length ?piece)\<rparr>)" using r by (auto simp: mem_ok_def mem_pending_def)
  moreover have "?piece = [] \<longrightarrow> mem_pending r = []" "int (length ?piece) \<le> n" using n by auto
  ultimately show "\<exists>piece r'. mem_read n r = Some (Inr piece, r') \<and> mem_pending r = piece @ mem_pending r' \<and> int (length piece) \<le> n \<and>
      (piece = [] \<longrightarrow> mem_pending r = []) \<and> (piece \<noteq> [] \<longrightarrow> mem_ok r')"
    using e by blast
qed

interpretation memw: writer mem_write mw_buf
  by unfold_locales (auto simp: mem_write_def)

text \<open>
  What a descriptor still delivers, read off the answers of the kernel: the data up to the first empty answer, which is the
  end of the file and stays so, with the interruptions left out. No answer is longer than \<open>cap\<close>, which the requests are not below.
\<close>

fun ans_pending :: "answer list \<Rightarrow> byte list" where
  "ans_pending (Data bs # as) = (if bs = [] then [] else bs @ ans_pending as)"
| "ans_pending (Fail e # as) = ans_pending as"
| "ans_pending _ = []"

fun ans_ok :: "int \<Rightarrow> answer list \<Rightarrow> bool" where
  "ans_ok cap (Data bs # as) = (int (length bs) \<le> cap \<and> (if bs = [] then ans_pending as = [] else ans_ok cap as))"
| "ans_ok cap (Fail e # as) = (e = EINTR \<and> ans_ok cap as)"
| "ans_ok cap _ = False"

lemma ans_ok_next:
  "ans_ok cap as \<Longrightarrow> \<exists>k bs rest. as = replicate k (Fail EINTR) @ Data bs # rest \<and> int (length bs) \<le> cap \<and>
    ans_pending as = bs @ ans_pending rest \<and> (if bs = [] then ans_pending rest = [] else ans_ok cap rest)"
proof (induction cap as rule: ans_ok.induct)
  case (1 cap bs as)
  show ?case using 1(2) by (intro exI [of _ 0] exI [of _ bs] exI [of _ as]) auto
next
  case (2 cap e as)
  then obtain k bs rest where "as = replicate k (Fail EINTR) @ Data bs # rest" "int (length bs) \<le> cap"
    "ans_pending as = bs @ ans_pending rest" "if bs = [] then ans_pending rest = [] else ans_ok cap rest" by auto
  then show ?case using 2 by (intro exI [of _ "Suc k"] exI [of _ bs] exI [of _ rest]) simp
qed simp_all

definition fd_pending :: "'a io_scheme \<Rightarrow> byte list" where
  "fd_pending w = ans_pending (answers w)"

definition fd_ok :: "int \<Rightarrow> 'a io_scheme \<Rightarrow> bool" where
  "fd_ok cap w \<longleftrightarrow> cap \<le> 65536 \<and> ans_ok cap (answers w)"

interpretation fdr: reader "fd_stream_read strerror fd" fd_pending "fd_ok cap" "\<lambda>m. cap \<le> m" for strerror fd cap
proof
  fix w :: "'a io_scheme" and n :: int
  assume w: "fd_ok cap w" and n: "cap \<le> n" "0 < n"
  obtain k bs rest where a: "answers w = replicate k (Fail EINTR) @ Data bs # rest" "int (length bs) \<le> cap"
    "fd_pending w = bs @ ans_pending rest" "if bs = [] then ans_pending rest = [] else ans_ok cap rest"
    using ans_ok_next w unfolding fd_ok_def fd_pending_def by blast
  let ?w = "w\<lparr>answers := rest, issued := issued w @ replicate (Suc k) (Read (c_int fd) (min n 65536)), g_io_errno := 0\<rparr>"
  have "kod_fd_read fd n w = Some (bs, ?w)" using fd_read.success [OF n(2) a(1), of bs fd] by simp
  then have "fd_stream_read strerror fd n w = Some (Inr bs, ?w)" by (simp add: fd_stream_read_def kod_io_errno_def)
  then show "\<exists>piece w'. fd_stream_read strerror fd n w = Some (Inr piece, w') \<and> fd_pending w = piece @ fd_pending w' \<and>
      int (length piece) \<le> n \<and> (piece = [] \<longrightarrow> fd_pending w = []) \<and> (piece \<noteq> [] \<longrightarrow> fd_ok cap w')"
    using a(2-4) n w by (auto simp: fd_pending_def fd_ok_def)
qed

section \<open>Writing to a descriptor\<close>

text \<open>
  The answers and the calls of a sequence of writes: for each pair, so many interruptions and then so many bytes that the kernel takes
  of what is left.
\<close>

fun write_answers :: "(nat \<times> nat) list \<Rightarrow> answer list" where
  "write_answers [] = []"
| "write_answers ((k, n) # ps) = replicate k (Fail EINTR) @ Ret (int n) # write_answers ps"

fun write_calls :: "int \<Rightarrow> byte list \<Rightarrow> (nat \<times> nat) list \<Rightarrow> syscall list" where
  "write_calls fd data [] = []"
| "write_calls fd data ((k, n) # ps) = replicate (Suc k) (Write (c_int fd) data) @ write_calls fd (drop n data) ps"

lemma fd_write_all_loop:
  fixes w :: "'a io_scheme"
  assumes "int (length data) \<le> INT64_MAX"
  shows "answers w = write_answers ps @ as \<Longrightarrow> \<forall>p \<in> set ps. 0 < snd p \<Longrightarrow> d + sum_list (map snd ps) = length data \<Longrightarrow>
   \<exists>w'. write_all_loop (fd_stream_write strerror fd) data (int d) w = Some (Inr (), w') \<and> answers w' = as \<and>
     issued w' = issued w @ write_calls fd (drop d data) ps"
proof (induction ps arbitrary: d w)
  case Nil
  then show ?case by (subst write_all_loop.simps) simp
next
  case (Cons p ps)
  obtain k n where p: "p = (k, n)" by (cases p)
  have d: "d < length data" "drop d data \<noteq> []" "d + n \<le> length data" "0 < n" using Cons.prems(2,3) p by auto
  let ?w = "w\<lparr>answers := write_answers ps @ as, issued := issued w @ replicate (Suc k) (Write (c_int fd) (drop d data)), g_io_errno := 0\<rparr>"
  have a: "answers w = replicate k (Fail EINTR) @ Ret (int n) # write_answers ps @ as" using Cons.prems(1) p by simp
  have "kod_fd_write fd (drop d data) w = Some (int n, ?w)"
    using fd_write.success [OF d(2) a, of "int n" fd] by simp
  then have call: "fd_stream_write strerror fd (drop d data) w = Some (Inr (int n), ?w)" by (simp add: fd_stream_write_def)
  have "w64 (int d + int n) = int (d + n)" using d assms by (subst w64_id) (auto simp: range_simps)
  then have loop: "write_all_loop (fd_stream_write strerror fd) data (int d) w =
      write_all_loop (fd_stream_write strerror fd) data (int (d + n)) ?w"
    using d(1,4) call by (subst write_all_loop.simps) (simp add: kod_slice_def)
  show ?case using Cons.IH [of ?w "d + n"] Cons.prems(2,3) p unfolding loop by (simp add: add.commute add.assoc)
qed

section \<open>Properties\<close>

text \<open>
  The sum of a position and a size is taken at 64 bits. A request near the largest integer makes it negative, and the reader
  answers with no bytes, which means the end of the stream, while bytes are pending; a \<open>BufReader\<close> is left with a negative
  position.
\<close>

lemma mem_read_overflow:
  "mem_read INT64_MAX \<lparr>mr_data = [1, 2, 3], mr_pos = 1\<rparr> = Some (Inr [], \<lparr>mr_data = [1, 2, 3], mr_pos = 1\<rparr>)"
  by (simp add: mem_read_def INT64_MAX_def w64_def kod_slice_def)

lemma buf_read_overflow:
  "buf_read read INT64_MAX \<lparr>inner = s, limit = 10, chunk = 5, buf = [1, 2, 3], pos = 1, ended = False\<rparr> =
    Some (Inr [], \<lparr>inner = s, limit = 10, chunk = 5, buf = [1, 2, 3], pos = INT64_MIN, ended = False\<rparr>)"
  by (simp add: buf_read_def INT64_MAX_def INT64_MIN_def w64_def kod_slice_def)

lemma strip_cr_eq: "strip_cr s = (if s \<noteq> [] \<and> last s = 13 then butlast s else s)"
  using nat_diff_distrib [of 1 "int (length s)"]
  by (cases "s = []") (simp_all add: strip_cr_def Let_def kod_slice_def last_conv_nth butlast_conv_take Suc_le_eq)

text \<open>
  C38. \<open>BufReader.read_line\<close> on any stream that keeps the contract of \<open>Reader\<close>, wherever the boundaries of its pieces fall: the line is what
  the stream delivers up to the next line feed, without a carriage return at its end; at the end of the stream
  the answer is none; a line over the limit is an \<open>InvalidInput\<close> error. The line feed is consumed and what follows it
  is still pending; \<open>ended\<close> is set exactly when a last piece had no line feed.
\<close>

theorem read_line_correct:
  assumes "reader read pending ok sizes" and "bufreader_ok ok b" and "sizes (chunk b)" and "0 \<le> limit b"
    and "p = buf_pending pending b" and "line = takeWhile (\<lambda>c. c \<noteq> 10) p"
  shows "\<exists>b'. read_line read b = Some (
      if int (length line) > limit b then Inl line_too_long
      else if p = [] then Inr None
      else Inr (Some (if line \<noteq> [] \<and> last line = 13 then butlast line else line)), b') \<and>
    (int (length line) \<le> limit b \<longrightarrow> buf_pending pending b' = drop (Suc (length line)) p \<and>
      (if 10 \<in> set p then bufreader_ok ok b' \<and> ended b' = ended b else ended b' \<longleftrightarrow> ended b \<or> p \<noteq> []))"
proof -
  have ne: "(\<lambda>c :: byte. uint c \<noteq> 10) = (\<lambda>c. c \<noteq> 10)" by (auto simp: word_uint_eq_iff)
  have mem: "10 \<in> uint ` set p \<longleftrightarrow> 10 \<in> set p" using ne by (auto simp: fun_eq_iff image_iff)
  obtain b' where b': "read_until read 10 b = Some (until_result 10 (limit b) [] p, b')"
    "int (length line) \<le> limit b \<longrightarrow> buf_pending pending b' = drop (Suc (length line)) p \<and>
      (if 10 \<in> set p then bufreader_ok ok b' \<and> limit b' = limit b \<and> chunk b' = chunk b \<and> ended b' = ended b else ended b' \<longleftrightarrow> ended b \<or> p \<noteq> [])"
    using reader.read_until_pending [OF assms(1-4), of 10, folded assms(5), unfolded ne, folded assms(6), unfolded mem] by blast
  show ?thesis
    using b' assms(6)
    by (intro exI [of _ b']) (auto simp: read_line_def until_result_def Let_def ne strip_cr_eq split: if_splits)
qed

theorem read_line_correct_witness:
  "\<exists>b' :: io BufReader. read_line (fd_stream_read (\<lambda>_. []) 0)
      \<lparr>inner = \<lparr>answers = [Data [104], Fail EINTR, Data [105, 13, 10, 120], Data []], issued = [], g_io_errno = 0, environ = (\<lambda>_. None)\<rparr>,
        limit = 1048576, chunk = 8192, buf = [], pos = 0, ended = False\<rparr> =
    Some (Inr (Some [104, 105]), b') \<and> buf_pending fd_pending b' = [120]"
proof -
  let ?w = "\<lparr>answers = [Data [104], Fail EINTR, Data [105, 13, 10, 120], Data []], issued = [], g_io_errno = 0, environ = (\<lambda>_. None)\<rparr> :: io"
  let ?b = "\<lparr>inner = ?w, limit = 1048576, chunk = 8192, buf = [], pos = 0, ended = False\<rparr> :: io BufReader"
  have b: "bufreader_ok (fd_ok 8192) ?b" by (simp add: bufreader_ok_def fd_ok_def)
  have p: "buf_pending fd_pending ?b = [104, 105, 13, 10, 120]" by (simp add: buf_pending_def fd_pending_def)
  from read_line_correct [OF fdr.reader_axioms b _ _ refl refl, of "\<lambda>_. []" 0, unfolded p] show ?thesis by auto
qed

text \<open>
  C39. \<open>BufReader.read_exact\<close> on any stream: exactly the next \<open>n\<close> bytes, what is buffered first, or the \<open>UnexpectedEof\<close> error
  that tells how many there were; nothing beyond them is consumed.
\<close>

theorem buf_read_exact_correct:
  assumes "reader read pending ok sizes" and "bufreader_ok ok b" and "\<forall>k. 0 < k \<and> k \<le> n \<longrightarrow> sizes k" and "0 \<le> n" and "n < 2 ^ 62"
    and "p = buf_pending pending b"
  shows "\<exists>b'. buf_read_exact read n b = Some (if n \<le> int (length p) then Inr (take (nat n) p) else Inl (early_end (length p) n), b') \<and>
    buf_pending pending b' = drop (nat n) p"
  unfolding buf_read_exact_def assms(6)
  by (rule reader.read_exact_pending [OF reader.buf_reads [OF assms(1)] assms(2)]) (use assms(3-5) in \<open>auto simp: small_def\<close>)

theorem buf_read_exact_correct_witness:
  "\<exists>b'. buf_read_exact mem_read 4 \<lparr>inner = \<lparr>mr_data = [7, 8, 9], mr_pos = 0\<rparr>, limit = 10, chunk = 5, buf = [4, 5, 6], pos = 1, ended = False\<rparr> =
    Some (Inr [5, 6, 7, 8], b') \<and> buf_pending mem_pending b' = [9]"
proof -
  let ?b = "\<lparr>inner = \<lparr>mr_data = [7, 8, 9], mr_pos = 0\<rparr>, limit = 10, chunk = 5, buf = [4, 5, 6], pos = 1, ended = False\<rparr> :: MemReader BufReader"
  have "bufreader_ok mem_ok ?b" by (simp add: bufreader_ok_def mem_ok_def)
  from buf_read_exact_correct [OF mem.reader_axioms this _ _ _ refl, of 4] show ?thesis
    by (simp add: buf_pending_def mem_pending_def small_def)
qed

text \<open>
  \<open>read_all\<close> on a descriptor, through the C runtime: the result is all the data the kernel hands over up to its first empty
  answer, in order, whatever the sizes of the pieces up to 64 KiB and however often signals interrupt the calls.
\<close>

theorem fd_read_all:
  fixes w :: "'a io_scheme"
  assumes "ans_ok 65536 (answers w)"
  shows "\<exists>w'. read_all (fd_stream_read strerror fd) w = Some (Inr (ans_pending (answers w)), w')"
  using fdr.read_all_pending [of 65536 w strerror fd] assms by (auto simp: fd_ok_def fd_pending_def)

theorem fd_read_all_witness:
  "\<exists>w' :: io. read_all (fd_stream_read (\<lambda>_. []) 3)
    \<lparr>answers = [Data [1, 2], Fail EINTR, Data [3], Data []], issued = [], g_io_errno = 0, environ = (\<lambda>_. None)\<rparr> = Some (Inr [1, 2, 3], w')"
proof -
  let ?w = "\<lparr>answers = [Data [1, 2], Fail EINTR, Data [3], Data []], issued = [], g_io_errno = 0, environ = (\<lambda>_. None)\<rparr> :: io"
  have "ans_ok 65536 (answers ?w)" by simp
  from fd_read_all [OF this, of "\<lambda>_. []" 3] show ?thesis by simp
qed

text \<open>
  C40. \<open>write_all\<close> on a descriptor, through the C runtime: while the kernel takes at least a byte of each request, every byte is
  written once and in order. Each call asks for exactly what is left, an interrupted call is repeated, and no call is made after the
  last byte, nor for empty data.
\<close>

theorem fd_write_all:
  fixes w :: "'a io_scheme"
  assumes "int (length data) \<le> INT64_MAX" and "answers w = write_answers ps @ as" and "\<forall>p \<in> set ps. 0 < snd p"
    and "sum_list (map snd ps) = length data"
  shows "\<exists>w'. write_all (fd_stream_write strerror fd) data w = Some (Inr (), w') \<and> answers w' = as \<and>
    issued w' = issued w @ write_calls fd data ps"
  using fd_write_all_loop [OF assms(1-3), of 0] assms(4) by (simp add: write_all_def)

theorem fd_write_all_witness:
  "\<exists>w' :: io. write_all (fd_stream_write (\<lambda>_. []) 1) [5, 6, 7]
    \<lparr>answers = [Fail EINTR, Ret 2, Ret 1], issued = [], g_io_errno = 0, environ = (\<lambda>_. None)\<rparr> = Some (Inr (), w') \<and>
    issued w' = [Write 1 [5, 6, 7], Write 1 [5, 6, 7], Write 1 [7]]"
proof -
  let ?w = "\<lparr>answers = [Fail EINTR, Ret 2, Ret 1], issued = [], g_io_errno = 0, environ = (\<lambda>_. None)\<rparr> :: io"
  have "answers ?w = write_answers [(1, 2), (0, 1)] @ []" by simp
  from fd_write_all [OF _ this, of "[5, 6, 7]" "\<lambda>_. []" 1] show ?thesis
    by (simp add: INT64_MAX_def c_int_def) blast
qed

end
