(* ===== verification/Spec2Isabelle.thy ===== *)
theory Spec2Isabelle
  imports Kod_Arena Kod_Str Kod_StrBuilder Kod_Array Kod_Lsp Kod_Profiler Kod_Posix Kod_Stdio Kod_Test Kod_Files Kod_Inflate Kod_Tcp Kod_Float64 Kod_Process Kod_Tls Kod_Inspect
    Kod_Map Kod_Sort Kod_Crc32 Kod_Base64 Kod_Strings Kod_Utf8 Kod_Distance Kod_Timestamp Kod_Stream
begin

text \<open>
  A verification development for the runtime of the Kod language: the C files under \<open>src/stdlib\<close> that every compiled
  Kod program is linked with and the one C file of the link tests, all of them, and on top of them the core of the standard
  library that is written in Kod itself.

  \<^bold>\<open>The program.\<close> The Kod compiler (written in Kod) emits ARM64 code that calls the runtime for memory,
  strings, arrays, output, panics and the operating system. \<open>arena.c\<close> is the memory: a bump allocator over
  a chain of \<open>malloc\<close> blocks, reset as a whole. \<open>runtime.c\<close> builds strings, builders and arrays in it and
  holds the rest of the runtime: the language server's state that survives a reset, the sampling
  profiler, streams, panics, files, processes, environment, time, \<open>float64\<close> and the test framework.
  \<open>net/tcp.c\<close>, \<open>net/tls.c\<close> and \<open>compress/inflate.c\<close> are the C sides of three library modules; \<open>kod_rt.h\<close>
  is what they share with the runtime. The library modules in Kod are compiled with the program: the hash table behind \<open>Map\<close> and \<open>Set\<close>,
  sorting, string methods, dates, encodings and byte streams; the streams end in the C functions for descriptors.

  \<^bold>\<open>Conventions.\<close>
  \<^item> An \<open>int64_t\<close> is an \<open>int\<close> with its range checked where the code computes (\<open>chk64\<close>); the conversion to
    \<open>int\<close> wraps (\<open>c_int\<close>); words are used where the code works on bits.
  \<^item> The result \<open>None\<close> is behaviour the C standard does not define (an access outside an object, a
    double free, signed overflow, \<open>CFRelease(NULL)\<close>) or a run that never ends. A theorem with \<open>= Some\<close>
    in its conclusion therefore says that the code is safe on that input and returns.
  \<^item> Kod's own arithmetic wraps at 64 bits (\<open>w64\<close>), and an index out of range panics, which is \<open>None\<close> as well; the theories on Kod
    code follow that instead (\<open>Kod_Lang\<close>).
  \<^item> In the theories on the heap a \<open>KodStr *\<close> or \<open>KodArray *\<close> is an address and memory is bytes, so
    aliasing and overlap are those of the code. In the theories above it a string is its bytes.
  \<^item> The kernel is the list of answers it gives, in order (\<open>Kod_OS\<close>); the calls issued are recorded. What
    is acquired and released (descriptors, streams, blocks, children, framework objects) is counted
    in ghost fields of the state, which no operation reads.
  \<^item> Code that is not in the repository is a parameter: \<open>malloc\<close>, \<open>memcmp\<close>, the buffering of standard output,
    the resolver, zlib, SecureTransport. What is assumed of it is a named predicate (\<open>malloc_ok\<close>,
    \<open>memcmp_ok\<close>, \<open>delivers\<close>, \<open>breaks_on_auth\<close>, \<open>zlib_bounded\<close>, \<open>zlib_progress\<close>), and every property that uses one has an
    instance with a concrete function.
  \<^item> \<open>malloc\<close> may return NULL. Where the code does not check for it (\<open>arena.c\<close>, the language server's state) that is \<open>None\<close>,
    and the theorems name the request: \<open>malloc_refuses\<close> for the arena, \<open>step_refused\<close> for the server's state. Only
    \<open>lsp_cache_never_stale\<close> assumes that it does not happen (\<open>cmalloc_has_room\<close>).
  \<^item> Two things are read literally as what the machine does: the comparison of \<open>current + size\<close> with the end of the block
    in \<open>arena_alloc\<close> is one of flat addresses, and a variable the code leaves uninitialised is a parameter (\<open>junk\<close>, the
    status word of a failed \<open>waitpid\<close>).

  \<^bold>\<open>Bounds and fuel.\<close> No definition has fuel chosen by hand, but for \<open>dec_digits\<close> (the digits of \<open>n\<close>, with
  \<open>n + 1\<close> steps). Loops with a bound in the code are structural or have a measure; loops that depend on the kernel
  or on memory are \<open>partial_function (option)\<close>, and the lemmas on them prove that they return.

  \<^bold>\<open>Theories.\<close>
  \<^item> \<open>Kod_Prelude\<close>: integers, little-endian images, memory, decimal text, the locales \<open>simulation\<close> (runs of
    an implementation stay related to runs of a specification) and \<open>partial_simulation\<close> (the same for runs that may stop
    at a refused request).
  \<^item> \<open>Kod_Arena\<close> (\<open>arena.c\<close>): allocation, reset. Fresh, aligned, disjoint objects; the invariant of
    all reachable heaps; what \<open>malloc\<close> refused when allocation stops; the reset frees every block once. Locale \<open>allocator\<close>.
  \<^item> \<open>Kod_Str\<close>, \<open>Kod_StrBuilder\<close>, \<open>Kod_Array\<close> (\<open>kod_str_*\<close>, \<open>kod_sb_*\<close>, \<open>kod_array_*\<close>, \<open>kod_bytes_from_array\<close>):
    each operation as a function of byte or slot lists, with everything else in the heap unchanged.
    Locales \<open>str_maker\<close>, \<open>byte_sink\<close>, \<open>arr_maker\<close>: the contract of the functions that make a string,
    extend a builder, make an array.
  \<^item> \<open>Kod_Lsp\<close> (\<open>lsp_*\<close>): the list of open documents and the cache refine a map; the cache is never stale;
    memory stays bounded; the server stops only where \<open>malloc\<close> returned NULL.
  \<^item> \<open>Kod_Profiler\<close> (\<open>kod_prof_handler\<close>, \<open>profiling_*\<close>): the recorded samples; the only way to a fault.
  \<^item> \<open>Kod_Inspect\<close> (\<open>_inspect_*\<close> and \<open>src/stdlib/kod/inspect.kod\<close>): raw memory reads and the backtrace
    walker. Locale \<open>row_scan\<close>: the two scans over the compiler's tables.
  \<^item> \<open>Kod_OS\<close>, \<open>Kod_Posix\<close> (\<open>kod_fd_*\<close>, \<open>kod_errno_*\<close>, \<open>kod_env_*\<close>, clocks, \<open>kod_sleep_ns\<close>): retried calls and
    their error slot (locale \<open>reported_call\<close>), the environment as a map, full sleeps.
  \<^item> \<open>Kod_Stdio\<close> (\<open>kod_puts\<close>, \<open>kod_panic\<close>, \<open>kod_index_oob\<close>, \<open>redirect_stdout\<close>), \<open>Kod_Test\<close> (\<open>kod_test_*\<close>,
    \<open>format_duration\<close>), \<open>Kod_Files\<close> (\<open>read_file\<close>, \<open>write_file\<close>, \<open>read_stdin_line\<close>, \<open>read_stdin_exact\<close>): the order of output
    under any buffering (locale \<open>ordered_writer\<close>), the reports and counters, the figures of a
    duration, whole files, the framing of standard input.
  \<^item> \<open>Kod_Double\<close>, \<open>Kod_Float64\<close> (\<open>kod_f64_*\<close>): doubles as bit patterns with correctly rounded conversions;
    printing and parsing are inverse; the accepted grammar; conversions; exact \<open>floor\<close>, \<open>ceil\<close>, \<open>round\<close>
    (locale \<open>integral_rounding\<close>).
  \<^item> \<open>Kod_Process\<close> (\<open>kod_run_process\<close>, \<open>kod_spawn\<close>, \<open>kod_kill\<close>, \<open>kod_exec\<close>): the captured output for every
    interleaving and every mix of data and hang-up, the calls made, and exactly when descriptors leak or a child stays unreaped.
  \<^item> \<open>Kod_Tcp\<close> (\<open>net/tcp.c\<close>): no descriptor or address list leaks (locale \<open>fd_source\<close>); the blocking mode is
    restored.
  \<^item> \<open>Kod_Tls\<close> (\<open>net/tls.c\<close>): the callbacks with the calls they make, opening as all or nothing and only with a trusted server,
    reading. SecureTransport is a parameter whose calls are trees of requests to the callbacks; what is done with a trust
    object is logged in order.
  \<^item> \<open>Kod_Inflate\<close> (\<open>compress/inflate.c\<close>, \<open>tests/link/zlib_crc.c\<close>): the output limit, decoding of all
    members, everything released.
  \<^item> \<open>Kod_Lang\<close>, \<open>Kod_Decimal\<close>: the operators, indexing and slices of Kod; decimal text and its value.
  \<^item> \<open>Kod_Map\<close> (\<open>builtins.kod\<close>, \<open>sets.kod\<close>, the \<open>hash\<close> methods): open addressing with perturbation and the insertion-ordered entries refine a
    partial map for every hash function, and probing ends.
  \<^item> \<open>Kod_Sort\<close> (\<open>sort.kod\<close>): the bottom-up merge sort returns for every comparison; sorted and stable for an order.
  \<^item> \<open>Kod_Crc32\<close> (\<open>hash/crc32.kod\<close>), \<open>Kod_Base64\<close> (\<open>encoding/base64.kod\<close>): the table-driven checksum is the shift register; decoding accepts
    exactly the encodings.
  \<^item> \<open>Kod_Strings\<close>, \<open>Kod_Utf8\<close>, \<open>Kod_Distance\<close> (\<open>primitives/str.kod\<close>, \<open>primitives/int64.kod\<close>): numbers and text, splitting and replacing,
    the permissive UTF-8 decoder (which takes overlong sequences, unlike its comments), the edit distance as the least number of edits.
  \<^item> \<open>Kod_Time\<close>, \<open>Kod_Timestamp\<close> (\<open>time.kod\<close>): durations, the calendar against counting days one by one, timestamps printed and parsed.
  \<^item> \<open>Kod_Stream\<close> (\<open>stream.kod\<close>, \<open>posix.kod\<close>): the interfaces \<open>Reader\<close> and \<open>Writer\<close> as the locales \<open>reader\<close> and \<open>writer\<close>, interpreted for memory and
    for descriptors over \<open>Kod_Posix\<close>; a \<open>BufReader\<close> over a reader is a reader; whole reads, exact reads, lines, whole writes.
  \<^item> This theory: what a panicking program leaves, from \<open>Kod_Stdio\<close> and \<open>Kod_Inspect\<close> together.

  \<^bold>\<open>Not modelled.\<close> The compiler, the build driver and the language server (\<open>src/stdlib/kod\<close>, \<open>src/tools\<close>), HTTP, JSON, JSON-RPC and the gzip
  framing, and the modules in Kod that are one call into the runtime per function (\<open>fs\<close>, \<open>io\<close>, \<open>env\<close>, \<open>process\<close>, \<open>net/tcp.kod\<close>,
  \<open>net/tls.kod\<close>). Correctness of the compiler would need a semantics of Kod and of the code it emits, which the sources do not state.
  Of the C files: includes and declarations, the signal mask and flags of the profiler's handler, and the memory of strings above the heap theories (they hand byte lists to
  \<open>kod_str_from_bytes\<close>, whose correctness is \<open>Kod_Str\<close>'s). Concurrency is only that of the profiler's signal
  handler: the runtime has no threads.
\<close>

section \<open>Panics with their backtrace\<close>

text \<open>
  \<open>print_backtrace_from\<close> of \<open>src/stdlib/kod/inspect.kod\<close>, which \<open>kod_panic\<close> and \<open>kod_index_oob\<close> call with
  their own frame pointer: the walk of \<open>Kod_Inspect\<close>, printed with \<open>kod_eprint\<close> of \<open>Kod_Stdio\<close>.
\<close>

definition frame_line :: "nat \<Rightarrow> Frame \<Rightarrow> byte list" where
  "frame_line i f = bytes_of ''  #'' @ dec_nat i @ bytes_of ''  '' @ fr_name f @ bytes_of '' ('' @ fr_file f @
     bytes_of '':'' @ dec_int (fr_line f) @ bytes_of '')''"

fun print_frames :: "nat \<Rightarrow> Frame list \<Rightarrow> 'a stdio_scheme \<Rightarrow> 'a stdio_scheme" where
  "print_frames i [] w = w"
| "print_frames i (f # fs) w = print_frames (i + 1) fs (kod_eprint (frame_line i f) w)"

definition print_backtrace_from :: "image \<Rightarrow> int \<Rightarrow> 'a stdio_scheme \<Rightarrow> 'a stdio_scheme option" where
  "print_backtrace_from I start_fp w = do {
     frames \<leftarrow> backtrace_from I start_fp;
     Some (print_frames 0 frames (kod_eprint (bytes_of ''backtrace:'') w))
   }"

definition backtrace_text :: "nat \<Rightarrow> Frame list \<Rightarrow> byte list" where
  "backtrace_text i fs = concat (map (\<lambda>(k, f). frame_line k f @ [10]) (enumerate i fs))"

lemma print_frames_text: "print_frames i fs w = fwrite_stderr (backtrace_text i fs) w"
  by (induction fs arbitrary: i w) (simp_all add: backtrace_text_def kod_eprint_def fwrite_stderr_def)

text \<open>
  C26. A program that panics while its stack and its symbol table are intact ends with a full report.
  Printing the backtrace returns, whatever the stack is, and standard output and error together hold
  what the program printed, the message, and one numbered line with function, file and line for each
  of the innermost 32 calls up to the first that is not Kod code; the exit status is 1.
\<close>

theorem panic_reports_stack:
  fixes w :: "'a stdio_scheme"
  assumes "table_at I ss" and "stack_at I fp lrs" and "out_to w = Shared" and "printed w = []"
  shows "\<exists>bt. (\<forall>u :: 'a stdio_scheme. print_backtrace_from I fp u = Some (fwrite_stderr bt u)) \<and>
    (let w' = kod_panic bt msg (fold (\<lambda>s w. snd (kod_puts spill s w)) out w) in
      sink w' = concat (map (\<lambda>s. s @ [10]) out) @ bytes_of ''panic: '' @ msg @ [10] @ bytes_of ''backtrace:'' @ [10] @
        backtrace_text 0 (symbolize_stack ss (take 32 lrs)) \<and>
      exit_status w' = Some 1)"
proof -
  let ?bt = "bytes_of ''backtrace:'' @ [10] @ backtrace_text 0 (symbolize_stack ss (take 32 lrs))"
  let ?w = "fold (\<lambda>s w. snd (kod_puts spill s w)) out w"
  have "backtrace_from I fp = Some (symbolize_stack ss (take 32 lrs))"
    using backtrace_loop_stack [OF assms(1,2), of 0 "[]"] by (simp add: backtrace_from_def)
  then have "print_backtrace_from I fp u = Some (fwrite_stderr ?bt u)" for u :: "'a stdio_scheme"
    by (simp add: print_backtrace_from_def print_frames_text kod_eprint_def fwrite_stderr_def)
  moreover have "out_to ?w = Shared" "printed ?w = concat (map (\<lambda>s. s @ [10]) out)"
    using puts.writes_all [OF assms(3), of spill out] assms(4) by simp_all
  then have "sink (kod_panic ?bt msg ?w) = concat (map (\<lambda>s. s @ [10]) out) @ bytes_of ''panic: '' @ msg @ [10] @ ?bt"
    using panic_text [of ?w ?bt msg] by simp
  moreover have "exit_status (kod_panic ?bt msg ?w) = Some 1" by (simp add: kod_panic_def Let_def)
  ultimately show ?thesis by (intro exI [of _ ?bt]) simp
qed

theorem panic_reports_stack_witness:
  "\<exists>bt. sink (kod_panic bt [109] (fold (\<lambda>s w. snd (kod_puts (\<lambda>b. 1) s w)) [[104]] fresh_stdio)) =
     bytes_of ''h'' @ [10] @ bytes_of ''panic: m'' @ [10] @ bytes_of ''backtrace:'' @ [10] @ bytes_of ''  #0  f (g:9)'' @ [10]"
proof -
  have "symbolize_stack [demo_symbol] (take 32 [4104]) = [\<lparr>fr_addr = 4104, fr_name = [102], fr_file = [103], fr_line = 9\<rparr>]"
    using demo_symbolize by simp
  then show ?thesis
    using panic_reports_stack [OF demo_tables, of fresh_stdio "[109]" "\<lambda>_. 1" "[[104]]"]
    by (auto simp: fresh_stdio_def printed_def Let_def backtrace_text_def frame_line_def bytes_of_def dec_nat_digit dec_int_def)
qed

end
